(* ===== verification/Prelude.thy ===== *)
theory Prelude
  imports
    Main
    "HOL-Library.Word"
    "HOL-Library.List_Lexorder"
    "HOL-Library.Multiset"
begin

unbundle bit_operations_syntax

section \<open>Shared types, errors and generic lemmas\<close>

text \<open>
  What every component shares: the machine integers of the C++ code as words of their width,
  byte buffers and C strings as byte lists, the error codes of \<^verbatim>\<open>Common/Error.h\<close> as a datatype,
  results as sums with the error on the left, and the lemmas on words and lists used by more
  than one component.

  Byte buffers. A pointer into a buffer is the list of bytes from that pointer to the end of the
  allocation. Reading through a pointer at the end of the allocation is undefined in C++; here it
  is the error \<^verbatim>\<open>UNDEFINED_BEHAVIOUR\<close>, which no code of the repository raises. A component is
  memory safe when that value is never its result.

  C strings. A \<^verbatim>\<open>const char *\<close> that may be null is an option: \<^term>\<open>None\<close> is the null pointer and
  \<^term>\<open>Some s\<close> a string with the bytes \<open>s\<close> before its terminating zero byte. The lexicographic
  order of \<^verbatim>\<open>List_Lexorder\<close> on byte lists is the order of \<^verbatim>\<open>strcmp\<close>, \<^verbatim>\<open>memcmp\<close> and
  \<^verbatim>\<open>std::string\<close>, which all compare bytes as unsigned values.
\<close>

subsection \<open>Machine integers, buffers, strings\<close>

type_synonym byte = "8 word"
type_synonym u16 = "16 word"
type_synonym u32 = "32 word"
type_synonym u64 = "64 word"
type_synonym bytes = "byte list"
type_synonym cstr = "bytes option"

named_theorems wire_reads \<open>what the decoders of message fields read\<close>

subsection \<open>Error codes\<close>

text \<open>The enumerators of \<^verbatim>\<open>Error::Code\<close> that modelled code raises, with one more, \<open>UNDEFINED_BEHAVIOUR\<close>,
  which no code of the program produces: it is the result the model gives where the C++ code would
  read memory it does not own, dereference a null pointer or break a precondition of the standard
  library, so that safety is the statement that it is not returned.\<close>

datatype error =
    UNPOSSIBLE
  | FAILED_EXPECTATION
  | LOCAL_IO_ERROR
  | BAD_KEY
  | BLOCK_COMPRESSOR_UNSUPPORTED_TYPE
  | BLOCK_COMPRESSOR_TRUNCATED
  | BLOCK_COMPRESSOR_BAD_HEADER
  | BLOCK_COMPRESSOR_BAD_MAGIC
  | BLOCK_COMPRESSOR_CHECKSUM_MISMATCH
  | PROTOCOL_ERROR
  | DFSBROKER_BAD_FILENAME
  | DFSBROKER_IO_ERROR
  | COMM_NOT_CONNECTED
  | COMM_CONNECT_ERROR
  | COMM_BROKEN_CONNECTION
  | COMM_CONFLICTING_ADDRESS
  | COMM_REQUEST_TIMEOUT
  | HYPERSPACE_FILE_EXISTS
  | HYPERSPACE_BAD_PATHNAME
  | HYPERSPACE_EXPIRED_SESSION
  | HYPERSPACE_INVALID_HANDLE
  | HYPERSPACE_MODE_RESTRICTION
  | HYPERSPACE_LOCK_CONFLICT
  | HYPERSPACE_CREATE_FAILED
  | HYPERSPACE_PERMISSION_DENIED
  | RANGESERVER_SCHEMA_INVALID_CFID
  | RANGESERVER_INVALID_COLUMNFAMILY
  | RANGESERVER_CORRUPT_COMMIT_LOG
  | RANGESERVER_ROW_OVERFLOW
  | RANGESERVER_BAD_SCAN_SPEC
  | SERIALIZATION_INPUT_OVERRUN
  | SERIALIZATION_BAD_VINT
  | SERIALIZATION_BAD_VSTR
  | UNDEFINED_BEHAVIOUR

subsection \<open>Results\<close>

type_synonym 'a result = "error + 'a"

definition rbind :: "'a result \<Rightarrow> ('a \<Rightarrow> 'b result) \<Rightarrow> 'b result" where
  "rbind m f = (case m of Inl e \<Rightarrow> Inl e | Inr x \<Rightarrow> f x)"

lemma rbind_simps [simp]:
  "rbind (Inl e) f = Inl e"
  "rbind (Inr x) f = f x"
  by (simp_all add: rbind_def)

lemma rbind_Inr_right: "rbind x Inr = x"
  by (cases x) simp_all

lemma rbind_eq_Inr_iff:
  "rbind m f = Inr y \<longleftrightarrow> (\<exists>x. m = Inr x \<and> f x = Inr y)"
  by (cases m) auto

lemma rbind_eq_Inl_iff:
  "rbind m f = Inl e \<longleftrightarrow> m = Inl e \<or> (\<exists>x. m = Inr x \<and> f x = Inl e)"
  by (cases m) auto

subsection \<open>Words\<close>

lemma bit_word_beyond: "LENGTH('a) \<le> n \<Longrightarrow> \<not> bit (w :: 'a::len word) n"
  using bit_imp_le_length by fastforce

lemma take_bit_word_all [simp]: "LENGTH('a) \<le> n \<Longrightarrow> take_bit n (w :: 'a::len word) = w"
  by (rule bit_word_eqI) (auto simp: bit_simps)

lemma unat_lt2p: "unat (w :: 'a::len word) < 2 ^ LENGTH('a)"
  by (rule unsigned_less)

lemma bit_0x80_iff: "bit (0x80 :: 'a::semiring_bits) n \<longleftrightarrow> possible_bit TYPE('a) n \<and> n = 7"
proof -
  have "(0x80 :: 'a) = 2 ^ 7" by simp
  then show ?thesis by (auto simp only: bit_exp_iff)
qed

lemma unat_of_nat_small: "n < 2 ^ LENGTH('a) \<Longrightarrow> unat (of_nat n :: 'a::len word) = n"
  by (simp add: unat_of_nat)

lemma unat_minus_of_nat:
  fixes r :: "'a::len word"
  assumes "n \<le> unat r"
  shows "unat (r - of_nat n) = unat r - n"
proof -
  have "n < 2 ^ LENGTH('a)" using assms unat_lt2p [of r] by (rule order_le_less_trans)
  then have n: "unat (of_nat n :: 'a word) = n" by (rule unat_of_nat_small)
  with assms have "(of_nat n :: 'a word) \<le> r" by (simp add: word_le_nat_alt)
  then show ?thesis using n by (simp add: unat_sub)
qed

text \<open>A value split at a bit position is the disjunction of its two parts.\<close>

lemma or_take_drop_bit:
  "take_bit n w OR push_bit n (drop_bit n w) = (w :: 'a::len word)"
proof (rule bit_word_eqI)
  fix m
  show "bit (take_bit n w OR push_bit n (drop_bit n w)) m \<longleftrightarrow> bit w m" if "m < LENGTH('a)"
    using that by (cases "m < n") (auto simp: bit_simps)
qed

lemma or_push_take_drop_bit:
  "push_bit s (take_bit n w) OR push_bit (s + n) (drop_bit n w) = push_bit s (w :: 'a::len word)"
proof -
  have "push_bit s (take_bit n w) OR push_bit (s + n) (drop_bit n w)
      = push_bit s (take_bit n w OR push_bit n (drop_bit n w))"
    by (simp only: push_bit_push_bit [symmetric] push_bit_or)
  then show ?thesis by (simp only: or_take_drop_bit)
qed

subsection \<open>Little-endian splitting and joining of words\<close>

text \<open>
  The byte decomposition behind every fixed-width field. \<open>le_split n w\<close> is the \<open>n\<close> low bytes of
  \<open>w\<close>, least significant first; \<open>le_join\<close> puts bytes back together.
\<close>

fun le_split :: "nat \<Rightarrow> 'a::len word \<Rightarrow> bytes" where
  "le_split 0 w = []"
| "le_split (Suc n) w = ucast w # le_split n (drop_bit 8 w)"

fun le_join :: "bytes \<Rightarrow> 'a::len word" where
  "le_join [] = 0"
| "le_join (b # bs) = ucast b OR push_bit 8 (le_join bs)"

lemma length_le_split [simp]: "length (le_split n w) = n"
  by (induction n arbitrary: w) auto

lemma ucast_ucast_byte: "ucast (ucast w :: byte) = (take_bit 8 w :: 'a::len word)"
  by (rule bit_word_eqI) (auto simp: bit_simps)

lemma le_join_split: "le_join (le_split n w) = (take_bit (8 * n) w :: 'a::len word)"
proof (induction n arbitrary: w)
  case 0
  show ?case by simp
next
  case (Suc n)
  have "le_join (le_split (Suc n) w) = take_bit 8 w OR push_bit 8 (take_bit (8 * n) (drop_bit 8 w))"
    by (simp add: Suc.IH ucast_ucast_byte)
  also have "\<dots> = take_bit (8 * Suc n) w"
    by (rule bit_word_eqI) (auto simp: bit_simps)
  finally show ?case .
qed

lemma le_split_join: "8 * length bs \<le> LENGTH('a) \<Longrightarrow> le_split (length bs) (le_join bs :: 'a::len word) = bs"
proof (induction bs)
  case Nil
  show ?case by simp
next
  case (Cons b bs)
  let ?j = "le_join bs :: 'a word"
  have low: "(ucast (ucast b OR push_bit 8 ?j) :: byte) = b"
    using Cons.prems by (intro bit_word_eqI) (auto simp: bit_simps)
  have bnd: "bit ?j m \<Longrightarrow> 8 + m < LENGTH('a)" for m
  proof -
    have "take_bit (8 * length bs) ?j = ?j"
      using Cons.IH Cons.prems le_join_split [of "length bs" ?j] by simp
    moreover assume "bit ?j m"
    ultimately have "bit (take_bit (8 * length bs) ?j) m" by simp
    then have "m < 8 * length bs" by (simp add: bit_simps)
    with Cons.prems show "8 + m < LENGTH('a)" by simp
  qed
  have high: "drop_bit 8 (ucast b OR push_bit 8 ?j) = ?j"
    using Cons.prems bnd by (intro bit_word_eqI) (auto simp: bit_simps bit_word_beyond)
  show ?case using Cons low high by simp
qed

text \<open>Base 256 digits: what \<^verbatim>\<open>memcpy\<close> reads from the object representation of an integer on a
  little-endian machine.\<close>

definition le_digits :: "nat \<Rightarrow> nat \<Rightarrow> bytes" where
  "le_digits n x = map (\<lambda>i. word_of_nat (x div 256 ^ i)) [0..<n]"

lemma le_digits_Suc:
  "le_digits (Suc n) x = word_of_nat x # le_digits n (x div 256)"
proof -
  have "[0..<Suc n] = 0 # map Suc [0..<n]"
    by (simp add: map_Suc_upt upt_conv_Cons del: upt_Suc)
  then show ?thesis
    by (simp add: le_digits_def div_mult2_eq [symmetric] o_def del: upt_Suc)
qed

lemma le_split_eq_le_digits: "le_split n w = le_digits n (unat (w :: 'a::len word))"
proof (induction n arbitrary: w)
  case 0
  show ?case by (simp add: le_digits_def)
next
  case (Suc n)
  have "unat (drop_bit 8 w) = unat w div 256"
    by (simp only: unat_drop_bit_eq) (simp add: drop_bit_eq_div)
  moreover have "(word_of_nat (unat w) :: byte) = ucast w"
    by simp
  ultimately show ?case by (simp add: le_digits_Suc Suc.IH)
qed

end
