(* ===== verification/Errors.thy ===== *)
theory Errors
  imports Prelude
begin

text \<open>
  Error codes and their texts (\<^verbatim>\<open>Common/Error.h\<close>, \<^verbatim>\<open>Common/Error.cc\<close>). The whole enumeration and the table
  of texts are lists over the codes' numbers.
\<close>

subsection \<open>The codes\<close>

definition error_enum :: "(string \<times> int) list" where
  "error_enum = [
    (''UNPOSSIBLE'', -3),
    (''EXTERNAL'', -2),
    (''FAILED_EXPECTATION'', -1),
    (''OK'', 0),
    (''PROTOCOL_ERROR'', 1),
    (''REQUEST_TRUNCATED'', 2),
    (''RESPONSE_TRUNCATED'', 3),
    (''REQUEST_TIMEOUT'', 4),
    (''LOCAL_IO_ERROR'', 5),
    (''BAD_ROOT_LOCATION'', 6),
    (''BAD_SCHEMA'', 7),
    (''INVALID_METADATA'', 8),
    (''BAD_KEY'', 9),
    (''METADATA_NOT_FOUND'', 10),
    (''HQL_PARSE_ERROR'', 11),
    (''FILE_NOT_FOUND'', 12),
    (''BLOCK_COMPRESSOR_UNSUPPORTED_TYPE'', 13),
    (''BLOCK_COMPRESSOR_INVALID_ARG'', 14),
    (''BLOCK_COMPRESSOR_TRUNCATED'', 15),
    (''BLOCK_COMPRESSOR_BAD_HEADER'', 16),
    (''BLOCK_COMPRESSOR_BAD_MAGIC'', 17),
    (''BLOCK_COMPRESSOR_CHECKSUM_MISMATCH'', 18),
    (''BLOCK_COMPRESSOR_DEFLATE_ERROR'', 19),
    (''BLOCK_COMPRESSOR_INFLATE_ERROR'', 20),
    (''BLOCK_COMPRESSOR_INIT_ERROR'', 21),
    (''TABLE_DOES_NOT_EXIST'', 22),
    (''MALFORMED_REQUEST'', 23),
    (''TOO_MANY_COLUMNS'', 24),
    (''BAD_DOMAIN_NAME'', 25),
    (''PARSE_ERROR'', 26),
    (''CONNECT_ERROR_MASTER'', 27),
    (''CONNECT_ERROR_HYPERSPACE'', 28),
    (''COMM_NOT_CONNECTED'', 0x00010001),
    (''COMM_BROKEN_CONNECTION'', 0x00010002),
    (''COMM_CONNECT_ERROR'', 0x00010003),
    (''COMM_ALREADY_CONNECTED'', 0x00010004),
    (''COMM_REQUEST_TIMEOUT'', 0x00010005),
    (''COMM_SEND_ERROR'', 0x00010006),
    (''COMM_RECEIVE_ERROR'', 0x00010007),
    (''COMM_POLL_ERROR'', 0x00010008),
    (''COMM_CONFLICTING_ADDRESS'', 0x00010009),
    (''COMM_SOCKET_ERROR'', 0x0001000A),
    (''COMM_BIND_ERROR'', 0x0001000B),
    (''COMM_LISTEN_ERROR'', 0x0001000C),
    (''DFSBROKER_BAD_FILE_HANDLE'', 0x00020001),
    (''DFSBROKER_IO_ERROR'', 0x00020002),
    (''DFSBROKER_FILE_NOT_FOUND'', 0x00020003),
    (''DFSBROKER_BAD_FILENAME'', 0x00020004),
    (''DFSBROKER_PERMISSION_DENIED'', 0x00020005),
    (''DFSBROKER_INVALID_ARGUMENT'', 0x00020006),
    (''DFSBROKER_INVALID_CONFIG'', 0x00020007),
    (''HYPERSPACE_IO_ERROR'', 0x00030001),
    (''HYPERSPACE_CREATE_FAILED'', 0x00030002),
    (''HYPERSPACE_FILE_NOT_FOUND'', 0x00030003),
    (''HYPERSPACE_ATTR_NOT_FOUND'', 0x00030004),
    (''HYPERSPACE_DELETE_ERROR'', 0x00030005),
    (''HYPERSPACE_BAD_PATHNAME'', 0x00030006),
    (''HYPERSPACE_PERMISSION_DENIED'', 0x00030007),
    (''HYPERSPACE_EXPIRED_SESSION'', 0x00030008),
    (''HYPERSPACE_FILE_EXISTS'', 0x00030009),
    (''HYPERSPACE_IS_DIRECTORY'', 0x0003000A),
    (''HYPERSPACE_INVALID_HANDLE'', 0x0003000B),
    (''HYPERSPACE_REQUEST_CANCELLED'', 0x0003000C),
    (''HYPERSPACE_MODE_RESTRICTION'', 0x0003000D),
    (''HYPERSPACE_ALREADY_LOCKED'', 0x0003000E),
    (''HYPERSPACE_LOCK_CONFLICT'', 0x0003000F),
    (''HYPERSPACE_NOT_LOCKED'', 0x00030010),
    (''HYPERSPACE_BAD_ATTRIBUTE'', 0x00030011),
    (''HYPERSPACE_BERKELEYDB_ERROR'', 0x00030012),
    (''HYPERSPACE_DIR_NOT_EMPTY'', 0x00030013),
    (''HYPERSPACE_BERKELEYDB_DEADLOCK'', 0x00030014),
    (''MASTER_TABLE_EXISTS'', 0x00040001),
    (''MASTER_BAD_SCHEMA'', 0x00040002),
    (''MASTER_NOT_RUNNING'', 0x00040003),
    (''MASTER_NO_RANGESERVERS'', 0x00040004),
    (''RANGESERVER_GENERATION_MISMATCH'', 0x00050001),
    (''RANGESERVER_RANGE_ALREADY_LOADED'', 0x00050002),
    (''RANGESERVER_RANGE_MISMATCH'', 0x00050003),
    (''RANGESERVER_NONEXISTENT_RANGE'', 0x00050004),
    (''RANGESERVER_OUT_OF_RANGE'', 0x00050005),
    (''RANGESERVER_RANGE_NOT_FOUND'', 0x00050006),
    (''RANGESERVER_INVALID_SCANNER_ID'', 0x00050007),
    (''RANGESERVER_SCHEMA_PARSE_ERROR'', 0x00050008),
    (''RANGESERVER_SCHEMA_INVALID_CFID'', 0x00050009),
    (''RANGESERVER_INVALID_COLUMNFAMILY'', 0x0005000A),
    (''RANGESERVER_TRUNCATED_COMMIT_LOG'', 0x0005000B),
    (''RANGESERVER_NO_METADATA_FOR_RANGE'', 0x0005000C),
    (''RANGESERVER_SHUTTING_DOWN'', 0x0005000D),
    (''RANGESERVER_CORRUPT_COMMIT_LOG'', 0x0005000E),
    (''RANGESERVER_UNAVAILABLE'', 0x0005000F),
    (''RANGESERVER_TIMESTAMP_ORDER_ERROR'', 0x00050010),
    (''RANGESERVER_ROW_OVERFLOW'', 0x00050011),
    (''RANGESERVER_TABLE_NOT_FOUND'', 0x00050012),
    (''RANGESERVER_BAD_SCAN_SPEC'', 0x00050013),
    (''HQL_BAD_LOAD_FILE_FORMAT'', 0x00060001),
    (''METALOG_VERSION_MISMATCH'', 0x00070001),
    (''METALOG_BAD_RS_HEADER'', 0x00070002),
    (''METALOG_BAD_M_HEADER'', 0x00070003),
    (''METALOG_ENTRY_TRUNCATED'', 0x00070004),
    (''METALOG_CHECKSUM_MISMATCH'', 0x00070005),
    (''METALOG_ENTRY_BAD_TYPE'', 0x00070006),
    (''METALOG_ENTRY_BAD_ORDER'', 0x00070007),
    (''SERIALIZATION_INPUT_OVERRUN'', 0x00080001),
    (''SERIALIZATION_BAD_VINT'', 0x00080002),
    (''SERIALIZATION_BAD_VSTR'', 0x00080003)]"

subsection \<open>The texts\<close>

text \<open>\<^verbatim>\<open>error_info\<close>, up to its terminating entry; the enumerators are given by their values.\<close>

definition error_info :: "(int \<times> string) list" where
  "error_info = [
    (-3, ''But that'' @ CHR 0x27 # ''s unpossible!''),
    (-2, ''External error''),
    (0, ''HYPERTABLE ok''),
    (1, ''HYPERTABLE protocol error''),
    (2, ''HYPERTABLE request truncated''),
    (3, ''HYPERTABLE response truncated''),
    (4, ''HYPERTABLE request timeout''),
    (5, ''HYPERTABLE local i/o error''),
    (6, ''HYPERTABLE bad root location''),
    (7, ''HYPERTABLE bad schema''),
    (8, ''HYPERTABLE invalid metadata''),
    (9, ''HYPERTABLE bad key''),
    (10, ''HYPERTABLE metadata not found''),
    (11, ''HYPERTABLE HQL parse error''),
    (12, ''HYPERTABLE file not found''),
    (13, ''HYPERTABLE block compressor unsupported type''),
    (14, ''HYPERTABLE block compressor invalid arg''),
    (15, ''HYPERTABLE block compressor block truncated''),
    (16, ''HYPERTABLE block compressor bad block header''),
    (17, ''HYPERTABLE block compressor bad magic string''),
    (18, ''HYPERTABLE block compressor block checksum mismatch''),
    (20, ''HYPERTABLE block compressor inflate error''),
    (21, ''HYPERTABLE block compressor initialization error''),
    (22, ''HYPERTABLE table does not exist''),
    (26, ''HYPERTABLE parse error''),
    (27, ''HYPERTABLE Master connect error''),
    (28, ''HYPERTABLE Hyperspace connect error''),
    (24, ''HYPERTABLE too many columns''),
    (25, ''HYPERTABLE bad domain name''),
    (-1, ''HYPERTABLE failed expectation''),
    (23, ''HYPERTABLE malformed request''),
    (0x00010001, ''COMM not connected''),
    (0x00010002, ''COMM broken connection''),
    (0x00010003, ''COMM connect error''),
    (0x00010004, ''COMM already connected''),
    (0x00010005, ''COMM request timeout''),
    (0x00010006, ''COMM send error''),
    (0x00010007, ''COMM receive error''),
    (0x00010008, ''COMM poll error''),
    (0x00010009, ''COMM conflicting address''),
    (0x0001000A, ''COMM socket error''),
    (0x0001000B, ''COMM bind error''),
    (0x0001000C, ''COMM listen error''),
    (0x00020001, ''DFS BROKER bad file handle''),
    (0x00020002, ''DFS BROKER i/o error''),
    (0x00020003, ''DFS BROKER file not found''),
    (0x00020004, ''DFS BROKER bad filename''),
    (0x00020005, ''DFS BROKER permission denied''),
    (0x00020006, ''DFS BROKER invalid argument''),
    (0x00020007, ''DFS BROKER invalid config value''),
    (0x00030001, ''HYPERSPACE i/o error''),
    (0x00030002, ''HYPERSPACE create failed''),
    (0x00030003, ''HYPERSPACE file not found''),
    (0x00030004, ''HYPERSPACE attribute not found''),
    (0x00030005, ''HYPERSPACE delete error''),
    (0x00030006, ''HYPERSPACE bad pathname''),
    (0x00030007, ''HYPERSPACE permission denied''),
    (0x00030008, ''HYPERSPACE expired session''),
    (0x00030009, ''HYPERSPACE file exists''),
    (0x0003000A, ''HYPERSPACE is directory''),
    (0x0003000B, ''HYPERSPACE invalid handle''),
    (0x0003000C, ''HYPERSPACE request cancelled''),
    (0x0003000D, ''HYPERSPACE mode restriction''),
    (0x0003000E, ''HYPERSPACE already locked''),
    (0x0003000F, ''HYPERSPACE lock conflict''),
    (0x00030010, ''HYPERSPACE not locked''),
    (0x00030011, ''HYPERSPACE bad attribute''),
    (0x00030012, ''HYPERSPACE Berkeley DB error''),
    (0x00030013, ''HYPERSPACE directory not empty''),
    (0x00030014, ''HYPERSPACE Berkeley DB deadlock''),
    (0x00040001, ''MASTER table exists''),
    (0x00040002, ''MASTER bad schema''),
    (0x00040003, ''MASTER not running''),
    (0x00040004, ''MASTER no range servers''),
    (0x00050001, ''RANGE SERVER generation mismatch''),
    (0x00050002, ''RANGE SERVER range already loaded''),
    (0x00050003, ''RANGE SERVER range mismatch''),
    (0x00050004, ''RANGE SERVER non-existent range''),
    (0x00050005, ''RANGE SERVER out of range''),
    (0x00050006, ''RANGE SERVER range not found''),
    (0x00050007, ''RANGE SERVER invalid scanner id''),
    (0x00050008, ''RANGE SERVER schema parse error''),
    (0x00050009, ''RANGE SERVER invalid column family id''),
    (0x0005000A, ''RANGE SERVER invalid column family''),
    (0x0005000B, ''RANGE SERVER truncated commit log''),
    (0x0005000C, ''RANGE SERVER no metadata for range''),
    (0x0005000D, ''RANGE SERVER shutting down''),
    (0x0005000E, ''RANGE SERVER corrupt commit log''),
    (0x0005000F, ''RANGE SERVER unavailable''),
    (0x00050010, ''RANGE SERVER supplied timestamp is not strictly increasing''),
    (0x00050011, ''RANGE SERVER row overflow''),
    (0x00050012, ''RANGE SERVER table not found''),
    (0x00050013, ''RANGE SERVER bad scan specification''),
    (0x00060001, ''HQL bad load file format''),
    (0x00070002, ''METALOG bad range server metalog header''),
    (0x00070003, ''METALOG bad master metalog header''),
    (0x00070004, ''METALOG entry truncated''),
    (0x00070005, ''METALOG checksum mismatch''),
    (0x00070006, ''METALOG bad entry type''),
    (0x00070007, ''METALOG entry out of order''),
    (0x00080001, ''SERIALIZATION input buffer overrun''),
    (0x00080002, ''SERIALIZATION bad vint encoding''),
    (0x00080003, ''SERIALIZATION bad vstr encoding'')]"

text \<open>The hash map from codes to texts; a null pointer is \<^const>\<open>None\<close>.\<close>

type_synonym text_map = "int \<rightharpoonup> string option"

definition build_text_map :: text_map where
  "build_text_map = foldl (\<lambda>m (code, text). m(code \<mapsto> Some text)) Map.empty error_info"

text \<open>\<^verbatim>\<open>text_map[error]\<close> inserts a null entry for a code that is not there, so the function changes
  the map it looks in.\<close>

definition get_text :: "int \<Rightarrow> text_map \<Rightarrow> string \<times> text_map" where
  "get_text err m =
     (let m = (case m err of None \<Rightarrow> m(err \<mapsto> None) | Some _ \<Rightarrow> m) in
      case m err of Some (Some text) \<Rightarrow> (text, m) | _ \<Rightarrow> (''ERROR NOT REGISTERED'', m))"

subsection \<open>Lemmas\<close>

lemma foldl_upd_notin:
  "k \<notin> fst ` set xs \<Longrightarrow> foldl (\<lambda>m (c, t). m(c \<mapsto> f t)) m xs k = m k"
  by (induction xs arbitrary: m) auto

lemma foldl_upd_distinct:
  "distinct (map fst xs) \<Longrightarrow> foldl (\<lambda>m (c, t). m(c \<mapsto> f t)) m xs k
     = (case map_of xs k of None \<Rightarrow> m k | Some t \<Rightarrow> Some (f t))"
proof (induction xs arbitrary: m)
  case (Cons a xs)
  then show ?case
    by (cases a; cases "k = fst a") (auto simp: foldl_upd_notin map_of_eq_None_iff [THEN iffD2] cong: option.case_cong)
qed simp

lemma distinct_error_info: "distinct (map fst error_info)"
  by code_simp

lemma distinct_error_enum: "distinct (map snd error_enum)"
  by code_simp

text \<open>A code's text is looked up in a map that earlier calls may have extended with null entries.\<close>

definition text_of :: "int \<Rightarrow> string" where
  "text_of c = (case map_of error_info c of Some t \<Rightarrow> t | None \<Rightarrow> ''ERROR NOT REGISTERED'')"

definition text_map_ok :: "text_map \<Rightarrow> bool" where
  "text_map_ok m \<longleftrightarrow> (\<forall>c. case map_of error_info c of
     Some t \<Rightarrow> m c = Some (Some t) | None \<Rightarrow> m c = None \<or> m c = Some None)"

lemma build_text_map_ok: "text_map_ok build_text_map"
  unfolding text_map_ok_def build_text_map_def
  by (simp add: foldl_upd_distinct [OF distinct_error_info] split: option.split)

lemma get_text_ok:
  assumes "text_map_ok m"
  shows "fst (get_text c m) = text_of c" and "text_map_ok (snd (get_text c m))"
proof -
  have "case map_of error_info c of Some t \<Rightarrow> m c = Some (Some t) | None \<Rightarrow> m c = None \<or> m c = Some None"
    using assms unfolding text_map_ok_def by blast
  then consider t where "map_of error_info c = Some t" "m c = Some (Some t)"
    | "map_of error_info c = None" "m c = None" | "map_of error_info c = None" "m c = Some None"
    by (cases "map_of error_info c") auto
  then have "fst (get_text c m) = text_of c \<and> text_map_ok (snd (get_text c m))"
  proof cases
    case 2
    have "text_map_ok (m(c \<mapsto> None))"
      unfolding text_map_ok_def
    proof
      fix d
      show "case map_of error_info d of Some t \<Rightarrow> (m(c \<mapsto> None)) d = Some (Some t)
          | None \<Rightarrow> (m(c \<mapsto> None)) d = None \<or> (m(c \<mapsto> None)) d = Some None"
        using assms [unfolded text_map_ok_def, rule_format, of d] 2
        by (cases "d = c") (simp_all cong: option.case_cong)
    qed
    then show ?thesis using 2 by (simp add: get_text_def text_of_def)
  qed (use assms in \<open>simp_all add: get_text_def text_of_def\<close>)
  then show "fst (get_text c m) = text_of c" and "text_map_ok (snd (get_text c m))" by simp_all
qed

lemma fold_get_text_ok:
  "text_map_ok m \<Longrightarrow> text_map_ok (fold (\<lambda>c m. snd (get_text c m)) cs m)"
  by (induction cs arbitrary: m) (auto intro: get_text_ok)

subsection \<open>Property\<close>

text \<open>C39. Error texts. The codes of the enumeration are pairwise different, and whatever codes were
  asked for before, asking for a code returns its registered text; but two enumerators have no entry
  in the table, so that a deflate error and a metalog version mismatch are reported as
  \<^verbatim>\<open>ERROR NOT REGISTERED\<close>.\<close>

theorem error_texts:
  "distinct (map snd error_enum)
   \<and> fst (get_text c (fold (\<lambda>c m. snd (get_text c m)) cs build_text_map)) = text_of c
   \<and> map fst (filter (\<lambda>(n, c). c \<notin> set (map fst error_info)) error_enum)
      = [''BLOCK_COMPRESSOR_DEFLATE_ERROR'', ''METALOG_VERSION_MISMATCH'']"
proof (intro conjI)
  show "fst (get_text c (fold (\<lambda>c m. snd (get_text c m)) cs build_text_map)) = text_of c"
    by (intro get_text_ok fold_get_text_ok build_text_map_ok)
  show "map fst (filter (\<lambda>(n, c). c \<notin> set (map fst error_info)) error_enum)
      = [''BLOCK_COMPRESSOR_DEFLATE_ERROR'', ''METALOG_VERSION_MISMATCH'']"
    by code_simp
qed (rule distinct_error_enum)

end
