(* ===== verification/Serialization.thy ===== *)
theory Serialization
  imports Prelude
begin

unbundle bit_operations_syntax

section \<open>Wire primitives: \<^verbatim>\<open>Common/serialization-c.h\<close> and \<^verbatim>\<open>Common/Serialization.h\<close>\<close>

text \<open>
  The encoders append to a buffer that the caller made large enough, so an encoder is the list of
  bytes it appends. The decoders take the pair of variables the C++ decoders update: the pointer
  \<^verbatim>\<open>*bufp\<close> (the bytes from it to the end of the allocation) and the counter \<^verbatim>\<open>*remainp\<close>, a
  64 bit \<^verbatim>\<open>size_t\<close>. The counter is kept apart from the pointer because the code does so: nothing
  but the callers' discipline keeps \<^verbatim>\<open>*remainp\<close> at most the number of bytes really left.

  The theory holds: the fixed-width integers in both variants of the source (shifts, and
  \<^verbatim>\<open>memcpy\<close> on little-endian machines), variable length integers, the formats bytes32, str16 and
  vstr, and two interfaces. \<open>checked_decoder\<close> is the contract that a decoder never reads outside
  its buffer and moves pointer and counter together; \<open>codec\<close> is the contract of an encoder and
  decoder pair. Both are closed under sequencing, which the message theories use.
\<close>

type_synonym cursor = "bytes \<times> u64"
type_synonym 'a decoder = "cursor \<Rightarrow> ('a \<times> cursor) result"

definition dret :: "'a \<Rightarrow> 'a decoder" where
  "dret x c = Inr (x, c)"

definition dbind :: "'a decoder \<Rightarrow> ('a \<Rightarrow> 'b decoder) \<Rightarrow> 'b decoder" where
  "dbind d f c = rbind (d c) (\<lambda>(x, c'). f x c')"

subsection \<open>Reading through the pointer\<close>

text \<open>\<^verbatim>\<open>HT_DECODE_NEED\<close>\<close>

definition need :: "u64 \<Rightarrow> u64 \<Rightarrow> u64 result" where
  "need r l = (if r < l then Inl SERIALIZATION_INPUT_OVERRUN else Inr (r - l))"

text \<open>\<open>*ip++\<close>, a run of it, and pointer advance.\<close>

fun rd :: "bytes \<Rightarrow> (byte \<times> bytes) result" where
  "rd [] = Inl UNDEFINED_BEHAVIOUR"
| "rd (b # ip) = Inr (b, ip)"

definition advance :: "nat \<Rightarrow> bytes \<Rightarrow> bytes result" where
  "advance n ip = (if n \<le> length ip then Inr (drop n ip) else Inl UNDEFINED_BEHAVIOUR)"

definition rdn :: "nat \<Rightarrow> bytes \<Rightarrow> (bytes \<times> bytes) result" where
  "rdn n ip = (if n \<le> length ip then Inr (take n ip, drop n ip) else Inl UNDEFINED_BEHAVIOUR)"

subsection \<open>Fixed-width integers\<close>

definition encode_i8 :: "byte \<Rightarrow> bytes" where
  "encode_i8 v = [v]"

definition decode_i8 :: "byte decoder" where
  "decode_i8 = (\<lambda>(ip, r). rbind (need r 1) (\<lambda>r. rbind (rd ip) (\<lambda>(b, ip). Inr (b, ip, r))))"

definition decode_byte :: "byte decoder" where
  "decode_byte = decode_i8"

definition encode_bool :: "bool \<Rightarrow> bytes" where
  "encode_bool v = [if v then 1 else 0]"

definition decode_bool :: "bool decoder" where
  "decode_bool = dbind decode_i8 (\<lambda>b. dret (b \<noteq> 0))"

definition encode_i16 :: "u16 \<Rightarrow> bytes" where
  "encode_i16 v = [ucast v, ucast (drop_bit 8 v)]"

definition decode_i16 :: "u16 decoder" where
  "decode_i16 = (\<lambda>(ip, r). rbind (need r 2) (\<lambda>r. rbind (rdn 2 ip) (\<lambda>(b, ip).
     Inr (ucast (b ! 0) OR push_bit 8 (ucast (b ! 1)), ip, r))))"

definition encode_i32 :: "u32 \<Rightarrow> bytes" where
  "encode_i32 v =
     [ucast v, ucast (drop_bit 8 v), ucast (drop_bit 16 v), ucast (drop_bit 24 v)]"

definition decode_i32 :: "u32 decoder" where
  "decode_i32 = (\<lambda>(ip, r). rbind (need r 4) (\<lambda>r. rbind (rdn 4 ip) (\<lambda>(b, ip).
     Inr (ucast (b ! 0) OR push_bit 8 (ucast (b ! 1)) OR push_bit 16 (ucast (b ! 2))
            OR push_bit 24 (ucast (b ! 3)), ip, r))))"

definition encode_i64 :: "u64 \<Rightarrow> bytes" where
  "encode_i64 v =
     [ucast v, ucast (drop_bit 8 v), ucast (drop_bit 16 v), ucast (drop_bit 24 v),
      ucast (drop_bit 32 v), ucast (drop_bit 40 v), ucast (drop_bit 48 v), ucast (drop_bit 56 v)]"

definition decode_i64 :: "u64 decoder" where
  "decode_i64 = (\<lambda>(ip, r). rbind (need r 8) (\<lambda>r. rbind (rdn 8 ip) (\<lambda>(b, ip).
     Inr (ucast (b ! 0) OR push_bit 8 (ucast (b ! 1)) OR push_bit 16 (ucast (b ! 2))
            OR push_bit 24 (ucast (b ! 3)) OR push_bit 32 (ucast (b ! 4))
            OR push_bit 40 (ucast (b ! 5)) OR push_bit 48 (ucast (b ! 6))
            OR push_bit 56 (ucast (b ! 7)), ip, r))))"

text \<open>The \<^verbatim>\<open>HT_LITTLE_ENDIAN\<close> variants copy the object representation with \<^verbatim>\<open>memcpy\<close>.\<close>

definition encode_i16_memcpy :: "u16 \<Rightarrow> bytes" where
  "encode_i16_memcpy v = le_digits 2 (unat v)"

definition encode_i32_memcpy :: "u32 \<Rightarrow> bytes" where
  "encode_i32_memcpy v = le_digits 4 (unat v)"

definition encode_i64_memcpy :: "u64 \<Rightarrow> bytes" where
  "encode_i64_memcpy v = le_digits 8 (unat v)"

subsection \<open>Variable length integers\<close>

definition encoded_length_vi32 :: "u32 \<Rightarrow> nat" where
  "encoded_length_vi32 v =
     (if v \<le> 0x7f then 1 else if v \<le> 0x3fff then 2 else if v \<le> 0x1fffff then 3
      else if v \<le> 0xfffffff then 4 else 5)"

definition encoded_length_vi64 :: "u64 \<Rightarrow> nat" where
  "encoded_length_vi64 v =
     (if v \<le> 0x7f then 1 else if v \<le> 0x3fff then 2 else if v \<le> 0x1fffff then 3
      else if v \<le> 0xfffffff then 4 else if v \<le> 0x7ffffffff then 5
      else if v \<le> 0x3ffffffffff then 6 else if v \<le> 0x1ffffffffffff then 7
      else if v \<le> 0xffffffffffffff then 8 else if v \<le> 0x7fffffffffffffff then 9 else 10)"

text \<open>
  \<^verbatim>\<open>HT_ENCODE_VINT_\<close>, repeated: a continuation byte, a shift, and the final byte when the rest
  fits in seven bits. The unrolled code falls through to \<^verbatim>\<open>HT_THROW_UNPOSSIBLE\<close>.
\<close>

fun encode_vint_steps :: "nat \<Rightarrow> 'a::len word \<Rightarrow> bytes result" where
  "encode_vint_steps 0 v = Inl UNPOSSIBLE"
| "encode_vint_steps (Suc n) v =
     (let b = ucast (v OR 0x80); w = drop_bit 7 v in
      if w \<le> 0x7f then Inr [b, ucast (w AND 0x7f)]
      else rbind (encode_vint_steps n w) (\<lambda>bs. Inr (b # bs)))"

definition encode_vi32 :: "u32 \<Rightarrow> bytes result" where
  "encode_vi32 v = (if v \<le> 0x7f then Inr [ucast (v AND 0x7f)] else encode_vint_steps 5 v)"

definition encode_vi64 :: "u64 \<Rightarrow> bytes result" where
  "encode_vi64 v = (if v \<le> 0x7f then Inr [ucast (v AND 0x7f)] else encode_vint_steps 10 v)"

text \<open>
  \<^verbatim>\<open>HT_DECODE_VINT_\<close>, repeated: \<open>prev\<close> is \<^verbatim>\<open>(_ip_)[-1]\<close>. Running out of the unrolled steps is
  \<^verbatim>\<open>HT_THROW_BAD_VINT\<close>. (In the last step of the 32 bit macro the shift is 35, whose value C++
  leaves undefined; that value is dropped by the throw that follows.)
\<close>

fun decode_vint_steps :: "nat \<Rightarrow> nat \<Rightarrow> 'a::len word \<Rightarrow> byte \<Rightarrow> 'a word decoder" where
  "decode_vint_steps 0 shift v prev c = Inl SERIALIZATION_BAD_VINT"
| "decode_vint_steps (Suc n) shift v prev (ip, r) =
     (if prev AND 0x80 \<noteq> 0 then
        rbind (need r 1) (\<lambda>r. rbind (rd ip) (\<lambda>(b, ip).
          decode_vint_steps n (shift + 7) (v OR push_bit (shift + 7) (ucast (b AND 0x7f))) b (ip, r)))
      else Inr (v, ip, r))"

definition decode_vint :: "nat \<Rightarrow> 'a::len word decoder" where
  "decode_vint n = (\<lambda>(ip, r). rbind (need r 1) (\<lambda>r. rbind (rd ip) (\<lambda>(b, ip).
     decode_vint_steps n 0 (ucast (b AND 0x7f)) b (ip, r))))"

definition decode_vi32 :: "u32 decoder" where
  "decode_vi32 = decode_vint 5"

definition decode_vi64 :: "u64 decoder" where
  "decode_vi64 = decode_vint 10"

text \<open>The overload without a counter assumes six bytes.\<close>

definition decode_vi32_ptr :: "bytes \<Rightarrow> (u32 \<times> bytes) result" where
  "decode_vi32_ptr ip = rbind (decode_vi32 (ip, 6)) (\<lambda>(v, ip, r). Inr (v, ip))"

definition decode_vi64_ptr :: "bytes \<Rightarrow> (u64 \<times> bytes) result" where
  "decode_vi64_ptr ip = rbind (decode_vi64 (ip, 12)) (\<lambda>(v, ip, r). Inr (v, ip))"

subsection \<open>Byte arrays and strings\<close>

definition encoded_length_bytes32 :: "nat \<Rightarrow> nat" where
  "encoded_length_bytes32 len = len + 4"

definition encode_bytes32 :: "bytes \<Rightarrow> bytes" where
  "encode_bytes32 data = encode_i32 (of_nat (length data)) @ data"

text \<open>\<^verbatim>\<open>HT_DECODE_BYTES32\<close>: \<^verbatim>\<open>HT_DECODE_NEED\<close> already subtracts the length from the counter.\<close>

definition decode_bytes32 :: "(bytes \<times> u32) decoder" where
  "decode_bytes32 = dbind decode_i32 (\<lambda>tmp (ip, r).
     rbind (need r (ucast tmp)) (\<lambda>r.
     let out = ip; r = r - ucast tmp in
     rbind (advance (unat tmp) ip) (\<lambda>ip. Inr ((out, tmp), ip, r))))"

definition encoded_length_str16 :: "cstr \<Rightarrow> nat" where
  "encoded_length_str16 s = 2 + (case s of None \<Rightarrow> 0 | Some s \<Rightarrow> length s) + 1"

definition encode_str16 :: "bytes \<Rightarrow> u16 \<Rightarrow> bytes" where
  "encode_str16 s len = encode_i16 len @ take (unat len) s @ [0]"

definition encode_str16_cstr :: "cstr \<Rightarrow> bytes" where
  "encode_str16_cstr s =
     (case s of None \<Rightarrow> encode_str16 [] 0 | Some s \<Rightarrow> encode_str16 s (of_nat (length s)))"

text \<open>\<^verbatim>\<open>HT_DECODE_STR16\<close> does not check the counter against the length it just read.\<close>

definition decode_str16 :: "(bytes \<times> u16) decoder" where
  "decode_str16 = dbind decode_i16 (\<lambda>len (ip, r).
     let s = ip; r = r - (ucast len + 1) in
     rbind (advance (unat len + 1) ip) (\<lambda>ip. Inr ((s, len), ip, r)))"

definition encoded_length_vstr :: "nat \<Rightarrow> nat" where
  "encoded_length_vstr len = encoded_length_vi64 (of_nat len) + len + 1"

definition encoded_length_vstr_cstr :: "cstr \<Rightarrow> nat" where
  "encoded_length_vstr_cstr s = encoded_length_vstr (case s of None \<Rightarrow> 0 | Some s \<Rightarrow> length s)"

definition encode_vstr :: "bytes \<Rightarrow> bytes result" where
  "encode_vstr s = rbind (encode_vi64 (of_nat (length s))) (\<lambda>n. Inr (n @ s @ [0]))"

definition encode_vstr_cstr :: "cstr \<Rightarrow> bytes result" where
  "encode_vstr_cstr s = encode_vstr (case s of None \<Rightarrow> [] | Some s \<Rightarrow> s)"

text \<open>
  \<^verbatim>\<open>HT_DECODE_VSTR\<close>. The length is incremented at 64 bits before the bounds check, so the length
  \<^verbatim>\<open>2^64 - 1\<close> asks for zero bytes; \<open>last_read\<close> is then the last byte of the length itself. The
  result is the string pointer and the length.
\<close>

definition last_read :: "bytes \<Rightarrow> bytes \<Rightarrow> byte" where
  "last_read ip0 ip = ip0 ! (length ip0 - length ip - 1)"

definition decode_vstr :: "(bytes \<times> u64) decoder" where
  "decode_vstr = (\<lambda>(ip0, r). rbind (decode_vi64 (ip0, r)) (\<lambda>(tmp, ip, r).
     let out = ip; len = tmp; tmp = tmp + 1 in
     rbind (need r tmp) (\<lambda>r.
     rbind (advance (unat tmp) ip) (\<lambda>ip.
       if last_read ip0 ip \<noteq> 0 then Inl SERIALIZATION_BAD_VSTR
       else Inr ((out, len), ip, r)))))"

text \<open>The two ways callers read a decoded vstr: as a C string and as a \<^verbatim>\<open>String(buf, len)\<close>.\<close>

definition cstr_at :: "bytes \<Rightarrow> bytes" where
  "cstr_at ip = takeWhile (\<lambda>b. b \<noteq> 0) ip"

definition decode_vstr_cstr :: "cstr decoder" where
  "decode_vstr_cstr = dbind decode_vstr (\<lambda>(p, len). dret (Some (cstr_at p)))"

definition decode_vstr_string :: "bytes decoder" where
  "decode_vstr_string = dbind decode_vstr (\<lambda>(p, len). dret (take (unat len) p))"

subsection \<open>Lemmas: cursors\<close>

lemma dret_apply [simp]: "dret x c = Inr (x, c)"
  by (simp add: dret_def)

lemma dbind_apply: "dbind d f c = rbind (d c) (\<lambda>(x, c'). f x c')"
  by (simp add: dbind_def)

lemma dbind_Inr: "d c = Inr (x, c') \<Longrightarrow> dbind d f c = f x c'"
  by (simp add: dbind_def)

lemma dbind_Inl: "d c = Inl e \<Longrightarrow> dbind d f c = Inl e"
  by (simp add: dbind_def)

lemma need_ok: "l \<le> r \<Longrightarrow> need r l = Inr (r - l)"
  by (simp add: need_def)

lemma need_short: "r < l \<Longrightarrow> need r l = Inl SERIALIZATION_INPUT_OVERRUN"
  by (simp add: need_def)

lemma rdn_append [simp]: "length bs = n \<Longrightarrow> rdn n (bs @ rest) = Inr (bs, rest)"
  by (simp add: rdn_def)

lemma advance_append [simp]: "length bs = n \<Longrightarrow> advance n (bs @ rest) = Inr rest"
  by (simp add: advance_def)

lemmas cursor_defs = need_def rdn_def advance_def rbind_def

subsection \<open>Lemmas: fixed-width integers\<close>

lemma encode_i16_le_split: "encode_i16 v = le_split 2 v"
  by (simp add: encode_i16_def numeral_2_eq_2)

lemma encode_i32_le_split: "encode_i32 v = le_split 4 v"
  by (simp add: encode_i32_def eval_nat_numeral drop_bit_drop_bit)

lemma encode_i64_le_split: "encode_i64 v = le_split 8 v"
  by (simp add: encode_i64_def eval_nat_numeral drop_bit_drop_bit)

lemmas encode_le_split = encode_i16_le_split encode_i32_le_split encode_i64_le_split

lemma length_encode_fixed [simp]:
  "length (encode_i8 x) = 1" "length (encode_bool c) = 1" "length (encode_i16 v) = 2"
  "length (encode_i32 w) = 4" "length (encode_i64 y) = 8"
  by (simp_all add: encode_i8_def encode_bool_def encode_le_split)

lemma le_join_2: "length b = 2 \<Longrightarrow> le_join b = (ucast (b ! 0) OR push_bit 8 (ucast (b ! 1)) :: u16)"
  by (auto simp: numeral_2_eq_2 length_Suc_conv)

lemma le_join_4:
  "length b = 4 \<Longrightarrow> le_join b =
     (ucast (b ! 0) OR push_bit 8 (ucast (b ! 1)) OR push_bit 16 (ucast (b ! 2))
        OR push_bit 24 (ucast (b ! 3)) :: u32)"
  by (auto simp: numeral_eq_Suc length_Suc_conv push_bit_or push_bit_push_bit or.assoc)

lemma le_join_8:
  "length b = 8 \<Longrightarrow> le_join b =
     (ucast (b ! 0) OR push_bit 8 (ucast (b ! 1)) OR push_bit 16 (ucast (b ! 2))
        OR push_bit 24 (ucast (b ! 3)) OR push_bit 32 (ucast (b ! 4))
        OR push_bit 40 (ucast (b ! 5)) OR push_bit 48 (ucast (b ! 6))
        OR push_bit 56 (ucast (b ! 7)) :: u64)"
  by (auto simp: numeral_eq_Suc length_Suc_conv push_bit_or push_bit_push_bit or.assoc)


subsection \<open>Contracts of decoders and of encoder/decoder pairs\<close>

text \<open>
  A checked decoder, started with a counter that does not exceed the bytes really there, does not
  read outside the buffer, and when it succeeds has advanced the pointer by as many bytes as it
  took off the counter.
\<close>

locale checked_decoder =
  fixes dec :: "'a decoder"
  assumes never_undefined: "unat r \<le> length ip \<Longrightarrow> dec (ip, r) \<noteq> Inl UNDEFINED_BEHAVIOUR"
    and consumes: "unat r \<le> length ip \<Longrightarrow> dec (ip, r) = Inr (x, ip', r') \<Longrightarrow>
      \<exists>n \<le> unat r. ip' = drop n ip \<and> r' = r - of_nat n"
begin

lemma cursor_kept:
  assumes "unat r \<le> length ip" and "dec (ip, r) = Inr (x, ip', r')"
  shows "unat r' \<le> length ip'"
proof -
  from consumes [OF assms] obtain n where n: "n \<le> unat r" "ip' = drop n ip" "r' = r - of_nat n"
    by blast
  have "unat r' = unat r - n"
    using n by (simp add: unat_minus_of_nat)
  with n assms(1) show ?thesis by simp
qed

end

lemma checked_dret: "checked_decoder (dret x)"
  by unfold_locales (auto intro!: exI [of _ 0])

lemma checked_dbind:
  assumes d: "checked_decoder d" and f: "\<And>x. checked_decoder (f x)"
  shows "checked_decoder (dbind d f)"
proof
  fix ip :: bytes and r :: u64
  assume le: "unat r \<le> length ip"
  show "dbind d f (ip, r) \<noteq> Inl UNDEFINED_BEHAVIOUR"
  proof (cases "d (ip, r)")
    case (Inl e)
    then show ?thesis using checked_decoder.never_undefined [OF d le] by (simp add: dbind_Inl)
  next
    case (Inr s)
    then obtain x ip' r' where s: "d (ip, r) = Inr (x, ip', r')" by (cases s) auto
    show ?thesis
      using checked_decoder.never_undefined [OF f checked_decoder.cursor_kept [OF d le s]]
      by (simp add: dbind_apply s)
  qed
next
  fix ip :: bytes and r :: u64 and y ip2 r2
  assume le: "unat r \<le> length ip" and eq: "dbind d f (ip, r) = Inr (y, ip2, r2)"
  then obtain x ip' r' where s: "d (ip, r) = Inr (x, ip', r')" and t: "f x (ip', r') = Inr (y, ip2, r2)"
    by (auto simp: dbind_apply rbind_eq_Inr_iff)
  obtain n where n: "n \<le> unat r" "ip' = drop n ip" "r' = r - of_nat n"
    using checked_decoder.consumes [OF d le s] by blast
  obtain m where m: "m \<le> unat r'" "ip2 = drop m ip'" "r2 = r' - of_nat m"
    using checked_decoder.consumes [OF f checked_decoder.cursor_kept [OF d le s] t] by blast
  have "n + m \<le> unat r" using n m by (simp add: unat_minus_of_nat)
  then show "\<exists>k \<le> unat r. ip2 = drop k ip \<and> r2 = r - of_nat k"
    using n m by (intro exI [of _ "n + m"]) (simp add: add.commute)
qed

text \<open>
  The contract of a format: the encoder succeeds on the values it is meant for, the decoder reads
  back what was written and stops right behind it, and it rejects every truncation of it.
\<close>

locale codec =
  fixes enc :: "'a \<Rightarrow> bytes result" and dec :: "'a decoder" and valid :: "'a \<Rightarrow> bool"
  assumes enc_total: "valid x \<Longrightarrow> \<exists>bs. enc x = Inr bs"
    and dec_enc: "valid x \<Longrightarrow> enc x = Inr bs \<Longrightarrow> length bs \<le> unat r \<Longrightarrow>
      dec (bs @ rest, r) = Inr (x, rest, r - of_nat (length bs))"
    and dec_short: "valid x \<Longrightarrow> enc x = Inr bs \<Longrightarrow> unat r < length bs \<Longrightarrow>
      dec (bs @ rest, r) = Inl SERIALIZATION_INPUT_OVERRUN"
begin

lemma enc_inject:
  assumes "valid x" "valid y" "enc x = Inr bs" "enc y = Inr bs" "length bs < 2 ^ 64"
  shows "x = y"
  using dec_enc [of x bs "word_of_nat (length bs)" "[]"] dec_enc [of y bs "word_of_nat (length bs)" "[]"] assms
  by (simp add: unat_of_nat_small)

end

text \<open>Writing two fields one after the other, and reading them back in the same order.\<close>

definition ecat :: "bytes result \<Rightarrow> bytes result \<Rightarrow> bytes result" where
  "ecat a b = rbind a (\<lambda>x. rbind b (\<lambda>y. Inr (x @ y)))"

lemma ecat_eq_Inr: "ecat a b = Inr bs \<longleftrightarrow> (\<exists>x y. a = Inr x \<and> b = Inr y \<and> bs = x @ y)"
  by (auto simp: ecat_def rbind_eq_Inr_iff)

lemma ecat_Inr [simp]: "ecat (Inr x) (Inr y) = Inr (x @ y)"
  by (simp add: ecat_def)

text \<open>\<open>decodes d x bs\<close>: in front of anything, \<open>d\<close> reads exactly the bytes \<open>bs\<close> as \<open>x\<close>, and reports an overrun
  when the counter does not cover them. It is closed under sequencing.\<close>

definition decodes :: "'a decoder \<Rightarrow> 'a \<Rightarrow> bytes \<Rightarrow> bool" where
  "decodes d x bs \<longleftrightarrow> (\<forall>r rest. d (bs @ rest, r) =
     (if length bs \<le> unat r then Inr (x, rest, r - of_nat (length bs)) else Inl SERIALIZATION_INPUT_OVERRUN))"

lemma decodesD:
  "decodes d x bs \<Longrightarrow> d (bs @ rest, r) =
     (if length bs \<le> unat r then Inr (x, rest, r - of_nat (length bs)) else Inl SERIALIZATION_INPUT_OVERRUN)"
  by (simp add: decodes_def)

lemma decodes_dret: "decodes (dret x) x []"
  by (simp add: decodes_def)

lemma decodes_dbind:
  assumes d: "decodes d x b1" and f: "decodes (f x) y b2"
  shows "decodes (dbind d f) y (b1 @ b2)"
  unfolding decodes_def
proof (intro allI)
  fix r :: u64 and rest
  show "dbind d f ((b1 @ b2) @ rest, r) = (if length (b1 @ b2) \<le> unat r
      then Inr (y, rest, r - of_nat (length (b1 @ b2))) else Inl SERIALIZATION_INPUT_OVERRUN)"
  proof (cases "length b1 \<le> unat r")
    case True
    then have "unat (r - of_nat (length b1)) = unat r - length b1" by (rule unat_minus_of_nat)
    then show ?thesis
      using True by (auto simp: dbind_apply decodesD [OF d] decodesD [OF f] diff_diff_eq)
  qed (simp add: dbind_apply decodesD [OF d])
qed

lemma codecI:
  assumes "\<And>x. valid x \<Longrightarrow> \<exists>bs. enc x = Inr bs \<and> decodes dec x bs"
  shows "codec enc dec valid"
proof
  fix x bs r rest
  assume "valid x" "enc x = Inr bs"
  then have "decodes dec x bs" using assms by force
  then show "length bs \<le> unat r \<Longrightarrow> dec (bs @ rest, r) = Inr (x, rest, r - of_nat (length bs))"
    and "unat r < length bs \<Longrightarrow> dec (bs @ rest, r) = Inl SERIALIZATION_INPUT_OVERRUN"
    by (simp_all add: decodesD)
qed (use assms in blast)

context codec begin

lemma enc_decodes: "valid x \<Longrightarrow> enc x = Inr bs \<Longrightarrow> decodes dec x bs"
  by (auto simp: decodes_def dec_enc dec_short)

end

subsection \<open>The fixed-width integers meet both contracts\<close>

definition fixed_decoder :: "nat \<Rightarrow> (bytes \<Rightarrow> 'a) \<Rightarrow> 'a decoder" where
  "fixed_decoder n j = (\<lambda>(ip, r). rbind (need r (of_nat n)) (\<lambda>r. rbind (rdn n ip) (\<lambda>(b, ip). Inr (j b, ip, r))))"

lemma fixed_decoders:
  "decode_i8 = fixed_decoder 1 (\<lambda>b. b ! 0)"
  "decode_i16 = fixed_decoder 2 le_join"
  "decode_i32 = fixed_decoder 4 le_join"
  "decode_i64 = fixed_decoder 8 le_join"
proof -
  show "decode_i8 = fixed_decoder 1 (\<lambda>b. b ! 0)"
  proof (rule ext, clarify)
    fix ip r
    show "decode_i8 (ip, r) = fixed_decoder 1 (\<lambda>b. b ! 0) (ip, r)"
      by (cases ip) (auto simp: decode_i8_def fixed_decoder_def rdn_def need_def)
  qed
qed (auto simp: fun_eq_iff decode_i16_def decode_i32_def decode_i64_def fixed_decoder_def rdn_def
      le_join_2 le_join_4 le_join_8 need_def)

lemma checked_fixed_decoder: "n < 2 ^ 64 \<Longrightarrow> checked_decoder (fixed_decoder n j)"
proof
  fix ip :: bytes and r :: u64
  assume n: "n < 2 ^ 64" and le: "unat r \<le> length ip"
  have eq: "r < of_nat n \<longleftrightarrow> unat r < n"
    using n by (simp add: word_less_nat_alt unat_of_nat_small)
  show "fixed_decoder n j (ip, r) \<noteq> Inl UNDEFINED_BEHAVIOUR"
    using le by (auto simp: fixed_decoder_def cursor_defs eq)
  fix x ip' r'
  assume "fixed_decoder n j (ip, r) = Inr (x, ip', r')"
  then show "\<exists>n \<le> unat r. ip' = drop n ip \<and> r' = r - of_nat n"
    using le by (intro exI [of _ n]) (auto simp: fixed_decoder_def cursor_defs eq split: if_splits)
qed

lemma codec_fixed_decoder:
  assumes n: "n < 2 ^ 64" and len: "\<And>x. length (e x) = n" and je: "\<And>x. valid x \<Longrightarrow> j (e x) = x"
  shows "codec (\<lambda>x. Inr (e x)) (fixed_decoder n j) valid"
proof
  fix x bs and r :: u64 and rest
  assume valid: "valid x" and bs: "Inr (e x) = (Inr bs :: bytes result)"
  have eq: "r < of_nat n \<longleftrightarrow> unat r < n"
    using n by (simp add: word_less_nat_alt unat_of_nat_small)
  have [simp]: "length bs = n" "j bs = x" using bs len je [OF valid] by auto
  show "fixed_decoder n j (bs @ rest, r) = Inr (x, rest, r - of_nat (length bs))"
    if "length bs \<le> unat r"
    using that by (simp add: fixed_decoder_def need_def eq)
  show "fixed_decoder n j (bs @ rest, r) = Inl SERIALIZATION_INPUT_OVERRUN"
    if "unat r < length bs"
    using that by (simp add: fixed_decoder_def need_def eq)
qed simp

interpretation i8: codec "\<lambda>x. Inr (encode_i8 x)" decode_i8 "\<lambda>_. True"
  unfolding fixed_decoders by (rule codec_fixed_decoder) (simp_all add: encode_i8_def)

interpretation i16: codec "\<lambda>x. Inr (encode_i16 x)" decode_i16 "\<lambda>_. True"
  unfolding fixed_decoders by (rule codec_fixed_decoder) (simp_all add: encode_le_split le_join_split)

interpretation i32: codec "\<lambda>x. Inr (encode_i32 x)" decode_i32 "\<lambda>_. True"
  unfolding fixed_decoders by (rule codec_fixed_decoder) (simp_all add: encode_le_split le_join_split)

interpretation i64: codec "\<lambda>x. Inr (encode_i64 x)" decode_i64 "\<lambda>_. True"
  unfolding fixed_decoders by (rule codec_fixed_decoder) (simp_all add: encode_le_split le_join_split)

lemma decode_bool_fixed: "decode_bool = fixed_decoder 1 (\<lambda>b. b ! 0 \<noteq> 0)"
  by (auto simp: fun_eq_iff decode_bool_def fixed_decoders fixed_decoder_def dbind_apply cursor_defs)

interpretation bool: codec "\<lambda>x. Inr (encode_bool x)" decode_bool "\<lambda>_. True"
  unfolding decode_bool_fixed by (rule codec_fixed_decoder) (simp_all add: encode_bool_def)

interpretation i8: checked_decoder decode_i8
  unfolding fixed_decoders by (rule checked_fixed_decoder) simp

interpretation i16: checked_decoder decode_i16
  unfolding fixed_decoders by (rule checked_fixed_decoder) simp

interpretation i32: checked_decoder decode_i32
  unfolding fixed_decoders by (rule checked_fixed_decoder) simp

interpretation i64: checked_decoder decode_i64
  unfolding fixed_decoders by (rule checked_fixed_decoder) simp

interpretation bool: checked_decoder decode_bool
  unfolding decode_bool_fixed by (rule checked_fixed_decoder) simp

lemmas fixed_codecs = i8.codec_axioms i16.codec_axioms i32.codec_axioms i64.codec_axioms bool.codec_axioms
lemmas fixed_checked = i8.checked_decoder_axioms i16.checked_decoder_axioms i32.checked_decoder_axioms
  i64.checked_decoder_axioms bool.checked_decoder_axioms

text \<open>The two variants of the encoders, chosen by \<^verbatim>\<open>HT_LITTLE_ENDIAN\<close>, write the same bytes.\<close>

lemma encode_memcpy_eq:
  "encode_i16_memcpy v = encode_i16 v" "encode_i32_memcpy w = encode_i32 w"
  "encode_i64_memcpy x = encode_i64 x"
  by (simp_all add: encode_i16_memcpy_def encode_i32_memcpy_def encode_i64_memcpy_def encode_le_split
      le_split_eq_le_digits)

subsection \<open>Variable length integers\<close>

text \<open>
  The format without the unrolling: seven bits per byte, low bits first, the top bit set on every
  byte but the last.
\<close>

function vint_bytes :: "'a::len word \<Rightarrow> bytes" where
  "vint_bytes v = (if v \<le> 0x7f then [ucast v] else ucast (v OR 0x80) # vint_bytes (drop_bit 7 v))"
  by pat_completeness auto
termination
proof (relation "measure unat")
  fix v :: "'a word"
  assume "\<not> v \<le> 0x7f"
  then have "v \<noteq> 0" by auto
  then have "0 < unat v" by (simp add: unat_gt_0)
  moreover have "unat (drop_bit 7 v) = unat v div 128"
    by (simp only: unat_drop_bit_eq) (simp add: drop_bit_eq_div)
  ultimately show "(drop_bit 7 v, v) \<in> measure unat" by simp
qed simp

declare vint_bytes.simps [simp del]

lemma le_0x7f_iff: "7 < LENGTH('a) \<Longrightarrow> (v :: 'a::len word) \<le> 0x7f \<longleftrightarrow> unat v < 128"
proof -
  assume len: "7 < LENGTH('a)"
  have "(127 :: nat) < 2 ^ 7" by simp
  also have "(2 :: nat) ^ 7 \<le> 2 ^ LENGTH('a)" using len by (intro power_increasing) auto
  finally have "unat (of_nat 127 :: 'a word) = 127" by (rule unat_of_nat_small)
  then show ?thesis by (auto simp: word_le_nat_alt)
qed

lemma unat_drop_7: "unat (drop_bit 7 (v :: 'a::len word)) = unat v div 128"
  by (simp only: unat_drop_bit_eq) (simp add: drop_bit_eq_div)

lemma and_0x7f: "(w :: 'a::len word) AND 0x7f = take_bit 7 w"
  by (simp add: take_bit_eq_mask mask_eq_exp_minus_1)

lemma small_take_bit_7: "7 < LENGTH('a) \<Longrightarrow> (v :: 'a::len word) \<le> 0x7f \<Longrightarrow> take_bit 7 v = v"
  by (simp only: word_unat_eq_iff unsigned_take_bit_eq le_0x7f_iff) (simp add: take_bit_nat_eq_self)

lemma encode_vint_steps_eq:
  assumes len: "7 < LENGTH('a)"
  shows "\<not> v \<le> 0x7f \<Longrightarrow> unat (v :: 'a::len word) < 128 ^ Suc n \<Longrightarrow> encode_vint_steps n v = Inr (vint_bytes v)"
proof (induction n arbitrary: v)
  case 0
  then show ?case by (simp add: le_0x7f_iff [OF len])
next
  case (Suc n)
  let ?w = "drop_bit 7 v"
  have bnd: "unat ?w < 128 ^ Suc n"
    using Suc.prems(2) by (simp add: unat_drop_7 less_mult_imp_div_less mult.commute)
  show ?case
  proof (cases "?w \<le> 0x7f")
    case True
    then have "take_bit 7 ?w = ?w" by (rule small_take_bit_7 [OF len])
    then show ?thesis
      using True Suc.prems(1) by (simp add: Let_def and_0x7f vint_bytes.simps [of v] vint_bytes.simps [of ?w])
  next
    case False
    with Suc.IH [OF False bnd] Suc.prems(1) show ?thesis
      by (simp add: Let_def vint_bytes.simps [of v])
  qed
qed

lemma encode_vi32_eq [simp]: "encode_vi32 v = Inr (vint_bytes v)"
proof (cases "v \<le> 0x7f")
  case True
  then show ?thesis
    using small_take_bit_7 [of v] by (simp add: encode_vi32_def and_0x7f vint_bytes.simps [of v])
next
  case False
  have "unat v < 128 ^ Suc 5" using unat_lt2p [of v] by simp
  then show ?thesis using False encode_vint_steps_eq [of v 5] by (simp add: encode_vi32_def)
qed

lemma encode_vi64_eq [simp]: "encode_vi64 v = Inr (vint_bytes v)"
proof (cases "v \<le> 0x7f")
  case True
  then show ?thesis
    using small_take_bit_7 [of v] by (simp add: encode_vi64_def and_0x7f vint_bytes.simps [of v])
next
  case False
  have "unat v < 128 ^ Suc 10" using unat_lt2p [of v] by simp
  then show ?thesis using False encode_vint_steps_eq [of v 10] by (simp add: encode_vi64_def)
qed

lemma vint_bytes_not_Nil [simp]: "vint_bytes v \<noteq> []"
  by (simp add: vint_bytes.simps [of v])

lemma length_vint_bytes_le:
  assumes len: "7 < LENGTH('a)"
  shows "length (vint_bytes (v :: 'a::len word)) \<le> Suc k \<longleftrightarrow> unat v < 128 ^ Suc k"
proof (induction k arbitrary: v)
  case 0
  show ?case by (simp add: vint_bytes.simps [of v] le_0x7f_iff [OF len])
next
  case (Suc k)
  have "unat v div 128 < 128 ^ Suc k \<longleftrightarrow> unat v < 128 ^ Suc (Suc k)"
    by (simp add: div_less_iff_less_mult mult.commute)
  moreover have "unat v < 128 \<Longrightarrow> unat v < 128 ^ Suc (Suc k)"
    by (rule order_less_le_trans, assumption) simp
  ultimately show ?case
    by (cases "v \<le> 0x7f")
      (simp_all add: vint_bytes.simps [of v] le_0x7f_iff [OF len] unat_drop_7 Suc.IH)
qed

lemma length_vint_bytes_pos: "0 < length (vint_bytes v)"
  by simp

lemma vint_threshold:
  assumes "7 < LENGTH('a)" and "Suc (unat (c :: 'a::len word)) = 128 ^ Suc k"
  shows "v \<le> c \<longleftrightarrow> length (vint_bytes v) \<le> Suc k"
  unfolding length_vint_bytes_le [OF assms(1)] assms(2) [symmetric] by (simp add: word_le_nat_alt less_Suc_eq_le)

lemma encoded_length_vi32_eq: "encoded_length_vi32 v = length (vint_bytes v)"
proof -
  have up: "length (vint_bytes v) \<le> 5"
    using length_vint_bytes_le [of v 4] unat_lt2p [of v] by simp
  have thresholds:
    "v \<le> 0x7f \<longleftrightarrow> length (vint_bytes v) \<le> Suc 0"
    "v \<le> 0x3fff \<longleftrightarrow> length (vint_bytes v) \<le> Suc 1"
    "v \<le> 0x1fffff \<longleftrightarrow> length (vint_bytes v) \<le> Suc 2"
    "v \<le> 0xfffffff \<longleftrightarrow> length (vint_bytes v) \<le> Suc 3"
    by (rule vint_threshold; simp)+
  have "1 \<le> length (vint_bytes v)" by (simp add: Suc_leI)
  with up show ?thesis unfolding encoded_length_vi32_def thresholds by auto
qed

lemma encoded_length_vi64_eq: "encoded_length_vi64 v = length (vint_bytes v)"
proof -
  have up: "length (vint_bytes v) \<le> 10"
    using length_vint_bytes_le [of v 9] unat_lt2p [of v] by simp
  have thresholds:
    "v \<le> 0x7f \<longleftrightarrow> length (vint_bytes v) \<le> Suc 0"
    "v \<le> 0x3fff \<longleftrightarrow> length (vint_bytes v) \<le> Suc 1"
    "v \<le> 0x1fffff \<longleftrightarrow> length (vint_bytes v) \<le> Suc 2"
    "v \<le> 0xfffffff \<longleftrightarrow> length (vint_bytes v) \<le> Suc 3"
    "v \<le> 0x7ffffffff \<longleftrightarrow> length (vint_bytes v) \<le> Suc 4"
    "v \<le> 0x3ffffffffff \<longleftrightarrow> length (vint_bytes v) \<le> Suc 5"
    "v \<le> 0x1ffffffffffff \<longleftrightarrow> length (vint_bytes v) \<le> Suc 6"
    "v \<le> 0xffffffffffffff \<longleftrightarrow> length (vint_bytes v) \<le> Suc 7"
    "v \<le> 0x7fffffffffffffff \<longleftrightarrow> length (vint_bytes v) \<le> Suc 8"
    by (rule vint_threshold; simp)+
  have "1 \<le> length (vint_bytes v)" by (simp add: Suc_leI)
  with up show ?thesis unfolding encoded_length_vi64_def thresholds by auto
qed

lemma continuation_byte:
  assumes "7 < LENGTH('a)"
  shows "(ucast ((v :: 'a::len word) OR 0x80) :: byte) AND 0x80 \<noteq> 0"
    and "ucast ((ucast (v OR 0x80) :: byte) AND 0x7f) = take_bit 7 v"
proof -
  have "bit ((ucast (v OR 0x80) :: byte) AND 0x80) 7"
    using assms by (simp add: bit_simps bit_0x80_iff)
  then show "(ucast (v OR 0x80) :: byte) AND 0x80 \<noteq> 0" by auto
  show "ucast ((ucast (v OR 0x80) :: byte) AND 0x7f) = take_bit 7 v"
    unfolding and_0x7f by (rule bit_word_eqI) (auto simp: bit_simps bit_0x80_iff)
qed

lemma final_byte:
  assumes len: "7 < LENGTH('a)" and v: "(v :: 'a::len word) \<le> 0x7f"
  shows "(ucast v :: byte) AND 0x80 = 0" and "ucast ((ucast v :: byte) AND 0x7f) = v"
proof -
  have v7: "take_bit 7 v = v" by (rule small_take_bit_7 [OF len v])
  show "(ucast v :: byte) AND 0x80 = 0"
    by (rule bit_word_eqI, subst v7 [symmetric]) (auto simp: bit_simps bit_0x80_iff)
  show "ucast ((ucast v :: byte) AND 0x7f) = v"
    unfolding and_0x7f by (subst (2) v7 [symmetric], rule bit_word_eqI) (auto simp: bit_simps)
qed

text \<open>Reading back the rest of a variable length integer after a continuation byte.\<close>

lemma word_minus_Suc: "r - 1 - of_nat n = (r :: 'a::len word) - of_nat (Suc n)"
  by (simp add: diff_diff_eq)

lemma need_one: "need r 1 = (if 0 < unat r then Inr (r - 1) else Inl SERIALIZATION_INPUT_OVERRUN)"
  by (auto simp: need_def word_less_nat_alt)

lemma unat_minus_1: "0 < unat (r :: 'a::len word) \<Longrightarrow> unat (r - 1) = unat r - 1"
  using unat_minus_of_nat [of 1 r] by simp

lemma decode_vint_steps_ok:
  assumes len: "7 < LENGTH('a)"
  shows "prev AND 0x80 \<noteq> 0 \<Longrightarrow> length (vint_bytes (w :: 'a::len word)) < n \<Longrightarrow>
    length (vint_bytes w) \<le> unat r \<Longrightarrow>
    decode_vint_steps n s acc prev (vint_bytes w @ rest, r)
      = Inr (acc OR push_bit (s + 7) w, rest, r - of_nat (length (vint_bytes w)))"
proof (induction n arbitrary: w s acc prev r)
  case 0
  then show ?case by simp
next
  case (Suc n)
  have r: "0 < unat r" using Suc.prems(3) by (metis length_vint_bytes_pos less_le_trans)
  show ?case
  proof (cases "w \<le> 0x7f")
    case True
    note fb = final_byte [OF len True]
    obtain m where n: "n = Suc m" using Suc.prems(2) length_vint_bytes_pos [of w] by (cases n) auto
    show ?thesis
      using True Suc.prems(1) r by (simp add: vint_bytes.simps [of w] need_one fb n)
  next
    case False
    let ?v = "drop_bit 7 w" and ?b = "ucast (w OR 0x80) :: byte"
    note cb = continuation_byte [OF len, of w]
    have vb: "vint_bytes w = ?b # vint_bytes ?v" using False by (simp add: vint_bytes.simps [of w])
    have "decode_vint_steps n (s + 7) (acc OR push_bit (s + 7) (take_bit 7 w)) ?b (vint_bytes ?v @ rest, r - 1)
        = Inr ((acc OR push_bit (s + 7) (take_bit 7 w)) OR push_bit (s + 7 + 7) ?v, rest,
            r - 1 - of_nat (length (vint_bytes ?v)))"
      using Suc.prems r by (intro Suc.IH cb) (simp_all add: vb unat_minus_1)
    moreover have "(acc OR push_bit (s + 7) (take_bit 7 w)) OR push_bit (s + 7 + 7) ?v
        = acc OR push_bit (s + 7) w"
      by (simp only: or.assoc or_push_take_drop_bit)
    ultimately show ?thesis
      using Suc.prems(1) r by (simp add: vb need_one cb word_minus_Suc)
  qed
qed

lemma decode_vint_steps_short:
  assumes len: "7 < LENGTH('a)"
  shows "prev AND 0x80 \<noteq> 0 \<Longrightarrow> length (vint_bytes (w :: 'a::len word)) \<le> n \<Longrightarrow>
    unat r < length (vint_bytes w) \<Longrightarrow>
    decode_vint_steps n s (acc :: 'a word) prev (vint_bytes w @ rest, r) = Inl SERIALIZATION_INPUT_OVERRUN"
proof (induction n arbitrary: w s acc prev r)
  case 0
  then show ?case by simp
next
  case (Suc n)
  show ?case
  proof (cases "w \<le> 0x7f")
    case True
    then have "unat r = 0" using Suc.prems(3) by (simp add: vint_bytes.simps [of w])
    then show ?thesis using Suc.prems(1) by (simp add: need_one)
  next
    case False
    let ?v = "drop_bit 7 w" and ?b = "ucast (w OR 0x80) :: byte"
    note cb = continuation_byte [OF len, of w]
    have vb: "vint_bytes w = ?b # vint_bytes ?v" using False by (simp add: vint_bytes.simps [of w])
    show ?thesis
    proof (cases "0 < unat r")
      case True
      have "decode_vint_steps n (s + 7) (acc OR push_bit (s + 7) (take_bit 7 w)) ?b (vint_bytes ?v @ rest, r - 1)
          = Inl SERIALIZATION_INPUT_OVERRUN"
        using Suc.prems True by (intro Suc.IH cb) (simp_all add: vb unat_minus_1)
      then show ?thesis using Suc.prems(1) True by (simp add: vb need_one cb)
    next
      case False
      then show ?thesis using Suc.prems(1) by (simp add: need_one)
    qed
  qed
qed

lemma codec_vint:
  assumes len: "7 < LENGTH('a)" and n: "\<And>w :: 'a::len word. length (vint_bytes w) \<le> n"
  shows "codec (\<lambda>w :: 'a word. Inr (vint_bytes w)) (decode_vint n) (\<lambda>_. True)"
proof
  fix w :: "'a word" and bs and r :: u64 and rest
  assume "Inr (vint_bytes w) = (Inr bs :: bytes result)"
  then have bs: "bs = vint_bytes w" by simp
  show "decode_vint n (bs @ rest, r) = Inr (w, rest, r - of_nat (length bs))" if le: "length bs \<le> unat r"
  proof (cases "w \<le> 0x7f")
    case True
    note fb = final_byte [OF len True]
    obtain m where m: "n = Suc m" using n [of w] length_vint_bytes_pos [of w] by (cases n) auto
    have "0 < unat r" using le bs length_vint_bytes_pos [of w] by (metis less_le_trans)
    then show ?thesis
      using True by (simp add: bs decode_vint_def vint_bytes.simps [of w] need_one fb m)
  next
    case False
    let ?v = "drop_bit 7 w" and ?b = "ucast (w OR 0x80) :: byte"
    note cb = continuation_byte [OF len, of w]
    have vb: "vint_bytes w = ?b # vint_bytes ?v" using False by (simp add: vint_bytes.simps [of w])
    have r: "0 < unat r" using le bs vb by simp
    have "length (vint_bytes ?v) < n" using n [of w] by (simp add: vb)
    then have "decode_vint_steps n 0 (take_bit 7 w) ?b (vint_bytes ?v @ rest, r - 1)
        = Inr (take_bit 7 w OR push_bit (0 + 7) ?v, rest, r - 1 - of_nat (length (vint_bytes ?v)))"
      using le r by (intro decode_vint_steps_ok len cb) (simp_all add: bs vb unat_minus_1)
    then show ?thesis
      by (simp add: bs decode_vint_def vb need_one r cb word_minus_Suc or_take_drop_bit)
  qed
  show "(decode_vint n :: 'a word decoder) (bs @ rest, r) = Inl SERIALIZATION_INPUT_OVERRUN" if lt: "unat r < length bs"
  proof (cases "0 < unat r")
    case True
    let ?v = "drop_bit 7 w" and ?b = "ucast (w OR 0x80) :: byte"
    note cb = continuation_byte [OF len, of w]
    have "\<not> w \<le> 0x7f" using lt True bs by (auto simp: vint_bytes.simps [of w])
    then have vb: "vint_bytes w = ?b # vint_bytes ?v" by (simp add: vint_bytes.simps [of w])
    have "decode_vint_steps n 0 (take_bit 7 w) ?b (vint_bytes ?v @ rest, r - 1)
        = Inl SERIALIZATION_INPUT_OVERRUN"
      using lt True n [of w] by (intro decode_vint_steps_short len cb) (simp_all add: bs vb unat_minus_1)
    then show ?thesis by (simp add: bs decode_vint_def vb need_one True cb)
  next
    case False
    then show ?thesis by (simp add: decode_vint_def need_one)
  qed
qed simp

lemma encode_vint_fun:
  "encode_vi32 = (\<lambda>w. Inr (vint_bytes w))" "encode_vi64 = (\<lambda>w. Inr (vint_bytes w))"
  by (simp_all add: fun_eq_iff)

interpretation vi32: codec encode_vi32 decode_vi32 "\<lambda>_. True"
proof -
  have "length (vint_bytes w) \<le> 5" for w :: u32
    using length_vint_bytes_le [of w 4] unat_lt2p [of w] by simp
  then show "codec encode_vi32 decode_vi32 (\<lambda>_. True)"
    using codec_vint [where 'a = 32 and n = 5] by (simp add: decode_vi32_def encode_vint_fun)
qed

interpretation vi64: codec encode_vi64 decode_vi64 "\<lambda>_. True"
proof -
  have "length (vint_bytes w) \<le> 10" for w :: u64
    using length_vint_bytes_le [of w 9] unat_lt2p [of w] by simp
  then show "codec encode_vi64 decode_vi64 (\<lambda>_. True)"
    using codec_vint [where 'a = 64 and n = 10] by (simp add: decode_vi64_def encode_vint_fun)
qed

lemma checked_vint_steps: "checked_decoder (decode_vint_steps n s v prev)"
proof (induction n arbitrary: s v prev)
  case 0
  show ?case by unfold_locales simp_all
next
  case (Suc n)
  show ?case
  proof
    fix ip :: bytes and r :: u64
    assume le: "unat r \<le> length ip"
    have step: "0 < unat r \<Longrightarrow> \<exists>b ip1. ip = b # ip1 \<and> unat (r - 1) \<le> length ip1"
      using le by (cases ip) (auto simp: unat_minus_1)
    show "decode_vint_steps (Suc n) s v prev (ip, r) \<noteq> Inl UNDEFINED_BEHAVIOUR"
    proof (cases "prev AND 0x80 \<noteq> 0 \<and> 0 < unat r")
      case True
      then obtain b ip1 where ip: "ip = b # ip1" and le1: "unat (r - 1) \<le> length ip1"
        using step by blast
      show ?thesis
        using True checked_decoder.never_undefined [OF Suc.IH le1] by (simp add: ip need_one)
    next
      case False
      then show ?thesis by (auto simp: need_one)
    qed
    fix x ip' r'
    assume eq: "decode_vint_steps (Suc n) s v prev (ip, r) = Inr (x, ip', r')"
    show "\<exists>n \<le> unat r. ip' = drop n ip \<and> r' = r - of_nat n"
    proof (cases "prev AND 0x80 \<noteq> 0")
      case False
      with eq show ?thesis by (intro exI [of _ 0]) simp
    next
      case True
      with eq have r: "0 < unat r" by (auto simp: need_one split: if_splits)
      obtain b ip1 where ip: "ip = b # ip1" and le1: "unat (r - 1) \<le> length ip1"
        using step [OF r] by blast
      obtain k where "k \<le> unat (r - 1)" "ip' = drop k ip1" "r' = r - 1 - of_nat k"
        using eq True r checked_decoder.consumes [OF Suc.IH le1] by (fastforce simp: ip need_one)
      then show ?thesis
        using r by (intro exI [of _ "Suc k"]) (auto simp: ip unat_minus_1 word_minus_Suc)
    qed
  qed
qed

lemma decode_vint_as_bind: "decode_vint n = dbind decode_i8 (\<lambda>b. decode_vint_steps n 0 (ucast (b AND 0x7f)) b)"
proof (rule ext, clarify)
  fix ip :: bytes and r :: u64
  show "decode_vint n (ip, r) = dbind decode_i8 (\<lambda>b. decode_vint_steps n 0 (ucast (b AND 0x7f)) b) (ip, r)"
    by (cases ip) (auto simp: decode_vint_def decode_i8_def dbind_apply need_one)
qed

interpretation vi32: checked_decoder decode_vi32
  unfolding decode_vi32_def decode_vint_as_bind
  by (intro checked_dbind i8.checked_decoder_axioms checked_vint_steps)

interpretation vi64: checked_decoder decode_vi64
  unfolding decode_vi64_def decode_vint_as_bind
  by (intro checked_dbind i8.checked_decoder_axioms checked_vint_steps)

subsection \<open>vstr\<close>

definition vstr_len_ok :: "bytes \<Rightarrow> bool" where
  "vstr_len_ok s \<longleftrightarrow> length s + 1 < 2 ^ 64"

definition valid_cstr :: "cstr \<Rightarrow> bool" where
  "valid_cstr s = (case s of None \<Rightarrow> False | Some s \<Rightarrow> 0 \<notin> set s \<and> vstr_len_ok s)"

lemma encode_vstr_eq: "encode_vstr s = Inr (vint_bytes (of_nat (length s) :: u64) @ s @ [0])"
  by (simp add: encode_vstr_def)

lemma encoded_length_vstr_eq:
  "encode_vstr s = Inr bs \<Longrightarrow> encoded_length_vstr (length s) = length bs"
  by (auto simp: encode_vstr_eq encoded_length_vstr_def encoded_length_vi64_eq)

lemma last_read_append: "last_read (pre @ b # rest) rest = b"
  by (simp add: last_read_def)

lemma unat_vstr_len: "vstr_len_ok s \<Longrightarrow> unat (of_nat (length s) + 1 :: u64) = length s + 1"
proof -
  assume "vstr_len_ok s"
  then have "unat (of_nat (length s + 1) :: u64) = length s + 1"
    unfolding vstr_len_ok_def by (intro unat_of_nat_small) simp
  then show ?thesis by (simp only: of_nat_add of_nat_1)
qed

lemma decode_vstr_ok:
  assumes s: "vstr_len_ok s" and bs: "encode_vstr s = Inr bs" and le: "length bs \<le> unat r"
  shows "decode_vstr (bs @ rest, r) = Inr ((s @ 0 # rest, of_nat (length s)), rest, r - of_nat (length bs))"
proof -
  let ?n = "of_nat (length s) :: u64" and ?v = "vint_bytes (of_nat (length s) :: u64)"
  have bs': "bs = ?v @ s @ [0]" using bs by (simp add: encode_vstr_eq)
  have n: "unat (?n + 1) = length s + 1" using s by (rule unat_vstr_len)
  have "decode_vi64 (?v @ s @ 0 # rest, r) = Inr (?n, s @ 0 # rest, r - of_nat (length ?v))"
    using le by (intro vi64.dec_enc) (simp_all add: bs')
  moreover have "need (r - of_nat (length ?v)) (?n + 1) = Inr (r - of_nat (length ?v) - (?n + 1))"
    using le by (intro need_ok) (simp add: word_le_nat_alt n unat_minus_of_nat bs')
  moreover have "advance (unat (?n + 1)) (s @ 0 # rest) = Inr rest"
    by (simp add: advance_def n)
  moreover have "last_read (?v @ s @ 0 # rest) rest = 0"
    using last_read_append [of "?v @ s"] by simp
  moreover have "r - of_nat (length ?v) - (?n + 1) = r - of_nat (length bs)"
    by (simp add: bs' diff_diff_eq add.assoc)
  ultimately show ?thesis
    by (simp add: decode_vstr_def bs' Let_def)
qed

lemma decode_vstr_short:
  assumes s: "vstr_len_ok s" and bs: "encode_vstr s = Inr bs" and lt: "unat r < length bs"
  shows "decode_vstr (bs @ rest, r) = Inl SERIALIZATION_INPUT_OVERRUN"
proof -
  let ?n = "of_nat (length s) :: u64" and ?v = "vint_bytes (of_nat (length s) :: u64)"
  have bs': "bs = ?v @ s @ [0]" using bs by (simp add: encode_vstr_eq)
  have n: "unat (?n + 1) = length s + 1" using s by (rule unat_vstr_len)
  show ?thesis
  proof (cases "length ?v \<le> unat r")
    case True
    then have "decode_vi64 (?v @ s @ 0 # rest, r) = Inr (?n, s @ 0 # rest, r - of_nat (length ?v))"
      by (intro vi64.dec_enc) simp_all
    moreover have "need (r - of_nat (length ?v)) (?n + 1) = Inl SERIALIZATION_INPUT_OVERRUN"
      using lt True by (intro need_short) (simp add: word_less_nat_alt n unat_minus_of_nat bs')
    ultimately show ?thesis by (simp add: decode_vstr_def bs' Let_def)
  next
    case False
    then have "decode_vi64 (?v @ s @ 0 # rest, r) = Inl SERIALIZATION_INPUT_OVERRUN"
      by (intro vi64.dec_short) simp_all
    then show ?thesis by (simp add: decode_vstr_def bs')
  qed
qed

lemma cstr_at_append: "0 \<notin> set s \<Longrightarrow> cstr_at (s @ 0 # rest) = s"
  by (induction s) (auto simp: cstr_at_def)

interpretation vstr: codec encode_vstr decode_vstr_string vstr_len_ok
proof
  fix s bs r rest
  assume s: "vstr_len_ok s" and bs: "encode_vstr s = Inr bs"
  have "unat (of_nat (length s) :: u64) = length s"
    using s by (intro unat_of_nat_small) (simp add: vstr_len_ok_def)
  then show "decode_vstr_string (bs @ rest, r) = Inr (s, rest, r - of_nat (length bs))"
    if "length bs \<le> unat r"
    using decode_vstr_ok [OF s bs that] by (simp add: decode_vstr_string_def dbind_apply)
  show "decode_vstr_string (bs @ rest, r) = Inl SERIALIZATION_INPUT_OVERRUN" if "unat r < length bs"
    using decode_vstr_short [OF s bs that] by (simp add: decode_vstr_string_def dbind_apply)
qed (simp add: encode_vstr_eq)

interpretation cstr: codec encode_vstr_cstr decode_vstr_cstr valid_cstr
proof
  fix c bs r rest
  assume c: "valid_cstr c" and bs: "encode_vstr_cstr c = Inr bs"
  obtain s where s: "c = Some s" "0 \<notin> set s" "vstr_len_ok s" "encode_vstr s = Inr bs"
    using c bs by (cases c) (auto simp: valid_cstr_def encode_vstr_cstr_def)
  show "decode_vstr_cstr (bs @ rest, r) = Inr (c, rest, r - of_nat (length bs))"
    if "length bs \<le> unat r"
    using decode_vstr_ok [OF s(3,4) that] by (simp add: decode_vstr_cstr_def dbind_apply s cstr_at_append)
  show "decode_vstr_cstr (bs @ rest, r) = Inl SERIALIZATION_INPUT_OVERRUN" if "unat r < length bs"
    using decode_vstr_short [OF s(3,4) that] by (simp add: decode_vstr_cstr_def dbind_apply)
qed (auto simp: valid_cstr_def encode_vstr_cstr_def encode_vstr_eq split: option.splits)

interpretation vstr: checked_decoder decode_vstr
proof
  fix ip :: bytes and r :: u64
  assume le: "unat r \<le> length ip"
  note vi = vi64.checked_decoder_axioms
  have fits: "unat (tmp + 1) \<le> length ip1"
    if "decode_vi64 (ip, r) = Inr (tmp, ip1, r1)" and "need r1 (tmp + 1) = Inr r2" for tmp ip1 r1 r2
  proof -
    have "unat (tmp + 1) \<le> unat r1" using that(2) by (simp add: need_def word_le_nat_alt not_less split: if_splits)
    then show ?thesis using vi64.cursor_kept [OF le that(1)] by linarith
  qed
  show "decode_vstr (ip, r) \<noteq> Inl UNDEFINED_BEHAVIOUR"
    using vi64.never_undefined [OF le] fits
    by (fastforce simp: decode_vstr_def rbind_eq_Inl_iff Let_def advance_def need_def split: if_splits)
  fix x ip' r'
  assume "decode_vstr (ip, r) = Inr (x, ip', r')"
  then obtain tmp ip1 r1 where s: "decode_vi64 (ip, r) = Inr (tmp, ip1, r1)"
    and n: "need r1 (tmp + 1) = Inr r'" and a: "advance (unat (tmp + 1)) ip1 = Inr ip'"
    by (auto simp: decode_vstr_def rbind_eq_Inr_iff Let_def split: if_splits)
  obtain k where k: "k \<le> unat r" "ip1 = drop k ip" "r1 = r - of_nat k"
    using vi64.consumes [OF le s] by blast
  let ?t = "unat (tmp + 1)"
  have "?t \<le> unat r1" and r': "r' = r1 - (tmp + 1)"
    using n by (auto simp: need_def word_le_nat_alt not_less split: if_splits)
  then have "k + ?t \<le> unat r" using k by (simp add: unat_minus_of_nat)
  moreover have "ip' = drop (k + ?t) ip"
    using a k by (auto simp: advance_def add.commute split: if_splits)
  moreover have "r' = r - of_nat (k + ?t)"
    using r' k by (simp add: diff_diff_eq)
  ultimately show "\<exists>n \<le> unat r. ip' = drop n ip \<and> r' = r - of_nat n" by blast
qed

lemma checked_vstr_cstr: "checked_decoder decode_vstr_cstr"
  unfolding decode_vstr_cstr_def
  by (rule checked_dbind [OF vstr.checked_decoder_axioms]) (simp add: checked_dret split: prod.splits)

lemma checked_vstr_string: "checked_decoder decode_vstr_string"
  unfolding decode_vstr_string_def
  by (rule checked_dbind [OF vstr.checked_decoder_axioms]) (simp add: checked_dret split: prod.splits)

lemma decode_vint_steps_errors:
  "decode_vint_steps n s v prev c = Inl e \<Longrightarrow>
    e \<in> {SERIALIZATION_INPUT_OVERRUN, SERIALIZATION_BAD_VINT, UNDEFINED_BEHAVIOUR}"
proof (induction n arbitrary: s v prev c)
  case (Suc n)
  obtain ip r where c: "c = (ip, r)" by (cases c) auto
  show ?case
    using Suc.prems Suc.IH by (cases ip) (fastforce simp: c need_def split: if_splits)+
qed simp

lemma decode_vstr_errors:
  "decode_vstr (ip, r) = Inl e \<Longrightarrow>
    e \<in> {SERIALIZATION_INPUT_OVERRUN, SERIALIZATION_BAD_VINT, SERIALIZATION_BAD_VSTR, UNDEFINED_BEHAVIOUR}"
  by (cases ip)
    (auto simp: decode_vstr_def rbind_eq_Inl_iff Let_def need_def advance_def decode_vi64_def decode_vint_def
      dest!: decode_vint_steps_errors split: if_splits)

subsection \<open>Properties\<close>



text \<open>vstr round trip. A C string without zero bytes is written in exactly the announced number of
  bytes; the decoder returns it and stops behind its terminator, and every truncation of the
  message is rejected with an input overrun.\<close>

lemma vstr_roundtrip:
  assumes "0 \<notin> set s" and "length s + 1 < 2 ^ 64"
  shows "\<exists>bs. encode_vstr_cstr (Some s) = Inr bs
    \<and> length bs = encoded_length_vstr_cstr (Some s)
    \<and> (\<forall>rest r. decode_vstr_cstr (bs @ rest, r) =
         (if length bs \<le> unat r then Inr (Some s, rest, r - of_nat (length bs))
          else Inl SERIALIZATION_INPUT_OVERRUN))"
proof -
  have v: "valid_cstr (Some s)" using assms by (simp add: valid_cstr_def vstr_len_ok_def)
  obtain bs where bs: "encode_vstr_cstr (Some s) = Inr bs" using cstr.enc_total [OF v] by blast
  show ?thesis
    using bs cstr.dec_enc [OF v bs] cstr.dec_short [OF v bs]
    by (auto simp: encoded_length_vstr_cstr_def encode_vstr_cstr_def dest: encoded_length_vstr_eq)
qed

text \<open>C33. Memory safety of decoding. Started with a counter that does not exceed the bytes in the
  buffer, the vstr decoder never reads outside it, on any input, including the length \<^verbatim>\<open>2^64 - 1\<close>
  whose increment wraps; and on success the counter again does not exceed the bytes left.\<close>

theorem vstr_decode_safe:
  assumes "unat r \<le> length ip"
  shows "case decode_vstr (ip, r) of
      Inl e \<Rightarrow> e \<in> {SERIALIZATION_INPUT_OVERRUN, SERIALIZATION_BAD_VINT, SERIALIZATION_BAD_VSTR}
    | Inr (x, ip', r') \<Rightarrow> unat r' \<le> length ip' \<and> length ip - length ip' = unat r - unat r'"
proof (cases "decode_vstr (ip, r)")
  case (Inl e)
  then show ?thesis
    using decode_vstr_errors [OF Inl] vstr.never_undefined [OF assms] by auto
next
  case (Inr s)
  then obtain x ip' r' where s: "s = (x, ip', r')" by (cases s) auto
  obtain n where "n \<le> unat r" "ip' = drop n ip" "r' = r - of_nat n"
    using vstr.consumes [OF assms] Inr s by blast
  then show ?thesis using assms by (simp add: Inr s unat_minus_of_nat)
qed

theorem vstr_decode_safe_witness:
  "case decode_vstr (replicate 9 0xff @ [1, 0], 11) of
      Inl e \<Rightarrow> e \<in> {SERIALIZATION_INPUT_OVERRUN, SERIALIZATION_BAD_VINT, SERIALIZATION_BAD_VSTR}
    | Inr (x, ip', r') \<Rightarrow> unat r' \<le> length ip' \<and> length (replicate 9 0xff @ [1, 0 :: byte]) - length ip' = unat (11 :: u64) - unat r'"
  using vstr_decode_safe [of 11 "replicate 9 0xff @ [1, 0]"] by simp

text \<open>C36. bytes32 keeps the wrong count. Decoding a byte array returns it and moves the pointer behind
  it, but the counter loses the length twice: \<^verbatim>\<open>HT_DECODE_NEED\<close> subtracts it and
  \<^verbatim>\<open>HT_DECODE_BYTES32\<close> subtracts it again. So a decoder that reads another field after the array is
  told that fewer bytes remain than there are, or, when the subtraction wraps, far more.\<close>

theorem bytes32_double_subtraction:
  assumes "length d < 2 ^ 32" and "length d + 4 \<le> unat r"
  shows "decode_bytes32 (encode_bytes32 d @ rest, r)
    = Inr ((d @ rest, of_nat (length d)), rest, r - of_nat (length (encode_bytes32 d)) - of_nat (length d))"
proof -
  let ?n = "of_nat (length d) :: u32"
  have n: "unat ?n = length d" using assms(1) by (intro unat_of_nat_small) simp
  have u: "ucast ?n = (of_nat (length d) :: u64)" by (metis n of_nat_unat)
  have n64: "unat (of_nat (length d) :: u64) = length d"
    using assms(1) by (intro unat_of_nat_small) simp
  have "decode_i32 (encode_i32 ?n @ d @ rest, r) = Inr (?n, d @ rest, r - 4)"
    using i32.dec_enc [of ?n "encode_i32 ?n" r "d @ rest"] assms(2) by simp
  moreover have "need (r - 4) (ucast ?n) = Inr (r - 4 - of_nat (length d))"
    using assms(2) unat_minus_of_nat [of 4 r] by (intro need_ok [THEN trans]) (simp_all add: u word_le_nat_alt n64)
  ultimately show ?thesis
    by (simp add: decode_bytes32_def encode_bytes32_def dbind_apply Let_def u n diff_diff_eq add.assoc)
qed

theorem bytes32_double_subtraction_witness:
  "decode_bytes32 (encode_bytes32 [1, 2, 3] @ encode_i32 9, 11) = Inr (([1, 2, 3] @ encode_i32 9, 3), encode_i32 9, 1)
    \<and> decode_i32 (encode_i32 9, 1) = Inl SERIALIZATION_INPUT_OVERRUN"
  using bytes32_double_subtraction [of "[1, 2, 3]" 11 "encode_i32 9"]
  by (simp add: encode_bytes32_def decode_i32_def need_def)

text \<open>str16 is decoded without a bounds check. Whatever the counter says, as long as it covers the
  two length bytes, decoding succeeds and subtracts the whole string from it; a string longer than
  the counter leaves a counter near \<^verbatim>\<open>2^64\<close>, larger than the bytes really left.\<close>

lemma str16_unchecked:
  assumes "length s < 2 ^ 16" and "2 \<le> unat r"
  shows "decode_str16 (encode_str16 s (of_nat (length s)) @ rest, r)
    = Inr ((s @ 0 # rest, of_nat (length s)), rest, r - of_nat (length s + 3))"
proof -
  let ?n = "of_nat (length s) :: u16"
  have n: "unat ?n = length s" using assms(1) by (intro unat_of_nat_small) simp
  have u: "ucast ?n = (of_nat (length s) :: u64)" by (metis n of_nat_unat)
  have "decode_i16 (encode_i16 ?n @ s @ 0 # rest, r) = Inr (?n, s @ 0 # rest, r - 2)"
    using i16.dec_enc [of ?n "encode_i16 ?n" r "s @ 0 # rest"] assms(2) by simp
  then show ?thesis
    by (simp add: decode_str16_def encode_str16_def dbind_apply Let_def u n advance_def diff_diff_eq)
qed

end
