(* ===== verification/Checksum.thy ===== *)
theory Checksum
  imports Prelude
begin

text \<open>
  Checksums (\<^verbatim>\<open>Common/Checksum.cc\<close>): \<open>fletcher32\<close>, \<open>fletcher32a\<close> and the two versions of \<open>adler32\<close>, with
  32-bit sums that wrap, the unrolled inner loops and the delayed reductions of the code. The locale
  \<open>delayed_reduction\<close> is the argument all of them rest on: a batch of at most \<open>limit\<close> items cannot
  overflow the sums, so reducing once per batch agrees with reducing after every item. It is
  interpreted for each checksum, which gives the equivalence with the textbook definitions.
  \<open>crc32\<close> only calls zlib and is not modelled.
\<close>

section \<open>The routines\<close>

type_synonym sums = "u32 \<times> u32"

subsection \<open>Loops the routines share\<close>

text \<open>\<^verbatim>\<open>if (tlen >= 16) do { DO16(data, 0); data += 16 * w; tlen -= 16; } while (tlen >= 16);\<close>, where an
  item is \<open>w\<close> bytes.\<close>

fun do16_loop :: "nat \<Rightarrow> (bytes \<Rightarrow> nat \<Rightarrow> sums \<Rightarrow> sums) \<Rightarrow> nat \<Rightarrow> bytes \<Rightarrow> sums \<Rightarrow> nat \<times> bytes \<times> sums" where
  "do16_loop w do16 tlen data s =
     (if 16 \<le> tlen then do16_loop w do16 (tlen - 16) (drop (16 * w) data) (do16 data 0 s)
      else (tlen, data, s))"

text \<open>\<^verbatim>\<open>if (tlen != 0) do { DO1(data, 0); data += w; } while (--tlen);\<close>\<close>

fun do1_loop :: "nat \<Rightarrow> (bytes \<Rightarrow> nat \<Rightarrow> sums \<Rightarrow> sums) \<Rightarrow> nat \<Rightarrow> bytes \<Rightarrow> sums \<Rightarrow> bytes \<times> sums" where
  "do1_loop w do1 0 data s = (data, s)"
| "do1_loop w do1 (Suc tlen) data s = do1_loop w do1 tlen (drop w data) (do1 data 0 s)"

definition unrolled :: "nat \<Rightarrow> (bytes \<Rightarrow> nat \<Rightarrow> sums \<Rightarrow> sums) \<Rightarrow> (bytes \<Rightarrow> nat \<Rightarrow> sums \<Rightarrow> sums)
    \<Rightarrow> nat \<Rightarrow> bytes \<Rightarrow> sums \<Rightarrow> bytes \<times> sums" where
  "unrolled w do16 do1 tlen data s =
     (let (tlen, data, s) = do16_loop w do16 tlen data s in do1_loop w do1 tlen data s)"

text \<open>\<^verbatim>\<open>while (len) { tlen = len > limit ? limit : len; len -= tlen; ...; reduce both sums }\<close>. The
  batch size is positive in every routine; for 0 the function stops.\<close>

function batch_loop :: "nat \<Rightarrow> (nat \<Rightarrow> bytes \<Rightarrow> sums \<Rightarrow> bytes \<times> sums) \<Rightarrow> (sums \<Rightarrow> sums)
    \<Rightarrow> nat \<Rightarrow> bytes \<Rightarrow> sums \<Rightarrow> bytes \<times> sums" where
  "batch_loop limit body reduce len data s =
     (if len = 0 \<or> limit = 0 then (data, s)
      else let tlen = (if limit < len then limit else len);
               (data, s) = body tlen data s
           in batch_loop limit body reduce (len - tlen) data (reduce s))"
  by pat_completeness auto
termination by (relation "measure (\<lambda>(_, _, _, len, _, _). len)") auto

declare do16_loop.simps [simp del] batch_loop.simps [simp del]

subsection \<open>fletcher32\<close>

text \<open>\<^verbatim>\<open>(sum & 0xffff) + (sum >> 16)\<close>\<close>

definition f32_reduce :: "u32 \<Rightarrow> u32" where
  "f32_reduce s = (s AND 0xffff) + drop_bit 16 s"

definition f32_do1 :: "bytes \<Rightarrow> nat \<Rightarrow> sums \<Rightarrow> sums" where
  "f32_do1 buf i = (\<lambda>(sum1, sum2).
     let sum1 = sum1 + (push_bit 8 (ucast (buf ! i)) OR ucast (buf ! (i + 1))) in (sum1, sum2 + sum1))"

definition f32_do2 :: "bytes \<Rightarrow> nat \<Rightarrow> sums \<Rightarrow> sums" where
  "f32_do2 buf i s = f32_do1 buf (i + 2) (f32_do1 buf i s)"

definition f32_do4 :: "bytes \<Rightarrow> nat \<Rightarrow> sums \<Rightarrow> sums" where
  "f32_do4 buf i s = f32_do2 buf (i + 4) (f32_do2 buf i s)"

definition f32_do8 :: "bytes \<Rightarrow> nat \<Rightarrow> sums \<Rightarrow> sums" where
  "f32_do8 buf i s = f32_do4 buf (i + 8) (f32_do4 buf i s)"

definition f32_do16 :: "bytes \<Rightarrow> nat \<Rightarrow> sums \<Rightarrow> sums" where
  "f32_do16 buf i s = f32_do8 buf (i + 16) (f32_do8 buf i s)"

text \<open>\<open>data8\<close> is exactly the \<open>len8\<close> bytes the caller passes.\<close>

definition fletcher32 :: "bytes \<Rightarrow> u32" where
  "fletcher32 data8 =
     (let len8 = length data8;
          (data, sum1, sum2) = batch_loop 360 (unrolled 2 f32_do16 f32_do1) (map_prod f32_reduce f32_reduce)
             (len8 div 2) data8 (0xffff, 0xffff);
          (sum1, sum2) =
            (if odd len8 then
               let sum1 = sum1 + push_bit 8 (ucast (data ! 0)); sum2 = sum2 + sum1
               in (f32_reduce sum1, f32_reduce sum2)
             else (sum1, sum2));
          sum1 = f32_reduce sum1; sum2 = f32_reduce sum2
      in push_bit 16 sum2 OR sum1)"

text \<open>\<open>fletcher32a\<close> reads 16-bit words in host order and applies \<^verbatim>\<open>ntohs\<close>, which is the big-endian value
  of the two bytes; \<open>i\<close> counts words. Its \<open>len\<close> counts words as well.\<close>

definition f32a_do1 :: "bytes \<Rightarrow> nat \<Rightarrow> sums \<Rightarrow> sums" where
  "f32a_do1 buf i = (\<lambda>(sum1, sum2).
     let sum1 = sum1 + (push_bit 8 (ucast (buf ! (2 * i))) OR ucast (buf ! (2 * i + 1))) in (sum1, sum2 + sum1))"

definition f32a_do2 :: "bytes \<Rightarrow> nat \<Rightarrow> sums \<Rightarrow> sums" where
  "f32a_do2 buf i s = f32a_do1 buf (i + 1) (f32a_do1 buf i s)"

definition f32a_do4 :: "bytes \<Rightarrow> nat \<Rightarrow> sums \<Rightarrow> sums" where
  "f32a_do4 buf i s = f32a_do2 buf (i + 2) (f32a_do2 buf i s)"

definition f32a_do8 :: "bytes \<Rightarrow> nat \<Rightarrow> sums \<Rightarrow> sums" where
  "f32a_do8 buf i s = f32a_do4 buf (i + 4) (f32a_do4 buf i s)"

definition f32a_do16 :: "bytes \<Rightarrow> nat \<Rightarrow> sums \<Rightarrow> sums" where
  "f32a_do16 buf i s = f32a_do8 buf (i + 8) (f32a_do8 buf i s)"

definition fletcher32a :: "bytes \<Rightarrow> nat \<Rightarrow> u32" where
  "fletcher32a data len =
     (let (data, sum1, sum2) = batch_loop 360 (unrolled 2 f32a_do16 f32a_do1) (map_prod f32_reduce f32_reduce)
             len data (0xffff, 0xffff);
          sum1 = f32_reduce sum1; sum2 = f32_reduce sum2
      in push_bit 16 sum2 OR sum1)"

subsection \<open>adler32\<close>

definition MOD_ADLER :: u32 where
  "MOD_ADLER = 65521"

definition a32_do1 :: "bytes \<Rightarrow> nat \<Rightarrow> sums \<Rightarrow> sums" where
  "a32_do1 buf i = (\<lambda>(a, b). let a = a + ucast (buf ! i) in (a, b + a))"

definition a32_do2 :: "bytes \<Rightarrow> nat \<Rightarrow> sums \<Rightarrow> sums" where
  "a32_do2 buf i s = a32_do1 buf (i + 1) (a32_do1 buf i s)"

definition a32_do4 :: "bytes \<Rightarrow> nat \<Rightarrow> sums \<Rightarrow> sums" where
  "a32_do4 buf i s = a32_do2 buf (i + 2) (a32_do2 buf i s)"

definition a32_do8 :: "bytes \<Rightarrow> nat \<Rightarrow> sums \<Rightarrow> sums" where
  "a32_do8 buf i s = a32_do4 buf (i + 4) (a32_do4 buf i s)"

definition a32_do16 :: "bytes \<Rightarrow> nat \<Rightarrow> sums \<Rightarrow> sums" where
  "a32_do16 buf i s = a32_do8 buf (i + 8) (a32_do8 buf i s)"

definition adler32_update :: "u32 \<Rightarrow> bytes \<Rightarrow> u32" where
  "adler32_update adler data8 =
     (let (_, a, b) = batch_loop 5552 (unrolled 1 a32_do16 a32_do1) (map_prod (\<lambda>a. a mod MOD_ADLER) (\<lambda>b. b mod MOD_ADLER))
             (length data8) data8 (adler AND 0xffff, drop_bit 16 adler AND 0xffff)
      in push_bit 16 b OR a)"

definition adler32 :: "bytes \<Rightarrow> u32" where
  "adler32 data = adler32_update 1 data"

text \<open>The version without divisions.\<close>

definition adler_wp_reduce :: "u32 \<Rightarrow> u32" where
  "adler_wp_reduce s = (s AND 0xffff) + drop_bit 16 s * (65536 - MOD_ADLER)"

definition adler32_update_wp :: "u32 \<Rightarrow> bytes \<Rightarrow> u32" where
  "adler32_update_wp adler data8 =
     (let (_, a, b) = batch_loop 5550 (do1_loop 1 a32_do1) (map_prod adler_wp_reduce adler_wp_reduce)
             (length data8) data8 (adler AND 0xffff, drop_bit 16 adler AND 0xffff);
          a = (if MOD_ADLER \<le> a then a - MOD_ADLER else a);
          b = adler_wp_reduce b;
          b = (if MOD_ADLER \<le> b then b - MOD_ADLER else b)
      in push_bit 16 b OR a)"

definition adler32_wp :: "bytes \<Rightarrow> u32" where
  "adler32_wp data = adler32_update_wp 1 data"

section \<open>Delayed reduction\<close>

subsection \<open>The sums of a batch\<close>

fun sum_step :: "sums \<Rightarrow> u32 \<Rightarrow> sums" where
  "sum_step (a, b) x = (a + x, b + (a + x))"

text \<open>The same sums without wrap-around, and the textbook sums that reduce after every item.\<close>

fun nat_sums :: "nat \<times> nat \<Rightarrow> nat list \<Rightarrow> nat \<times> nat" where
  "nat_sums (a, b) [] = (a, b)"
| "nat_sums (a, b) (x # xs) = nat_sums (a + x, b + (a + x)) xs"

fun mod_sums :: "nat \<Rightarrow> nat \<times> nat \<Rightarrow> nat list \<Rightarrow> nat \<times> nat" where
  "mod_sums m (a, b) [] = (a, b)"
| "mod_sums m (a, b) (x # xs) = mod_sums m ((a + x) mod m, (b + (a + x)) mod m) xs"

lemma mod_add_inner: "(b + (a mod m + x)) mod m = (b + (a + x)) mod (m :: nat)"
  by (intro mod_add_cong) (simp_all add: mod_add_left_eq)

lemma mod_sums_nat_sums:
  "mod_sums m (a mod m, b mod m) xs = map_prod (\<lambda>x. x mod m) (\<lambda>x. x mod m) (nat_sums (a, b) xs)"
proof (induction xs arbitrary: a b)
  case (Cons x xs)
  show ?case using Cons [of "a + x" "b + (a + x)"] by (simp add: mod_add_left_eq mod_add_inner)
qed simp

lemma mod_sums_Nil [simp]: "mod_sums m s [] = s"
  by (cases s) simp

lemma mod_sums_append: "mod_sums m s (xs @ ys) = mod_sums m (mod_sums m s xs) ys"
  by (induction m s xs rule: mod_sums.induct) auto

fun tri :: "nat \<Rightarrow> nat" where
  "tri 0 = 0"
| "tri (Suc n) = Suc n + tri n"

lemma tri_eq: "tri n = n * (n + 1) div 2"
  by (induction n) auto

lemma tri_mono: "m \<le> n \<Longrightarrow> tri m \<le> tri n"
  by (induction n) (auto simp: le_Suc_eq)

lemma nat_sums_bounds:
  assumes "\<forall>x\<in>set xs. x \<le> item"
  shows "fst (nat_sums (a, b) xs) \<le> a + length xs * item"
    and "snd (nat_sums (a, b) xs) \<le> b + length xs * a + item * tri (length xs)"
    and "a \<le> fst (nat_sums (a, b) xs)" and "b \<le> snd (nat_sums (a, b) xs)"
  using assms
proof (induction xs arbitrary: a b)
  case (Cons x xs)
  { case 1 with Cons(1) [where a = "a + x" and b = "b + (a + x)"] show ?case by simp }
  { case 2
    then have x: "x \<le> item" and "length xs * x \<le> length xs * item" by auto
    moreover have "snd (nat_sums (a, b) (x # xs))
        \<le> b + (a + x) + length xs * (a + x) + item * tri (length xs)"
      using 2 Cons(2) [where a = "a + x" and b = "b + (a + x)"] by simp
    moreover have "length xs * (a + x) = length xs * a + length xs * x"
      and "item * tri (length (x # xs)) = item + length xs * item + item * tri (length xs)"
      and "length (x # xs) * a = a + length xs * a"
      by (simp_all add: algebra_simps)
    ultimately show ?case by linarith }
  { case 3 with Cons(3) [where a = "a + x" and b = "b + (a + x)"] show ?case by simp }
  { case 4 with Cons(4) [where a = "a + x" and b = "b + (a + x)"] show ?case by simp }
qed simp_all

lemma unat_add_small: "unat a + unat b < 2 ^ LENGTH('a) \<Longrightarrow> unat (a + b :: 'a::len word) = unat a + unat b"
  by (simp add: unat_word_ariths)

lemma sum_step_nat_sums:
  assumes "fst (nat_sums (unat a, unat b) (map unat xs)) < 2 ^ 32"
    and "snd (nat_sums (unat a, unat b) (map unat xs)) < 2 ^ 32"
  shows "map_prod unat unat (foldl sum_step (a, b) xs) = nat_sums (unat a, unat b) (map unat xs)"
  using assms
proof (induction xs arbitrary: a b)
  case (Cons x xs)
  let ?s = "nat_sums (unat a + unat x, unat b + (unat a + unat x)) (map unat xs)"
  have "unat a + unat x \<le> fst ?s" "unat b + (unat a + unat x) \<le> snd ?s"
    using nat_sums_bounds(3,4) [of "map unat xs" "Max (set (map unat xs))"] by auto
  with Cons.prems have "unat (a + x) = unat a + unat x" "unat (b + (a + x)) = unat b + (unat a + unat x)"
    by (simp_all add: unat_add_small)
  with Cons show ?case by simp
qed simp

subsection \<open>The items of a buffer\<close>

text \<open>The first \<open>n\<close> items of a buffer, each read by \<open>it\<close> at the start of its \<open>w\<close> bytes.\<close>

definition chunk :: "nat \<Rightarrow> (bytes \<Rightarrow> u32) \<Rightarrow> nat \<Rightarrow> bytes \<Rightarrow> u32 list" where
  "chunk w it n data = map (\<lambda>k. it (drop (w * k) data)) [0..<n]"

lemma chunk_0 [simp]: "chunk w it 0 data = []"
  by (simp add: chunk_def)

lemma length_chunk [simp]: "length (chunk w it n data) = n"
  by (simp add: chunk_def)

lemma chunk_add: "chunk w it (m + n) data = chunk w it m data @ chunk w it n (drop (w * m) data)"
proof -
  have "map f [m..<m + n] = map (\<lambda>k. f (k + m)) [0..<n]" for f :: "nat \<Rightarrow> u32"
    by (induction n) (auto simp: add.commute)
  then show ?thesis by (simp add: chunk_def upt_add_eq_append [of 0] algebra_simps)
qed

lemma chunk_Suc: "chunk w it (Suc n) data = it data # chunk w it n (drop w data)"
  using chunk_add [of w it 1 n data] by (simp add: chunk_def)

text \<open>The macros \<^verbatim>\<open>DO2\<close> to \<^verbatim>\<open>DO16\<close> each run the previous one twice, \<open>e\<close> positions apart; an index is \<open>c\<close> bytes.\<close>

definition sums_at :: "nat \<Rightarrow> nat \<Rightarrow> (bytes \<Rightarrow> u32) \<Rightarrow> nat \<Rightarrow> (bytes \<Rightarrow> nat \<Rightarrow> sums \<Rightarrow> sums) \<Rightarrow> bool" where
  "sums_at c w it n f \<longleftrightarrow> (\<forall>buf i s. c * i + w * n \<le> length buf \<longrightarrow>
     f buf i s = foldl sum_step s (chunk w it n (drop (c * i) buf)))"

lemma sums_atD:
  "sums_at c w it n f \<Longrightarrow> c * i + w * n \<le> length buf \<Longrightarrow>
     f buf i s = foldl sum_step s (chunk w it n (drop (c * i) buf))"
  unfolding sums_at_def by blast

lemma sums_at_double:
  assumes f: "sums_at c w it n f" and g: "\<And>buf i s. g buf i s = f buf (i + e) (f buf i s)" and e: "c * e = w * n"
  shows "sums_at c w it (n + n) g"
  unfolding sums_at_def
proof (intro allI impI)
  fix buf :: bytes and i and s :: sums
  assume "c * i + w * (n + n) \<le> length buf"
  then have "c * i + w * n \<le> length buf" "c * (i + e) + w * n \<le> length buf"
    by (simp_all add: distrib_left e)
  then show "g buf i s = foldl sum_step s (chunk w it (n + n) (drop (c * i) buf))"
    by (simp add: g sums_atD [OF f] chunk_add distrib_left e add.commute)
qed

text \<open>What an inner loop of a routine does.\<close>

definition sums_items :: "nat \<Rightarrow> (bytes \<Rightarrow> u32) \<Rightarrow> (nat \<Rightarrow> bytes \<Rightarrow> sums \<Rightarrow> bytes \<times> sums) \<Rightarrow> bool" where
  "sums_items w it body \<longleftrightarrow> (\<forall>n data s. w * n \<le> length data \<longrightarrow>
     body n data s = (drop (w * n) data, foldl sum_step s (chunk w it n data)))"

lemma do1_loop_sums:
  assumes "\<And>data s. w \<le> length data \<Longrightarrow> do1 data 0 s = sum_step s (it data)"
  shows "sums_items w it (do1_loop w do1)"
  unfolding sums_items_def
proof (intro allI impI)
  fix n and data :: bytes and s :: sums
  assume "w * n \<le> length data"
  then show "do1_loop w do1 n data s = (drop (w * n) data, foldl sum_step s (chunk w it n data))"
    by (induction n arbitrary: data s) (simp_all add: chunk_Suc assms algebra_simps)
qed

lemma unrolled_sums:
  assumes "sums_at c w it 1 do1" and "sums_at c w it 16 do16"
  shows "sums_items w it (unrolled w do16 do1)"
  unfolding sums_items_def
proof (intro allI impI)
  have do1: "\<And>data s. w \<le> length data \<Longrightarrow> do1 data 0 s = sum_step s (it data)"
    using sums_atD [OF assms(1), of 0] by (simp add: chunk_Suc)
  have do16: "\<And>data s. 16 * w \<le> length data \<Longrightarrow> do16 data 0 s = foldl sum_step s (chunk w it 16 data)"
    using sums_atD [OF assms(2), of 0] by (simp add: mult.commute)
  fix n and data :: bytes and s :: sums
  assume "w * n \<le> length data"
  then show "unrolled w do16 do1 n data s = (drop (w * n) data, foldl sum_step s (chunk w it n data))"
  proof (induction n arbitrary: data s rule: less_induct)
    case (less n)
    show ?case
    proof (cases "16 \<le> n")
      case True
      then obtain k where n: "n = 16 + k" by (metis le_iff_add)
      with less.prems have l: "16 * w \<le> length data" "w * k \<le> length (drop (16 * w) data)"
        by (simp_all add: algebra_simps)
      have "unrolled w do16 do1 n data s = unrolled w do16 do1 k (drop (16 * w) data) (do16 data 0 s)"
        unfolding unrolled_def by (subst do16_loop.simps) (simp add: n)
      moreover have "w * n = w * k + 16 * w" by (simp add: n distrib_left)
      ultimately show ?thesis
        using less.IH [of k "drop (16 * w) data"] l n by (simp add: do16 chunk_add [of w it 16 k] mult.commute)
    next
      case False
      then have "unrolled w do16 do1 n data s = do1_loop w do1 n data s"
        unfolding unrolled_def by (subst do16_loop.simps) simp
      with less.prems show ?thesis
        using do1_loop_sums [of w do1 it, OF do1] unfolding sums_items_def by simp
    qed
  qed
qed


subsection \<open>Reducing once per batch\<close>

locale delayed_reduction =
  fixes red_a red_b :: "u32 \<Rightarrow> u32" and m limit item low bound_a bound_b :: nat
  assumes limit_pos: "0 < limit"
    and no_overflow: "bound_b + limit * bound_a + item * tri limit < 2 ^ 32"
    and red_a: "unat s \<le> bound_a + limit * item \<Longrightarrow>
      unat (red_a s) mod m = unat s mod m \<and> unat (red_a s) \<le> bound_a"
    and red_b: "unat (red_b s) mod m = unat s mod m \<and> unat (red_b s) \<le> bound_b"
    and red_low: "low \<le> unat s \<Longrightarrow> low \<le> unat (red_a s) \<and> low \<le> unat (red_b s)"
begin

definition in_bounds :: "sums \<Rightarrow> bool" where
  "in_bounds s \<longleftrightarrow> unat (fst s) \<le> bound_a \<and> unat (snd s) \<le> bound_b \<and> low \<le> unat (fst s) \<and> low \<le> unat (snd s)"

definition residue :: "sums \<Rightarrow> nat \<times> nat" where
  "residue s = (unat (fst s) mod m, unat (snd s) mod m)"

lemma batch:
  assumes s: "in_bounds s" and items: "\<forall>x\<in>set xs. unat x \<le> item" and len: "length xs \<le> limit"
  shows "in_bounds (map_prod red_a red_b (foldl sum_step s xs))"
    and "residue (map_prod red_a red_b (foldl sum_step s xs)) = mod_sums m (residue s) (map unat xs)"
proof -
  obtain a b where ab: "s = (a, b)" by (cases s)
  let ?n = "nat_sums (unat a, unat b) (map unat xs)"
  note bnd = nat_sums_bounds [of "map unat xs" item "unat a" "unat b"]
  have a: "unat a \<le> bound_a" and b: "unat b \<le> bound_b" using s by (simp_all add: in_bounds_def ab)
  have "fst ?n \<le> unat a + length xs * item" using bnd(1) items by simp
  also have "\<dots> \<le> bound_a + limit * item" using a len by (intro add_mono mult_le_mono) simp_all
  finally have fst_le: "fst ?n \<le> bound_a + limit * item" .
  have "snd ?n \<le> unat b + length xs * unat a + item * tri (length xs)" using bnd(2) items by simp
  also have "\<dots> \<le> bound_b + limit * bound_a + item * tri limit"
    using a b len by (intro add_mono mult_le_mono tri_mono) simp_all
  finally have snd_lt: "snd ?n < 2 ^ 32" using no_overflow by linarith
  have "limit \<le> tri limit" by (induction limit) simp_all
  then have "bound_a + limit * item \<le> limit * bound_a + item * tri limit"
    using limit_pos by (simp add: add_mono mult.commute [of limit item])
  then have fst_lt: "fst ?n < 2 ^ 32" using fst_le no_overflow by linarith
  obtain a' b' where f: "foldl sum_step (a, b) xs = (a', b')" by (cases "foldl sum_step (a, b) xs")
  have n: "?n = (unat a', unat b')"
    using sum_step_nat_sums [OF fst_lt snd_lt] f by (simp add: ab)
  have "low \<le> unat a'" "low \<le> unat b'"
    using bnd(3) nat_sums_bounds(4) [where xs = "map unat xs" and item = item and a = "unat a" and b = "unat b"] items s n
    by (auto simp: in_bounds_def ab)
  then show "in_bounds (map_prod red_a red_b (foldl sum_step s xs))"
    using red_a [of a'] red_b [of b'] red_low [of a'] red_low [of b'] fst_le n by (simp add: f ab in_bounds_def)
  show "residue (map_prod red_a red_b (foldl sum_step s xs)) = mod_sums m (residue s) (map unat xs)"
    using red_a [of a'] red_b [of b'] fst_le n by (simp add: f residue_def mod_sums_nat_sums ab)
qed

lemma batch_loop:
  assumes body: "sums_items w it body" and items: "\<And>d. unat (it d) \<le> item"
    and "in_bounds s" and "w * len \<le> length data"
    and "batch_loop limit body (map_prod red_a red_b) len data s = (data', s')"
  shows "data' = drop (w * len) data \<and> in_bounds s'
    \<and> (len = 0 \<or> residue s' = mod_sums m (residue s) (map unat (chunk w it len data))) \<and> (len = 0 \<longrightarrow> s' = s)"
  using assms(3-5)
proof (induction len arbitrary: data s rule: less_induct)
  case (less len)
  show ?case
  proof (cases "len = 0")
    case True
    with less.prems show ?thesis by (simp add: batch_loop.simps)
  next
    case False
    define t where "t = (if limit < len then limit else len)"
    define r where "r = map_prod red_a red_b (foldl sum_step s (chunk w it t data))"
    have t: "t \<le> limit" "0 < t" "t \<le> len" using limit_pos False by (auto simp: t_def)
    have len: "chunk w it len data = chunk w it t data @ chunk w it (len - t) (drop (w * t) data)"
      using chunk_add [of w it t "len - t" data] t by simp
    have wt: "w * t + w * (len - t) = w * len" using t by (metis distrib_left le_add_diff_inverse)
    then have "w * t \<le> length data" using less.prems(2) by linarith
    then have "body t data s = (drop (w * t) data, foldl sum_step s (chunk w it t data))"
      using body unfolding sums_items_def by blast
    then have rec: "batch_loop limit body (map_prod red_a red_b) (len - t) (drop (w * t) data) r = (data', s')"
      using less.prems(3) False limit_pos
      by (subst (asm) batch_loop.simps) (simp add: t_def [symmetric] r_def Let_def)
    have r: "in_bounds r" "residue r = mod_sums m (residue s) (map unat (chunk w it t data))"
      unfolding r_def using less.prems(1) t items by (intro batch; auto simp: chunk_def)+
    show ?thesis
      using less.IH [OF _ r(1) _ rec] less.prems(2) wt t r
      by (cases "len = t") (simp_all add: len mod_sums_append add.commute)
  qed
qed

end


section \<open>The routines compute the textbook checksums\<close>

subsection \<open>Words\<close>

lemma unat_and_mask16: "unat (s AND 0xffff :: u32) = unat s mod 2 ^ 16"
proof -
  have "s AND 0xffff = take_bit 16 s" using take_bit_eq_mask [of 16 s] by (simp add: mask_eq_exp_minus_1)
  then have "unat (s AND 0xffff) = take_bit 16 (unat s)" by (simp only: unsigned_take_bit_eq)
  then show ?thesis by (simp only: take_bit_eq_mod)
qed

lemma unat_drop16: "unat (drop_bit 16 s :: u32) = unat s div 2 ^ 16"
  by (simp only: unat_drop_bit_eq) (simp add: drop_bit_eq_div)

lemma unat_ucast_byte: "unat (ucast (x :: byte) :: u32) = unat x"
  using unat_lt2p [of x] unat_of_nat_small [of "unat x", where 'a = 32] by simp

lemma unat_pair_le: "unat (push_bit 8 (ucast (x :: byte)) OR ucast (y :: byte) :: u32) = 256 * unat x + unat y"
proof -
  have "(push_bit 8 (ucast x) AND ucast y :: u32) = 0"
    by (rule bit_word_eqI) (auto simp: bit_simps dest: bit_imp_le_length)
  then have "push_bit 8 (ucast x) OR ucast y = (push_bit 8 (ucast x) + ucast y :: u32)"
    by (simp only: disjunctive_add_eq_or)
  moreover have "unat (push_bit 8 (ucast x) :: u32) = 256 * unat x"
    using unat_lt2p [of x] by (simp add: push_bit_eq_mult unat_word_ariths unat_ucast_byte)
  ultimately show ?thesis
    using unat_lt2p [of x] unat_lt2p [of y] by (simp add: unat_add_small unat_ucast_byte)
qed

lemma join_halves:
  assumes "unat (a :: u32) < 2 ^ 16" and "unat (b :: u32) < 2 ^ 16"
  shows "push_bit 16 b OR a = of_nat (unat b * 2 ^ 16 + unat a)"
proof -
  have "unat (take_bit 16 a) = unat a"
    using assms(1) by (simp only: unsigned_take_bit_eq take_bit_nat_eq_self)
  then have "take_bit 16 a = a" by (simp only: word_unat_eq_iff)
  then have a: "n < 16" if "bit a n" for n
    using that by (metis bit_take_bit_iff)
  then have "push_bit 16 b AND a = 0"
    by (intro bit_word_eqI) (auto simp: bit_simps dest: a)
  then have "push_bit 16 b OR a = push_bit 16 b + a"
    by (simp only: disjunctive_add_eq_or)
  then show ?thesis by (simp add: push_bit_eq_mult mult.commute)
qed

subsection \<open>fletcher32\<close>

lemma unat_f32_reduce: "unat (f32_reduce s) = unat s mod 65536 + unat s div 65536"
proof -
  have "unat s div 65536 < 65536" using unat_lt2p [of s] by (simp add: div_less_iff_less_mult)
  moreover have "unat s mod 65536 < 65536" by simp
  ultimately show ?thesis
    unfolding f32_reduce_def by (subst unat_add_small) (simp_all add: unat_and_mask16 unat_drop16 del: drop_bit_numeral_bit0)
qed

lemma f32_reduce_mod: "unat (f32_reduce s) mod 65535 = unat s mod 65535"
proof -
  have "unat s = 65536 * (unat s div 65536) + unat s mod 65536" by simp
  then have "unat s = unat s div 65536 * 65535 + unat (f32_reduce s)" unfolding unat_f32_reduce by linarith
  then show ?thesis by (metis mod_mult_self3)
qed

lemma f32_reduce_pos: "1 \<le> unat s \<Longrightarrow> 1 \<le> unat (f32_reduce s)"
  unfolding unat_f32_reduce by (cases "unat s < 65536") (auto simp: Suc_le_eq div_greater_zero_iff)

interpretation f32: delayed_reduction f32_reduce f32_reduce 65535 360 65535 1 65896 131070
proof
  show "131070 + 360 * 65896 + 65535 * tri 360 < 2 ^ 32" by (simp add: tri_eq)
  fix s :: u32
  have d: "unat s div 65536 < 65536" using unat_lt2p [of s] by (simp add: div_less_iff_less_mult)
  have r: "unat s mod 65536 < 65536" by simp
  show "unat (f32_reduce s) mod 65535 = unat s mod 65535 \<and> unat (f32_reduce s) \<le> 131070"
    using d r f32_reduce_mod by (simp add: unat_f32_reduce)
  assume "unat s \<le> 65896 + 360 * 65535"
  then have "unat s div 65536 \<le> 361" by (simp add: div_le_mono [of _ 23658496 65536, simplified])
  then show "unat (f32_reduce s) mod 65535 = unat s mod 65535 \<and> unat (f32_reduce s) \<le> 65896"
    using r f32_reduce_mod by (simp add: unat_f32_reduce)
qed (use f32_reduce_pos in simp_all)

text \<open>The value at the end of the code: the residue, with 65535 in place of 0.\<close>

definition f32_norm :: "nat \<Rightarrow> nat" where
  "f32_norm x = (if x mod 65535 = 0 then 65535 else x mod 65535)"

lemma f32_reduce_final:
  assumes "1 \<le> unat s" and "unat s \<le> 131070"
  shows "unat (f32_reduce s) = f32_norm (unat s)"
proof -
  consider "unat s < 65535" | "unat s = 65535" | "unat s = 65536 + (unat s - 65536)" "unat s - 65536 < 65535"
    using assms by linarith
  then show ?thesis
  proof cases
    case 3
    then obtain k where k: "unat s = 65536 + k" "k < 65535" by blast
    then have "(65536 + k) div 65536 = 1" "(65536 + k) mod 65536 = k" by simp_all
    moreover have "(65536 + k) mod 65535 = (if k = 65534 then 0 else k + 1)" using k by (simp add: mod_if)
    ultimately show ?thesis using k by (simp add: unat_f32_reduce f32_norm_def)
  qed (use assms in \<open>simp_all add: unat_f32_reduce f32_norm_def\<close>)
qed

lemma f32_norm_mod: "x mod 65535 = y mod 65535 \<Longrightarrow> f32_norm x = f32_norm y"
  by (simp add: f32_norm_def)

lemma f32_norm_less: "f32_norm x < 2 ^ 16"
  using mod_less_divisor [of 65535 x] by (auto simp: f32_norm_def)

text \<open>The 16-bit big-endian words of a buffer, a last single byte padded with 0.\<close>

fun be_words :: "bytes \<Rightarrow> nat list" where
  "be_words (x # y # r) = (256 * unat x + unat y) # be_words r"
| "be_words [x] = [256 * unat x]"
| "be_words [] = []"

definition f32_item :: "bytes \<Rightarrow> u32" where
  "f32_item d = (push_bit 8 (ucast (d ! 0)) OR ucast (d ! 1))"

lemma f32_item_le: "unat (f32_item d) \<le> 65535"
  using unat_lt2p [of "d ! 0"] unat_lt2p [of "d ! 1"] by (simp add: f32_item_def unat_pair_le)

lemma f32_macros:
  "sums_at 1 2 f32_item 1 f32_do1" "sums_at 1 2 f32_item 16 f32_do16"
proof -
  show 1: "sums_at 1 2 f32_item 1 f32_do1"
    by (auto simp: sums_at_def f32_do1_def f32_item_def chunk_def Let_def)
  have 2: "sums_at 1 2 f32_item 2 f32_do2"
    using sums_at_double [OF 1, of f32_do2 2] by (simp add: f32_do2_def numeral_2_eq_2)
  have 4: "sums_at 1 2 f32_item 4 f32_do4"
    using sums_at_double [OF 2, of f32_do4 4] by (simp add: f32_do4_def)
  have 8: "sums_at 1 2 f32_item 8 f32_do8"
    using sums_at_double [OF 4, of f32_do8 8] by (simp add: f32_do8_def)
  show "sums_at 1 2 f32_item 16 f32_do16"
    using sums_at_double [OF 8, of f32_do16 16] by (simp add: f32_do16_def)
qed

lemmas f32_body = unrolled_sums [OF f32_macros]

lemma f32a_macros:
  "sums_at 2 2 f32_item 1 f32a_do1" "sums_at 2 2 f32_item 16 f32a_do16"
proof -
  show 1: "sums_at 2 2 f32_item 1 f32a_do1"
    by (auto simp: sums_at_def f32a_do1_def f32_item_def chunk_def Let_def)
  have 2: "sums_at 2 2 f32_item 2 f32a_do2"
    using sums_at_double [OF 1, of f32a_do2 1] by (simp add: f32a_do2_def numeral_2_eq_2)
  have 4: "sums_at 2 2 f32_item 4 f32a_do4"
    using sums_at_double [OF 2, of f32a_do4 2] by (simp add: f32a_do4_def)
  have 8: "sums_at 2 2 f32_item 8 f32a_do8"
    using sums_at_double [OF 4, of f32a_do8 4] by (simp add: f32a_do8_def)
  show "sums_at 2 2 f32_item 16 f32a_do16"
    using sums_at_double [OF 8, of f32a_do16 8] by (simp add: f32a_do16_def)
qed

lemmas f32a_body = unrolled_sums [OF f32a_macros]

lemma be_words_eq_chunk:
  "map unat (chunk 2 f32_item n data) @ be_words (drop (2 * n) data) = be_words data" if "2 * n \<le> length data"
  using that
proof (induction n arbitrary: data)
  case (Suc n)
  then obtain x y r where d: "data = x # y # r" by (cases data rule: be_words.cases) auto
  then show ?case using Suc by (simp add: chunk_Suc f32_item_def unat_pair_le)
qed simp

text \<open>The state of either routine after its loop over \<open>n\<close> words.\<close>

lemma f32_loop:
  assumes "body = unrolled 2 f32_do16 f32_do1 \<or> body = unrolled 2 f32a_do16 f32a_do1" and "2 * n \<le> length data"
    and "batch_loop 360 body (map_prod f32_reduce f32_reduce) n data (0xffff, 0xffff) = (data', s1, s2)"
  shows "data' = drop (2 * n) data"
    and "1 \<le> unat s1 \<and> unat s1 \<le> 65896 \<and> 1 \<le> unat s2 \<and> unat s2 \<le> 131070"
    and "(unat s1 mod 65535, unat s2 mod 65535) = mod_sums 65535 (0, 0) (map unat (chunk 2 f32_item n data))"
proof -
  have "f32.in_bounds (0xffff, 0xffff)" "f32.residue (0xffff, 0xffff) = (0, 0)"
    unfolding f32.in_bounds_def f32.residue_def by simp_all
  moreover have "sums_items 2 f32_item body" using assms(1) f32_body f32a_body by auto
  ultimately have "data' = drop (2 * n) data \<and> f32.in_bounds (s1, s2)
      \<and> f32.residue (s1, s2) = mod_sums 65535 (0, 0) (map unat (chunk 2 f32_item n data))"
    using f32.batch_loop [of 2 f32_item body "(0xffff, 0xffff)" n data data' "(s1, s2)"] f32_item_le assms(2,3)
    by (cases "n = 0") auto
  then show "data' = drop (2 * n) data"
    and "1 \<le> unat s1 \<and> unat s1 \<le> 65896 \<and> 1 \<le> unat s2 \<and> unat s2 \<le> 131070"
    and "(unat s1 mod 65535, unat s2 mod 65535) = mod_sums 65535 (0, 0) (map unat (chunk 2 f32_item n data))"
    unfolding f32.in_bounds_def f32.residue_def by simp_all
qed

lemma f32_halves:
  assumes "1 \<le> unat s1" "unat s1 \<le> 131070" "1 \<le> unat s2" "unat s2 \<le> 131070"
  shows "push_bit 16 (f32_reduce s2) OR f32_reduce s1 = of_nat (f32_norm (unat s2) * 2 ^ 16 + f32_norm (unat s1))"
  using assms by (subst join_halves) (simp_all add: f32_reduce_final f32_norm_less [simplified])

text \<open>The textbook checksum: both sums modulo 65535 over the 16-bit words, 0 written as 65535.\<close>

definition fletcher32_ref :: "nat list \<Rightarrow> u32" where
  "fletcher32_ref ws = (let (s1, s2) = mod_sums 65535 (0, 0) ws in of_nat (f32_norm s2 * 2 ^ 16 + f32_norm s1))"

lemma fletcher32_refI:
  assumes "(unat s1 mod 65535, unat s2 mod 65535) = mod_sums 65535 (0, 0) ws"
    and "1 \<le> unat s1" "unat s1 \<le> 131070" "1 \<le> unat s2" "unat s2 \<le> 131070"
  shows "push_bit 16 (f32_reduce s2) OR f32_reduce s1 = fletcher32_ref ws"
proof -
  have "f32_norm (unat s mod 65535) = f32_norm (unat s)" for s :: u32 by (rule f32_norm_mod) simp
  then show ?thesis
    using f32_halves [OF assms(2-5)] assms(1) [symmetric] by (simp add: fletcher32_ref_def)
qed

lemma fletcher32_eq_ref: "fletcher32 data = fletcher32_ref (be_words data)"
proof -
  let ?n = "length data div 2"
  obtain d s1 s2 where loop: "batch_loop 360 (unrolled 2 f32_do16 f32_do1) (map_prod f32_reduce f32_reduce)
      ?n data (0xffff, 0xffff) = (d, s1, s2)" by (metis prod.exhaust)
  note l = f32_loop [OF disjI1, OF refl _ loop]
  have n: "2 * ?n \<le> length data" by simp
  note w = be_words_eq_chunk [OF n]
  show ?thesis
  proof (cases "odd (length data)")
    case False
    then have "be_words data = map unat (chunk 2 f32_item ?n data)" using w by simp
    with l False show ?thesis
      by (simp add: fletcher32_def Let_def loop fletcher32_refI)
  next
    case True
    then have "length (drop (2 * ?n) data) = 1" by (simp add: odd_two_times_div_two_nat) presburger
    then obtain x where x: "drop (2 * ?n) data = [x]" by (cases "drop (2 * ?n) data") auto
    define t1 where "t1 = s1 + push_bit 8 (ucast x)"
    have x': "unat (push_bit 8 (ucast x) :: u32) = 256 * unat x" "unat x < 256"
      using unat_pair_le [of x 0] unat_lt2p [of x] by simp_all
    then have t1: "unat t1 = unat s1 + 256 * unat x" using l(2) by (simp add: t1_def unat_add_small)
    then have t2: "unat (s2 + t1) = unat s2 + (unat s1 + 256 * unat x)" using l(2) x' by (simp add: unat_add_small)
    have "be_words data = map unat (chunk 2 f32_item ?n data) @ [256 * unat x]" using w x by simp
    then have "(unat t1 mod 65535, unat (s2 + t1) mod 65535) = mod_sums 65535 (0, 0) (be_words data)"
      using l(3) by (simp add: mod_sums_append t1 t2 mod_simps mod_add_inner flip: l(3))
    moreover have "1 \<le> unat t1" "1 \<le> unat (s2 + t1)" using l(2) t1 t2 by simp_all
    ultimately have "push_bit 16 (f32_reduce (f32_reduce (s2 + t1))) OR f32_reduce (f32_reduce t1)
        = fletcher32_ref (be_words data)"
      using f32.red_b by (intro fletcher32_refI) (simp_all only: f32_reduce_mod f32_reduce_pos)
    moreover have "d ! 0 = x" using l(1) n x by simp
    ultimately show ?thesis
      using True by (simp add: fletcher32_def Let_def loop t1_def)
  qed
qed

lemma fletcher32a_eq_ref:
  assumes "2 * len \<le> length data"
  shows "fletcher32a data len = fletcher32_ref (be_words (take (2 * len) data))"
proof -
  obtain d s1 s2 where loop: "batch_loop 360 (unrolled 2 f32a_do16 f32a_do1) (map_prod f32_reduce f32_reduce)
      len data (0xffff, 0xffff) = (d, s1, s2)" by (metis prod.exhaust)
  have "chunk 2 f32_item len (take (2 * len) data) = chunk 2 f32_item len data"
    using assms by (auto simp: chunk_def f32_item_def)
  then have "be_words (take (2 * len) data) = map unat (chunk 2 f32_item len data)"
    using be_words_eq_chunk [of len "take (2 * len) data"] assms by simp
  then show ?thesis
    using f32_loop [OF disjI2, OF refl assms loop]
    by (simp add: fletcher32a_def Let_def loop fletcher32_refI)
qed


subsection \<open>adler32\<close>

definition a32_item :: "bytes \<Rightarrow> u32" where
  "a32_item d = ucast (d ! 0)"

lemma a32_item_le: "unat (a32_item d) \<le> 255"
  using unat_lt2p [of "d ! 0"] by (simp add: a32_item_def unat_ucast_byte)

lemma a32_macros:
  "sums_at 1 1 a32_item 1 a32_do1" "sums_at 1 1 a32_item 16 a32_do16"
proof -
  show 1: "sums_at 1 1 a32_item 1 a32_do1"
    by (auto simp: sums_at_def a32_do1_def a32_item_def chunk_def Let_def)
  have 2: "sums_at 1 1 a32_item 2 a32_do2"
    using sums_at_double [OF 1, of a32_do2 1] by (simp add: a32_do2_def numeral_2_eq_2)
  have 4: "sums_at 1 1 a32_item 4 a32_do4"
    using sums_at_double [OF 2, of a32_do4 2] by (simp add: a32_do4_def)
  have 8: "sums_at 1 1 a32_item 8 a32_do8"
    using sums_at_double [OF 4, of a32_do8 4] by (simp add: a32_do8_def)
  show "sums_at 1 1 a32_item 16 a32_do16"
    using sums_at_double [OF 8, of a32_do16 8] by (simp add: a32_do16_def)
qed

lemmas a32_body = unrolled_sums [OF a32_macros]

lemma a32_wp_body: "sums_items 1 a32_item (do1_loop 1 a32_do1)"
  using sums_atD [OF a32_macros(1), of 0] by (intro do1_loop_sums) (simp add: chunk_Suc)

lemma chunk_bytes: "map unat (chunk 1 a32_item (length data) data) = map unat data"
  by (induction data) (simp_all add: chunk_Suc a32_item_def unat_ucast_byte)

lemma unat_MOD_ADLER [simp]: "unat MOD_ADLER = 65521"
  by (simp add: MOD_ADLER_def)

interpretation a32: delayed_reduction "\<lambda>a. a mod MOD_ADLER" "\<lambda>b. b mod MOD_ADLER" 65521 5552 255 0 65520 65520
proof
  show "65520 + 5552 * 65520 + 255 * tri 5552 < 2 ^ 32" by (simp add: tri_eq)
  have "unat (s mod MOD_ADLER) mod 65521 = unat s mod 65521 \<and> unat (s mod MOD_ADLER) \<le> 65520" for s
    using mod_less_divisor [of 65521 "unat s"] by (simp add: unat_mod_distrib less_imp_le)
  then show "unat (s mod MOD_ADLER) mod 65521 = unat s mod 65521 \<and> unat (s mod MOD_ADLER) \<le> 65520"
    and "unat (s mod MOD_ADLER) mod 65521 = unat s mod 65521 \<and> unat (s mod MOD_ADLER) \<le> 65520" for s
    by blast+
qed simp_all

lemma unat_adler_wp_reduce: "unat (adler_wp_reduce s) = unat s mod 65536 + unat s div 65536 * 15"
proof -
  have "unat s div 65536 < 65536" using unat_lt2p [of s] by (simp add: div_less_iff_less_mult)
  moreover have "unat s mod 65536 < 65536" by simp
  moreover have "unat (drop_bit 16 s * (65536 - MOD_ADLER)) = unat s div 65536 * 15"
    using calculation(1) unfolding MOD_ADLER_def unat_word_ariths(2) unat_drop16 by simp
  ultimately show ?thesis
    unfolding adler_wp_reduce_def by (subst unat_add_small) (simp_all only: unat_and_mask16, simp_all)
qed

lemma adler_wp_reduce_mod: "unat (adler_wp_reduce s) mod 65521 = unat s mod 65521"
proof -
  have "unat s = 65536 * (unat s div 65536) + unat s mod 65536" by simp
  then have "unat s = unat s div 65536 * 65521 + unat (adler_wp_reduce s)" unfolding unat_adler_wp_reduce by linarith
  then show ?thesis by (metis mod_mult_self3)
qed

text \<open>The bounds are the ones the comments of the code give: \<^verbatim>\<open>0x1013a\<close> for \<open>a\<close>; for \<open>b\<close> we use \<^verbatim>\<open>0xffff0\<close>,
  the bound of a single reduction of a 32-bit sum.\<close>

interpretation a32_wp: delayed_reduction adler_wp_reduce adler_wp_reduce 65521 5550 255 0 "0x1013a" "0xffff0"
proof
  show "0xffff0 + 5550 * 0x1013a + 255 * tri 5550 < 2 ^ 32" by (simp add: tri_eq)
  fix s :: u32
  have d: "unat s div 65536 < 65536" using unat_lt2p [of s] by (simp add: div_less_iff_less_mult)
  have r: "unat s mod 65536 < 65536" by simp
  show "unat (adler_wp_reduce s) mod 65521 = unat s mod 65521 \<and> unat (adler_wp_reduce s) \<le> 0xffff0"
    using d r adler_wp_reduce_mod by (simp add: unat_adler_wp_reduce)
  assume "unat s \<le> 0x1013a + 5550 * 255"
  then have "unat s div 65536 \<le> 22" by (simp add: div_le_mono [of _ 1481100 65536, simplified])
  then have "unat (adler_wp_reduce s) \<le> 0x1013a"
    using r \<open>unat s \<le> 0x1013a + 5550 * 255\<close> div_mult_mod_eq [of "unat s" 65536]
    unfolding unat_adler_wp_reduce by (cases "unat s div 65536 = 22") simp_all
  then show "unat (adler_wp_reduce s) mod 65521 = unat s mod 65521 \<and> unat (adler_wp_reduce s) \<le> 0x1013a"
    using adler_wp_reduce_mod by simp
qed simp_all


text \<open>The two halves of a checksum, and the checksums that both halves keep below the modulus.\<close>

definition adler_halves :: "u32 \<Rightarrow> nat \<times> nat" where
  "adler_halves adler = (unat adler mod 2 ^ 16, unat adler div 2 ^ 16)"

definition valid_adler :: "u32 \<Rightarrow> bool" where
  "valid_adler adler \<longleftrightarrow> fst (adler_halves adler) < 65521 \<and> snd (adler_halves adler) < 65521"

definition adler32_ref :: "nat \<times> nat \<Rightarrow> nat list \<Rightarrow> u32" where
  "adler32_ref ab xs = (let (a, b) = mod_sums 65521 ab xs in of_nat (b * 2 ^ 16 + a))"

lemma unat_halves:
  "unat (adler AND 0xffff :: u32) = fst (adler_halves adler)"
  "unat (drop_bit 16 adler AND 0xffff :: u32) = snd (adler_halves adler)"
proof -
  have "unat adler div 2 ^ 16 < 2 ^ 16" using unat_lt2p [of adler] by (simp add: div_less_iff_less_mult)
  then show "unat (drop_bit 16 adler AND 0xffff :: u32) = snd (adler_halves adler)"
    by (simp only: unat_and_mask16 unat_drop16 adler_halves_def snd_conv mod_less)
qed (simp only: unat_and_mask16 adler_halves_def fst_conv)

lemma mod_sums_less:
  "a < m \<Longrightarrow> b < m \<Longrightarrow> fst (mod_sums m (a, b) xs) < m \<and> snd (mod_sums m (a, b) xs) < m"
  by (induction xs arbitrary: a b) simp_all

lemma adler_halves_ref:
  assumes "fst ab < 65521" and "snd ab < 65521"
  shows "adler_halves (adler32_ref ab xs) = mod_sums 65521 ab xs"
proof -
  obtain a b where ab: "mod_sums 65521 ab xs = (a, b)" by (metis prod.exhaust)
  then have "a < 65521" "b < 65521"
    using mod_sums_less [of "fst ab" 65521 "snd ab" xs] assms by auto
  moreover from this have "unat (of_nat (b * 2 ^ 16 + a) :: u32) = b * 2 ^ 16 + a"
    by (intro unat_of_nat_small) simp
  ultimately show ?thesis by (simp add: adler32_ref_def ab adler_halves_def)
qed

lemma adler32_update_eq_ref:
  assumes "valid_adler adler"
  shows "adler32_update adler data = adler32_ref (adler_halves adler) (map unat data)"
proof -
  let ?s = "(adler AND 0xffff, drop_bit 16 adler AND 0xffff)"
  obtain d a b where loop: "batch_loop 5552 (unrolled 1 a32_do16 a32_do1)
      (map_prod (\<lambda>a. a mod MOD_ADLER) (\<lambda>b. b mod MOD_ADLER)) (length data) data ?s = (d, a, b)" by (metis prod.exhaust)
  have "a32.in_bounds ?s" "a32.residue ?s = adler_halves adler"
    using assms unfolding a32.in_bounds_def a32.residue_def valid_adler_def fst_conv snd_conv unat_halves(2)
    unfolding unat_halves(1) by simp_all
  then have "a32.in_bounds (a, b) \<and> a32.residue (a, b) = mod_sums 65521 (adler_halves adler) (map unat data)"
    using a32.batch_loop [OF a32_body a32_item_le _ _ loop] chunk_bytes [of data]
    by (cases "data = []") auto
  then have ab: "unat a < 65521" "unat b < 65521"
    "(unat a mod 65521, unat b mod 65521) = mod_sums 65521 (adler_halves adler) (map unat data)"
    unfolding a32.in_bounds_def a32.residue_def by (elim conjE, simp)+
  then show ?thesis
    unfolding adler32_update_def loop by (simp add: adler32_ref_def join_halves flip: ab(3))
qed

lemma adler32_update_wp_eq_ref:
  assumes "valid_adler adler"
  shows "adler32_update_wp adler data = adler32_ref (adler_halves adler) (map unat data)"
proof -
  let ?s = "(adler AND 0xffff, drop_bit 16 adler AND 0xffff)"
  let ?final = "\<lambda>c. if MOD_ADLER \<le> c then c - MOD_ADLER else c"
  obtain d a b where loop: "batch_loop 5550 (do1_loop 1 a32_do1)
      (map_prod adler_wp_reduce adler_wp_reduce) (length data) data ?s = (d, a, b)" by (metis prod.exhaust)
  have "a32_wp.in_bounds ?s" "a32_wp.residue ?s = adler_halves adler"
    using assms unfolding a32_wp.in_bounds_def a32_wp.residue_def valid_adler_def fst_conv snd_conv unat_halves(2)
    unfolding unat_halves(1) by simp_all
  then have "a32_wp.in_bounds (a, b) \<and> a32_wp.residue (a, b) = mod_sums 65521 (adler_halves adler) (map unat data)"
    using a32_wp.batch_loop [OF a32_wp_body a32_item_le _ _ loop] chunk_bytes [of data]
    by (cases "data = []") auto
  then have ab: "unat a \<le> 0x1013a" "unat b \<le> 0xffff0"
    "(unat a mod 65521, unat b mod 65521) = mod_sums 65521 (adler_halves adler) (map unat data)"
    unfolding a32_wp.in_bounds_def a32_wp.residue_def by simp_all
  have fin: "unat (?final c) = unat c mod 65521" if "unat c < 2 * 65521" for c
    using that by (simp add: word_le_nat_alt unat_sub mod_if)
  have "unat b div 65536 \<le> 15" using ab(2) by (simp add: div_le_mono [of _ 1048560 65536, simplified])
  moreover have "unat b mod 65536 < 65536" by simp
  ultimately have "unat (adler_wp_reduce b) < 2 * 65521" unfolding unat_adler_wp_reduce by linarith
  then have "unat (?final a) = unat a mod 65521" "unat (?final (adler_wp_reduce b)) = unat b mod 65521"
    using ab(1) by (simp_all add: fin adler_wp_reduce_mod)
  moreover have "x mod 65521 < 2 ^ 16" for x :: nat
    using mod_less_divisor [of 65521 x] by simp
  ultimately have "push_bit 16 (?final (adler_wp_reduce b)) OR ?final a
      = of_nat (unat b mod 65521 * 2 ^ 16 + unat a mod 65521)"
    by (subst join_halves) (simp_all only:)
  then show ?thesis
    by (simp only: adler32_update_wp_def loop adler32_ref_def Let_def split flip: ab(3))
qed


section \<open>Properties\<close>

text \<open>C37. \<open>fletcher32\<close> is the Fletcher checksum. For a buffer of any length, the code with its unrolled
  loops, its sums of 32 bits that are reduced only every 360 words and its two final reductions
  returns exactly the textbook checksum: the sum of the 16-bit words and the sum of the partial sums,
  both modulo 65535; no intermediate sum overflows, which is what the bound 360 is for. On
  a buffer of whole words \<open>fletcher32a\<close>, with the length in words, gives the same result.\<close>

theorem fletcher32_correct:
  "fletcher32 data = fletcher32_ref (be_words data)
   \<and> (length data = 2 * len \<longrightarrow> fletcher32a data len = fletcher32 data)"
  by (simp add: fletcher32_eq_ref fletcher32a_eq_ref)

theorem fletcher32_correct_witness:
  "fletcher32 [1, 2, 3, 4] = 0x05080406 \<and> fletcher32a [1, 2, 3, 4] 2 = 0x05080406"
  using fletcher32_correct [of "[1, 2, 3, 4]" 2]
  by (simp add: fletcher32_ref_def f32_norm_def)

text \<open>C38. \<open>adler32\<close> is the Adler checksum and can be computed in pieces. Both versions, the one that
  divides every 5552 bytes and the one that reduces by shifts every 5550 bytes, continue a valid
  checksum exactly as the textbook definition does (sums modulo 65521 after every byte); in
  particular the checksum of a concatenation is the update of the first part's checksum by the
  second part.\<close>

theorem adler32_correct:
  assumes "valid_adler adler"
  shows "adler32_update adler data = adler32_ref (adler_halves adler) (map unat data)
    \<and> adler32_update_wp adler data = adler32_update adler data
    \<and> valid_adler (adler32_update adler data)
    \<and> adler32_update adler (data @ data') = adler32_update (adler32_update adler data) data'"
proof -
  let ?h = "adler_halves adler"
  have h: "fst ?h < 65521" "snd ?h < 65521" using assms by (simp_all add: valid_adler_def)
  have half: "adler_halves (adler32_update adler data) = mod_sums 65521 ?h (map unat data)"
    using adler_halves_ref [OF h] assms by (simp add: adler32_update_eq_ref)
  then have v: "valid_adler (adler32_update adler data)"
    using mod_sums_less [OF h, of "map unat data"] by (simp add: valid_adler_def)
  have "adler32_update adler (data @ data') = adler32_ref (mod_sums 65521 ?h (map unat data)) (map unat data')"
    by (simp add: adler32_update_eq_ref [OF assms] adler32_ref_def mod_sums_append)
  also have "\<dots> = adler32_update (adler32_update adler data) data'"
    by (simp only: adler32_update_eq_ref [OF v] half)
  finally show ?thesis
    using v adler32_update_eq_ref [OF assms] adler32_update_wp_eq_ref [OF assms] by simp
qed

theorem adler32_correct_witness:
  "valid_adler 1 \<and> adler32_update_wp 1 [97, 98] = adler32 [97, 98] \<and> adler32 [97, 98] = 0x012600c4"
  using adler32_correct [of 1 "[97, 98]" "[]"]
  by (simp add: adler32_def valid_adler_def adler_halves_def adler32_ref_def)


end
