(* ===== verification/WireTypes.thy ===== *)
theory WireTypes
  imports Serialization
begin

text \<open>
  The structures that travel between clients, master and range servers and into the meta logs:
  timestamps, table identifiers, range specifications, range states, row and cell intervals and scan
  specifications (\<^verbatim>\<open>Hypertable/Lib/Timestamp.h\<close>, \<^verbatim>\<open>Types.cc\<close>, \<^verbatim>\<open>RangeState.cc\<close>, \<^verbatim>\<open>ScanSpec.cc\<close>). Signed 64-bit
  fields are kept as words. The locale \<open>wire_format\<close> is the contract of such a structure; it is
  interpreted for each of them.
\<close>

section \<open>Structures and their codecs\<close>

subsection \<open>Timestamp\<close>

record timestamp =
  ts_logical :: u64
  ts_real :: u64

definition timestamp_clear :: timestamp where
  "timestamp_clear = \<lparr>ts_logical = 0, ts_real = 0\<rparr>"

definition timestamp_encoded_length :: "timestamp \<Rightarrow> nat" where
  "timestamp_encoded_length t = 16"

definition encode_timestamp :: "timestamp \<Rightarrow> bytes result" where
  "encode_timestamp t = ecat (Inr (encode_i64 (ts_logical t))) (Inr (encode_i64 (ts_real t)))"

definition decode_timestamp :: "timestamp decoder" where
  "decode_timestamp = dbind decode_i64 (\<lambda>l. dbind decode_i64 (\<lambda>r. dret \<lparr>ts_logical = l, ts_real = r\<rparr>))"

text \<open>\<^verbatim>\<open>operator<\<close> compares the logical part as a signed number.\<close>

definition timestamp_less :: "timestamp \<Rightarrow> timestamp \<Rightarrow> bool" where
  "timestamp_less s t \<longleftrightarrow> sint (ts_logical s) < sint (ts_logical t)"

subsection \<open>TableIdentifier and RangeSpec\<close>

record table_identifier =
  tid_name :: cstr
  tid_id :: u32
  tid_generation :: u32

definition table_identifier_encoded_length :: "table_identifier \<Rightarrow> nat" where
  "table_identifier_encoded_length t = 8 + encoded_length_vstr_cstr (tid_name t)"

definition encode_table_identifier :: "table_identifier \<Rightarrow> bytes result" where
  "encode_table_identifier t =
     ecat (encode_vstr_cstr (tid_name t)) (ecat (Inr (encode_i32 (tid_id t))) (Inr (encode_i32 (tid_generation t))))"

definition decode_table_identifier :: "table_identifier decoder" where
  "decode_table_identifier = dbind decode_vstr_cstr (\<lambda>n. dbind decode_i32 (\<lambda>i. dbind decode_i32 (\<lambda>g.
     dret \<lparr>tid_name = n, tid_id = i, tid_generation = g\<rparr>)))"

record range_spec =
  start_row :: cstr
  end_row :: cstr

definition range_spec_encoded_length :: "range_spec \<Rightarrow> nat" where
  "range_spec_encoded_length s = encoded_length_vstr_cstr (start_row s) + encoded_length_vstr_cstr (end_row s)"

definition encode_range_spec :: "range_spec \<Rightarrow> bytes result" where
  "encode_range_spec s = ecat (encode_vstr_cstr (start_row s)) (encode_vstr_cstr (end_row s))"

definition decode_range_spec :: "range_spec decoder" where
  "decode_range_spec = dbind decode_vstr_cstr (\<lambda>a. dbind decode_vstr_cstr (\<lambda>b.
     dret \<lparr>start_row = a, end_row = b\<rparr>))"

subsection \<open>RangeState\<close>

text \<open>\<^verbatim>\<open>enum StateType { STEADY, SPLIT_LOG_INSTALLED, SPLIT_SHRUNK }\<close>; the field is an int.\<close>

definition STEADY :: int where "STEADY = 0"
definition SPLIT_LOG_INSTALLED :: int where "SPLIT_LOG_INSTALLED = 1"
definition SPLIT_SHRUNK :: int where "SPLIT_SHRUNK = 2"

record range_state =
  state :: int
  rs_timestamp :: timestamp
  soft_limit :: u64
  transfer_log :: cstr
  split_point :: cstr
  old_start_row :: cstr

definition range_state_clear :: "range_state \<Rightarrow> range_state" where
  "range_state_clear s = s\<lparr>state := STEADY, rs_timestamp := timestamp_clear,
     transfer_log := None, split_point := None, old_start_row := None\<rparr>"

definition range_state_encoded_length :: "range_state \<Rightarrow> nat" where
  "range_state_encoded_length s = 9 + timestamp_encoded_length (rs_timestamp s)
     + encoded_length_vstr_cstr (transfer_log s) + encoded_length_vstr_cstr (split_point s)
     + encoded_length_vstr_cstr (old_start_row s)"

definition encode_range_state :: "range_state \<Rightarrow> bytes result" where
  "encode_range_state s =
     ecat (Inr [word_of_int (state s)])
    (ecat (encode_timestamp (rs_timestamp s))
    (ecat (Inr (encode_i64 (soft_limit s)))
    (ecat (encode_vstr_cstr (transfer_log s))
    (ecat (encode_vstr_cstr (split_point s))
          (encode_vstr_cstr (old_start_row s))))))"

definition decode_range_state :: "range_state decoder" where
  "decode_range_state =
     dbind decode_byte (\<lambda>st. dbind decode_timestamp (\<lambda>ts. dbind decode_i64 (\<lambda>sl.
     dbind decode_vstr_cstr (\<lambda>tl. dbind decode_vstr_cstr (\<lambda>sp. dbind decode_vstr_cstr (\<lambda>os.
       dret \<lparr>state = uint st, rs_timestamp = ts, soft_limit = sl, transfer_log = tl,
         split_point = sp, old_start_row = os\<rparr>))))))"

subsection \<open>Row and cell intervals\<close>

record row_interval =
  ri_start :: cstr
  ri_start_inclusive :: bool
  ri_end :: cstr
  ri_end_inclusive :: bool

definition row_interval_new :: row_interval where
  "row_interval_new = \<lparr>ri_start = None, ri_start_inclusive = True, ri_end = None, ri_end_inclusive = True\<rparr>"

definition row_interval_encoded_length :: "row_interval \<Rightarrow> nat" where
  "row_interval_encoded_length i = 2 + encoded_length_vstr_cstr (ri_start i) + encoded_length_vstr_cstr (ri_end i)"

definition encode_row_interval :: "row_interval \<Rightarrow> bytes result" where
  "encode_row_interval i =
     ecat (encode_vstr_cstr (ri_start i)) (ecat (Inr (encode_bool (ri_start_inclusive i)))
    (ecat (encode_vstr_cstr (ri_end i)) (Inr (encode_bool (ri_end_inclusive i)))))"

definition decode_row_interval :: "row_interval decoder" where
  "decode_row_interval =
     dbind decode_vstr_cstr (\<lambda>s. dbind decode_bool (\<lambda>si. dbind decode_vstr_cstr (\<lambda>e. dbind decode_bool (\<lambda>ei.
       dret \<lparr>ri_start = s, ri_start_inclusive = si, ri_end = e, ri_end_inclusive = ei\<rparr>))))"

record cell_interval =
  ci_start_row :: cstr
  ci_start_column :: cstr
  ci_start_inclusive :: bool
  ci_end_row :: cstr
  ci_end_column :: cstr
  ci_end_inclusive :: bool

definition cell_interval_new :: cell_interval where
  "cell_interval_new = \<lparr>ci_start_row = None, ci_start_column = None, ci_start_inclusive = True,
     ci_end_row = None, ci_end_column = None, ci_end_inclusive = True\<rparr>"

definition cell_interval_encoded_length :: "cell_interval \<Rightarrow> nat" where
  "cell_interval_encoded_length i = 2 + encoded_length_vstr_cstr (ci_start_row i)
     + encoded_length_vstr_cstr (ci_start_column i) + encoded_length_vstr_cstr (ci_end_row i)
     + encoded_length_vstr_cstr (ci_end_column i)"

definition encode_cell_interval :: "cell_interval \<Rightarrow> bytes result" where
  "encode_cell_interval i =
     ecat (encode_vstr_cstr (ci_start_row i)) (ecat (encode_vstr_cstr (ci_start_column i))
    (ecat (Inr (encode_bool (ci_start_inclusive i)))
    (ecat (encode_vstr_cstr (ci_end_row i)) (ecat (encode_vstr_cstr (ci_end_column i))
          (Inr (encode_bool (ci_end_inclusive i)))))))"

definition decode_cell_interval :: "cell_interval decoder" where
  "decode_cell_interval =
     dbind decode_vstr_cstr (\<lambda>sr. dbind decode_vstr_cstr (\<lambda>sc. dbind decode_bool (\<lambda>si.
     dbind decode_vstr_cstr (\<lambda>er. dbind decode_vstr_cstr (\<lambda>ec. dbind decode_bool (\<lambda>ei.
       dret \<lparr>ci_start_row = sr, ci_start_column = sc, ci_start_inclusive = si,
         ci_end_row = er, ci_end_column = ec, ci_end_inclusive = ei\<rparr>))))))"

subsection \<open>ScanSpec\<close>

text \<open>\<open>row_limit\<close> is an int32 and the bounds of \<open>time_interval\<close> are int64, all kept as words.\<close>

record scan_spec =
  row_limit :: u32
  max_versions :: u32
  columns :: "cstr list"
  row_intervals :: "row_interval list"
  cell_intervals :: "cell_interval list"
  time_interval :: "u64 \<times> u64"
  return_deletes :: bool

definition END_OF_TIME :: u64 where
  "END_OF_TIME = 0x7fffffffffffffff"

definition scan_spec_new :: scan_spec where
  "scan_spec_new = \<lparr>row_limit = 0, max_versions = 0, columns = [], row_intervals = [], cell_intervals = [],
     time_interval = (0, END_OF_TIME), return_deletes = False\<rparr>"

definition scan_spec_clear :: "scan_spec \<Rightarrow> scan_spec" where
  "scan_spec_clear s = s\<lparr>row_limit := 0, max_versions := 0, columns := [], row_intervals := [],
     cell_intervals := [], time_interval := (0, 0), return_deletes := False\<rparr>"

definition scan_spec_base_copy :: "scan_spec \<Rightarrow> scan_spec \<Rightarrow> scan_spec" where
  "scan_spec_base_copy s other = other\<lparr>row_limit := row_limit s, max_versions := max_versions s,
     columns := columns s, time_interval := time_interval s, return_deletes := return_deletes s,
     row_intervals := [], cell_intervals := []\<rparr>"

definition scan_spec_encoded_length :: "scan_spec \<Rightarrow> nat" where
  "scan_spec_encoded_length s =
     encoded_length_vi32 (row_limit s) + encoded_length_vi32 (max_versions s)
   + encoded_length_vi32 (of_nat (length (columns s)))
   + encoded_length_vi32 (of_nat (length (row_intervals s)))
   + encoded_length_vi32 (of_nat (length (cell_intervals s)))
   + sum_list (map encoded_length_vstr_cstr (columns s))
   + sum_list (map row_interval_encoded_length (row_intervals s))
   + sum_list (map cell_interval_encoded_length (cell_intervals s)) + 8 + 8 + 1"

text \<open>\<^verbatim>\<open>foreach (x, xs) encode(x)\<close> and \<^verbatim>\<open>for (size_t n = ...; n--;) xs.push_back(decode(...))\<close>\<close>

primrec encode_each :: "('a \<Rightarrow> bytes result) \<Rightarrow> 'a list \<Rightarrow> bytes result" where
  "encode_each e [] = Inr []"
| "encode_each e (x # xs) = ecat (e x) (encode_each e xs)"

primrec decode_each :: "nat \<Rightarrow> 'a decoder \<Rightarrow> 'a list decoder" where
  "decode_each 0 d = dret []"
| "decode_each (Suc n) d = dbind d (\<lambda>x. dbind (decode_each n d) (\<lambda>xs. dret (x # xs)))"

definition encode_scan_spec :: "scan_spec \<Rightarrow> bytes result" where
  "encode_scan_spec s =
     ecat (encode_vi32 (row_limit s)) (ecat (encode_vi32 (max_versions s))
    (ecat (encode_vi32 (of_nat (length (columns s)))) (ecat (encode_each encode_vstr_cstr (columns s))
    (ecat (encode_vi32 (of_nat (length (row_intervals s)))) (ecat (encode_each encode_row_interval (row_intervals s))
    (ecat (encode_vi32 (of_nat (length (cell_intervals s)))) (ecat (encode_each encode_cell_interval (cell_intervals s))
    (ecat (Inr (encode_i64 (fst (time_interval s)))) (ecat (Inr (encode_i64 (snd (time_interval s))))
          (Inr (encode_bool (return_deletes s))))))))))))"

text \<open>Decoding appends to the vectors of the object it is called on. \<^verbatim>\<open>return_deletes\<close> is assigned a
  decoded byte.\<close>

definition decode_scan_spec :: "scan_spec \<Rightarrow> scan_spec decoder" where
  "decode_scan_spec s =
     dbind decode_vi32 (\<lambda>rl. dbind decode_vi32 (\<lambda>mv.
     dbind decode_vi32 (\<lambda>nc. dbind (decode_each (unat nc) decode_vstr_cstr) (\<lambda>cs.
     dbind decode_vi32 (\<lambda>nri. dbind (decode_each (unat nri) decode_row_interval) (\<lambda>ris.
     dbind decode_vi32 (\<lambda>nci. dbind (decode_each (unat nci) decode_cell_interval) (\<lambda>cis.
     dbind decode_i64 (\<lambda>t1. dbind decode_i64 (\<lambda>t2. dbind decode_i8 (\<lambda>rd.
       dret \<lparr>row_limit = rl, max_versions = mv, columns = columns s @ cs, row_intervals = row_intervals s @ ris,
         cell_intervals = cell_intervals s @ cis, time_interval = (t1, t2), return_deletes = (rd \<noteq> 0)\<rparr>)))))))))))"

section \<open>The contract of a wire format\<close>

text \<open>\<open>writes e l d x\<close>: the encoder's output \<open>e\<close> has \<open>l\<close> bytes, which \<open>d\<close> reads back as \<open>x\<close>.\<close>

definition writes :: "bytes result \<Rightarrow> nat \<Rightarrow> 'a decoder \<Rightarrow> 'a \<Rightarrow> bool" where
  "writes e l d x \<longleftrightarrow> (\<exists>bs. e = Inr bs \<and> length bs = l \<and> decodes d x bs)"

lemma writes_seq:
  "writes e1 l1 d x \<Longrightarrow> writes e2 l2 (f x) y \<Longrightarrow> writes (ecat e1 e2) (l1 + l2) (dbind d f) y"
  unfolding writes_def using decodes_dbind by fastforce

lemma writes_last: "writes e l d x \<Longrightarrow> f x = dret y \<Longrightarrow> writes e l (dbind d f) y"
  unfolding writes_def using decodes_dbind [of d x _ f y "[]"] decodes_dret by force

lemma writes_nil: "writes (Inr []) 0 (dret x) x"
  by (simp add: writes_def decodes_dret)

text \<open>
  A structure's encoder succeeds on every valid value and writes as many bytes as its length function
  announces; its decoder reads exactly those bytes, up to the normalisation \<open>norm\<close>, and is safe on any
  input. The only normalisation is that a null string is read back as the empty string.
\<close>

locale wire_format =
  fixes enc :: "'a \<Rightarrow> bytes result" and dec :: "'a decoder" and valid :: "'a \<Rightarrow> bool"
    and norm :: "'a \<Rightarrow> 'a" and elen :: "'a \<Rightarrow> nat"
  assumes writes_valid: "valid x \<Longrightarrow> writes (enc x) (elen x) dec (norm x)"
    and checked: "checked_decoder dec"
begin

lemma encode_length:
  "valid x \<Longrightarrow> \<exists>bs. enc x = Inr bs \<and> length bs = elen x"
  using writes_valid by (auto simp: writes_def)

lemma round_trip:
  assumes "valid x" and "enc x = Inr bs" and "length bs \<le> unat r"
  shows "dec (bs @ rest, r) = Inr (norm x, rest, r - of_nat (length bs))"
  using writes_valid [OF assms(1)] assms(2,3) by (auto simp: writes_def decodesD)

lemma truncated:
  assumes "valid x" and "enc x = Inr bs" and "unat r < length bs"
  shows "dec (bs @ rest, r) = Inl SERIALIZATION_INPUT_OVERRUN"
  using writes_valid [OF assms(1)] assms(2,3) by (auto simp: writes_def decodesD)

end

sublocale wire_format \<subseteq> checked_decoder dec
  by (rule checked)

lemma wire_formatI:
  "(\<And>x. valid x \<Longrightarrow> writes (enc x) (elen x) dec (norm x)) \<Longrightarrow> checked_decoder dec \<Longrightarrow>
    wire_format enc dec valid norm elen"
  by (simp add: wire_format_def)

subsection \<open>Fields\<close>

lemma writes_fixed:
  "writes (Inr (encode_i8 a)) 1 decode_i8 a"
  "writes (Inr (encode_bool b)) 1 decode_bool b"
  "writes (Inr (encode_i32 c)) 4 decode_i32 c"
  "writes (Inr (encode_i64 d)) 8 decode_i64 d"
  "writes (encode_vi32 e) (encoded_length_vi32 e) decode_vi32 e"
  by (simp_all add: writes_def i8.enc_decodes bool.enc_decodes i32.enc_decodes i64.enc_decodes
      vi32.enc_decodes [of e, simplified] encoded_length_vi32_eq)

definition cstr_ok :: "cstr \<Rightarrow> bool" where
  "cstr_ok c = (case c of None \<Rightarrow> True | Some s \<Rightarrow> 0 \<notin> set s \<and> vstr_len_ok s)"

definition cstr_norm :: "cstr \<Rightarrow> cstr" where
  "cstr_norm c = Some (case c of None \<Rightarrow> [] | Some s \<Rightarrow> s)"

lemma writes_cstr:
  assumes "cstr_ok c"
  shows "writes (encode_vstr_cstr c) (encoded_length_vstr_cstr c) decode_vstr_cstr (cstr_norm c)"
proof -
  have v: "valid_cstr (cstr_norm c)"
    using assms by (auto simp: valid_cstr_def cstr_norm_def cstr_ok_def vstr_len_ok_def split: option.splits)
  have e: "encode_vstr_cstr c = encode_vstr_cstr (cstr_norm c)"
    "encoded_length_vstr_cstr c = encoded_length_vstr_cstr (cstr_norm c)"
    by (simp_all add: encode_vstr_cstr_def encoded_length_vstr_cstr_def cstr_norm_def split: option.split)
  obtain bs where bs: "encode_vstr_cstr (cstr_norm c) = Inr bs" using cstr.enc_total [OF v] by blast
  then have "encoded_length_vstr_cstr (cstr_norm c) = length bs"
    by (auto simp: encode_vstr_cstr_def encoded_length_vstr_cstr_def cstr_norm_def intro: encoded_length_vstr_eq)
  with bs show ?thesis unfolding e writes_def using cstr.enc_decodes [OF v bs] by auto
qed

lemma writes_each:
  assumes "\<And>x. x \<in> set xs \<Longrightarrow> writes (e x) (l x) d (g x)"
  shows "writes (encode_each e xs) (sum_list (map l xs)) (decode_each (length xs) d) (map g xs)"
  using assms
proof (induction xs)
  case Nil
  show ?case unfolding encode_each.simps decode_each.simps list.map list.size by (simp add: writes_nil del: dret_apply)
next
  case (Cons x xs)
  then have "writes (encode_each e xs) (sum_list (map l xs))
      (dbind (decode_each (length xs) d) (\<lambda>ys. dret (g x # ys))) (g x # map g xs)"
    by (intro writes_last) auto
  with Cons.prems show ?case by (auto intro: writes_seq)
qed

lemma checked_each: "checked_decoder d \<Longrightarrow> checked_decoder (decode_each n d)"
  by (induction n) (auto intro: checked_dbind checked_dret)

lemmas checked_fields = fixed_checked vi32.checked_decoder_axioms checked_vstr_cstr checked_dret

subsection \<open>The structures\<close>

lemma checked_timestamp: "checked_decoder decode_timestamp"
  unfolding decode_timestamp_def by (intro checked_dbind checked_fields)

interpretation ts: wire_format encode_timestamp decode_timestamp "\<lambda>_. True" "\<lambda>t. t" timestamp_encoded_length
proof (rule wire_formatI)
  fix t :: timestamp
  have "writes (encode_timestamp t) (8 + 8) decode_timestamp t"
    unfolding encode_timestamp_def decode_timestamp_def by (cases t) (rule writes_seq writes_last writes_fixed | simp)+
  then show "writes (encode_timestamp t) (timestamp_encoded_length t) decode_timestamp t"
    by (simp add: timestamp_encoded_length_def)
qed (rule checked_timestamp)

definition table_identifier_ok :: "table_identifier \<Rightarrow> bool" where
  "table_identifier_ok t \<longleftrightarrow> cstr_ok (tid_name t)"

definition table_identifier_norm :: "table_identifier \<Rightarrow> table_identifier" where
  "table_identifier_norm t = t\<lparr>tid_name := cstr_norm (tid_name t)\<rparr>"

interpretation tid: wire_format encode_table_identifier decode_table_identifier
  table_identifier_ok table_identifier_norm table_identifier_encoded_length
proof (rule wire_formatI)
  fix t
  assume "table_identifier_ok t"
  then have "writes (encode_table_identifier t) (encoded_length_vstr_cstr (tid_name t) + (4 + 4))
      decode_table_identifier (table_identifier_norm t)"
    unfolding encode_table_identifier_def decode_table_identifier_def
    by (cases t) (rule writes_seq writes_last writes_fixed writes_cstr
        | simp add: table_identifier_ok_def table_identifier_norm_def)+
  then show "writes (encode_table_identifier t) (table_identifier_encoded_length t)
      decode_table_identifier (table_identifier_norm t)"
    by (simp add: table_identifier_encoded_length_def add.commute)
next
  show "checked_decoder decode_table_identifier"
    unfolding decode_table_identifier_def by (intro checked_dbind checked_fields)
qed


definition range_spec_ok :: "range_spec \<Rightarrow> bool" where
  "range_spec_ok s \<longleftrightarrow> cstr_ok (start_row s) \<and> cstr_ok (end_row s)"

definition range_spec_norm :: "range_spec \<Rightarrow> range_spec" where
  "range_spec_norm s = s\<lparr>start_row := cstr_norm (start_row s), end_row := cstr_norm (end_row s)\<rparr>"

interpretation rspec: wire_format encode_range_spec decode_range_spec
  range_spec_ok range_spec_norm range_spec_encoded_length
proof (rule wire_formatI)
  fix s
  assume "range_spec_ok s"
  then show "writes (encode_range_spec s) (range_spec_encoded_length s) decode_range_spec (range_spec_norm s)"
    unfolding encode_range_spec_def decode_range_spec_def range_spec_encoded_length_def
    by (cases s) (rule writes_seq writes_last writes_cstr | simp add: range_spec_ok_def range_spec_norm_def)+
next
  show "checked_decoder decode_range_spec"
    unfolding decode_range_spec_def by (intro checked_dbind checked_fields)
qed

text \<open>Only the low byte of the state is written.\<close>

definition range_state_ok :: "range_state \<Rightarrow> bool" where
  "range_state_ok s \<longleftrightarrow> 0 \<le> state s \<and> state s < 256
     \<and> cstr_ok (transfer_log s) \<and> cstr_ok (split_point s) \<and> cstr_ok (old_start_row s)"

definition range_state_norm :: "range_state \<Rightarrow> range_state" where
  "range_state_norm s = s\<lparr>transfer_log := cstr_norm (transfer_log s), split_point := cstr_norm (split_point s),
     old_start_row := cstr_norm (old_start_row s)\<rparr>"

lemma writes_state: "writes (Inr [b]) 1 decode_byte b"
  using writes_fixed(1) [of b] by (simp add: encode_i8_def decode_byte_def)

lemma writes_timestamp: "writes (encode_timestamp t) (timestamp_encoded_length t) decode_timestamp t"
  using ts.writes_valid by simp

interpretation rstate: wire_format encode_range_state decode_range_state
  range_state_ok range_state_norm range_state_encoded_length
proof (rule wire_formatI)
  fix s
  assume ok: "range_state_ok s"
  then have "uint (word_of_int (state s) :: byte) = state s"
    by (simp add: range_state_ok_def uint_word_of_int)
  with ok have "writes (encode_range_state s) (1 + (timestamp_encoded_length (rs_timestamp s) + (8
      + (encoded_length_vstr_cstr (transfer_log s) + (encoded_length_vstr_cstr (split_point s)
      + encoded_length_vstr_cstr (old_start_row s)))))) decode_range_state (range_state_norm s)"
    unfolding encode_range_state_def decode_range_state_def
    by (cases s) (rule writes_seq writes_last writes_state writes_timestamp writes_fixed writes_cstr
        | simp add: range_state_ok_def range_state_norm_def)+
  then show "writes (encode_range_state s) (range_state_encoded_length s) decode_range_state (range_state_norm s)"
    by (simp add: range_state_encoded_length_def timestamp_encoded_length_def add.assoc)
next
  show "checked_decoder decode_range_state"
    unfolding decode_range_state_def decode_byte_def by (intro checked_dbind checked_fields checked_timestamp)
qed

definition row_interval_ok :: "row_interval \<Rightarrow> bool" where
  "row_interval_ok i \<longleftrightarrow> cstr_ok (ri_start i) \<and> cstr_ok (ri_end i)"

definition row_interval_norm :: "row_interval \<Rightarrow> row_interval" where
  "row_interval_norm i = i\<lparr>ri_start := cstr_norm (ri_start i), ri_end := cstr_norm (ri_end i)\<rparr>"

interpretation rint: wire_format encode_row_interval decode_row_interval
  row_interval_ok row_interval_norm row_interval_encoded_length
proof (rule wire_formatI)
  fix i
  assume "row_interval_ok i"
  then have "writes (encode_row_interval i) (encoded_length_vstr_cstr (ri_start i) + (1
      + (encoded_length_vstr_cstr (ri_end i) + 1))) decode_row_interval (row_interval_norm i)"
    unfolding encode_row_interval_def decode_row_interval_def
    by (cases i) (rule writes_seq writes_last writes_fixed writes_cstr
        | simp add: row_interval_ok_def row_interval_norm_def)+
  then show "writes (encode_row_interval i) (row_interval_encoded_length i) decode_row_interval (row_interval_norm i)"
    by (simp add: row_interval_encoded_length_def)
next
  show "checked_decoder decode_row_interval"
    unfolding decode_row_interval_def by (intro checked_dbind checked_fields)
qed

definition cell_interval_ok :: "cell_interval \<Rightarrow> bool" where
  "cell_interval_ok i \<longleftrightarrow> cstr_ok (ci_start_row i) \<and> cstr_ok (ci_start_column i)
     \<and> cstr_ok (ci_end_row i) \<and> cstr_ok (ci_end_column i)"

definition cell_interval_norm :: "cell_interval \<Rightarrow> cell_interval" where
  "cell_interval_norm i = i\<lparr>ci_start_row := cstr_norm (ci_start_row i), ci_start_column := cstr_norm (ci_start_column i),
     ci_end_row := cstr_norm (ci_end_row i), ci_end_column := cstr_norm (ci_end_column i)\<rparr>"

interpretation cint: wire_format encode_cell_interval decode_cell_interval
  cell_interval_ok cell_interval_norm cell_interval_encoded_length
proof (rule wire_formatI)
  fix i
  assume "cell_interval_ok i"
  then have "writes (encode_cell_interval i) (encoded_length_vstr_cstr (ci_start_row i)
      + (encoded_length_vstr_cstr (ci_start_column i) + (1 + (encoded_length_vstr_cstr (ci_end_row i)
      + (encoded_length_vstr_cstr (ci_end_column i) + 1))))) decode_cell_interval (cell_interval_norm i)"
    unfolding encode_cell_interval_def decode_cell_interval_def
    by (cases i) (rule writes_seq writes_last writes_fixed writes_cstr
        | simp add: cell_interval_ok_def cell_interval_norm_def)+
  then show "writes (encode_cell_interval i) (cell_interval_encoded_length i) decode_cell_interval (cell_interval_norm i)"
    by (simp add: cell_interval_encoded_length_def add.assoc)
next
  show "checked_decoder decode_cell_interval"
    unfolding decode_cell_interval_def by (intro checked_dbind checked_fields)
qed


definition scan_spec_ok :: "scan_spec \<Rightarrow> bool" where
  "scan_spec_ok s \<longleftrightarrow> length (columns s) < 2 ^ 32 \<and> length (row_intervals s) < 2 ^ 32
     \<and> length (cell_intervals s) < 2 ^ 32 \<and> list_all cstr_ok (columns s)
     \<and> list_all row_interval_ok (row_intervals s) \<and> list_all cell_interval_ok (cell_intervals s)"

definition scan_spec_norm :: "scan_spec \<Rightarrow> scan_spec" where
  "scan_spec_norm s = s\<lparr>columns := map cstr_norm (columns s), row_intervals := map row_interval_norm (row_intervals s),
     cell_intervals := map cell_interval_norm (cell_intervals s)\<rparr>"

lemma writes_elements:
  assumes "length xs < 2 ^ 32" and "list_all ok xs" and "\<And>x. ok x \<Longrightarrow> writes (e x) (l x) d (g x)"
  shows "writes (encode_each e xs) (sum_list (map l xs)) (decode_each (unat (of_nat (length xs) :: u32)) d) (map g xs)"
proof -
  have "unat (of_nat (length xs) :: u32) = length xs" using assms(1) by (intro unat_of_nat_small) simp
  with writes_each [of xs e l d g] assms show ?thesis by (simp add: list_all_iff)
qed

lemma writes_flag: "writes (Inr (encode_bool b)) 1 decode_i8 (if b then 1 else 0)"
  using writes_fixed(1) [of "if b then 1 else 0"] by (simp add: encode_i8_def encode_bool_def)

lemma scan_spec_writes:
  assumes ok: "scan_spec_ok s" and s0: "columns s0 = []" "row_intervals s0 = []" "cell_intervals s0 = []"
  shows "writes (encode_scan_spec s) (scan_spec_encoded_length s) (decode_scan_spec s0) (scan_spec_norm s)"
proof -
  let ?v = "\<lambda>xs. encoded_length_vi32 (of_nat (length xs))"
  have ret: "dret \<lparr>row_limit = row_limit s, max_versions = max_versions s, columns = map cstr_norm (columns s),
      row_intervals = map row_interval_norm (row_intervals s), cell_intervals = map cell_interval_norm (cell_intervals s),
      time_interval = (fst (time_interval s), snd (time_interval s)),
      return_deletes = ((if return_deletes s then 1 else 0 :: byte) \<noteq> 0)\<rparr> = dret (scan_spec_norm s)"
    by (cases s) (simp add: scan_spec_norm_def)
  have side: "length (columns s) < 2 ^ 32" "length (row_intervals s) < 2 ^ 32" "length (cell_intervals s) < 2 ^ 32"
    "list_all cstr_ok (columns s)" "list_all row_interval_ok (row_intervals s)"
    "list_all cell_interval_ok (cell_intervals s)"
    using ok by (simp_all add: scan_spec_ok_def)
  note elements = writes_elements [of "columns s", OF _ _ writes_cstr]
    writes_elements [of "row_intervals s", OF _ _ rint.writes_valid]
    writes_elements [of "cell_intervals s", OF _ _ cint.writes_valid]
  have "writes (encode_scan_spec s) (encoded_length_vi32 (row_limit s) + (encoded_length_vi32 (max_versions s)
      + (?v (columns s) + (sum_list (map encoded_length_vstr_cstr (columns s))
      + (?v (row_intervals s) + (sum_list (map row_interval_encoded_length (row_intervals s))
      + (?v (cell_intervals s) + (sum_list (map cell_interval_encoded_length (cell_intervals s))
      + (8 + (8 + 1)))))))))) (decode_scan_spec s0) (scan_spec_norm s)"
    unfolding encode_scan_spec_def decode_scan_spec_def s0 append_Nil
    by (rule writes_seq writes_last writes_fixed writes_flag elements side ret | assumption)+
  then show ?thesis by (simp add: scan_spec_encoded_length_def ac_simps)
qed

lemma checked_scan_spec: "checked_decoder (decode_scan_spec s0)"
  unfolding decode_scan_spec_def by (intro checked_dbind checked_fields checked_each rint.checked cint.checked)

interpretation sspec: wire_format encode_scan_spec "decode_scan_spec scan_spec_new"
  scan_spec_ok scan_spec_norm scan_spec_encoded_length
  by (rule wire_formatI [OF scan_spec_writes checked_scan_spec]) (simp_all add: scan_spec_new_def)

section \<open>Properties\<close>

text \<open>C34. A scan specification crosses the wire intact. Encoding a specification whose strings are C
  strings and whose vectors have fewer than \<^verbatim>\<open>2^32\<close> elements succeeds and takes exactly
  \<open>encoded_length\<close> bytes; decoding these bytes in front of any others yields the same specification, with null
  strings read as empty ones, and stops right behind it; and decoding any truncation reports an
  overrun instead of a partial specification.\<close>

theorem scan_spec_roundtrip:
  assumes "scan_spec_ok s"
  shows "\<exists>bs. encode_scan_spec s = Inr bs \<and> length bs = scan_spec_encoded_length s
    \<and> (length bs \<le> unat r \<longrightarrow>
         decode_scan_spec scan_spec_new (bs @ rest, r) = Inr (scan_spec_norm s, rest, r - of_nat (length bs)))
    \<and> (unat r < length bs \<longrightarrow>
         decode_scan_spec scan_spec_new (bs @ rest, r) = Inl SERIALIZATION_INPUT_OVERRUN)"
  using sspec.encode_length [OF assms] sspec.round_trip [OF assms] sspec.truncated [OF assms] by blast

theorem scan_spec_roundtrip_witness:
  "\<exists>s bs. row_intervals s = [row_interval_new] \<and> columns s = [Some [97]]
    \<and> encode_scan_spec s = Inr bs
    \<and> decode_scan_spec scan_spec_new (bs @ [7], 100) = Inr (scan_spec_norm s, [7], 100 - of_nat (length bs))"
proof -
  let ?s = "scan_spec_new\<lparr>row_intervals := [row_interval_new], columns := [Some [97]]\<rparr>"
  have "scan_spec_ok ?s"
    by (simp add: scan_spec_ok_def scan_spec_new_def row_interval_new_def row_interval_ok_def cstr_ok_def vstr_len_ok_def)
  moreover have "scan_spec_encoded_length ?s = 31"
    by (simp add: scan_spec_encoded_length_def scan_spec_new_def row_interval_new_def row_interval_encoded_length_def
        encoded_length_vi32_def encoded_length_vstr_cstr_def encoded_length_vstr_def encoded_length_vi64_def)
  ultimately show ?thesis
    using scan_spec_roundtrip [of ?s 100 "[7]"] by (intro exI [of _ ?s]) (auto simp: scan_spec_new_def)
qed

text \<open>A range's persistent state, its table identifier and its boundaries cross the wire and the
  meta log intact, one behind the other, as the load-range request and the meta log entries write
  them: the state keeps its number when it fits a byte.\<close>

lemma range_wire_roundtrip:
  assumes "table_identifier_ok t" "range_spec_ok g" "range_state_ok st"
  shows "\<exists>bs. ecat (encode_table_identifier t) (ecat (encode_range_spec g) (encode_range_state st)) = Inr bs
    \<and> length bs = table_identifier_encoded_length t + (range_spec_encoded_length g + range_state_encoded_length st)
    \<and> decodes (dbind decode_table_identifier (\<lambda>t. dbind decode_range_spec (\<lambda>g. dbind decode_range_state (\<lambda>st. dret (t, g, st)))))
        (table_identifier_norm t, range_spec_norm g, range_state_norm st) bs"
proof -
  have "writes (ecat (encode_table_identifier t) (ecat (encode_range_spec g) (encode_range_state st)))
     (table_identifier_encoded_length t + (range_spec_encoded_length g + range_state_encoded_length st))
     (dbind decode_table_identifier (\<lambda>t. dbind decode_range_spec (\<lambda>g. dbind decode_range_state (\<lambda>st. dret (t, g, st)))))
     (table_identifier_norm t, range_spec_norm g, range_state_norm st)"
    by (rule writes_seq writes_last tid.writes_valid rspec.writes_valid rstate.writes_valid assms refl)+
  then show ?thesis by (simp add: writes_def)
qed

text \<open>Decoding a scan specification is memory safe. On arbitrary bytes the decoder, including its
  three counted loops, never reads outside the bytes the counter describes and leaves pointer and
  counter in step.\<close>

lemma scan_spec_decode_safe:
  assumes "unat r \<le> length ip"
  shows "decode_scan_spec s0 (ip, r) \<noteq> Inl UNDEFINED_BEHAVIOUR
    \<and> (\<forall>s ip' r'. decode_scan_spec s0 (ip, r) = Inr (s, ip', r') \<longrightarrow>
         (\<exists>n \<le> unat r. ip' = drop n ip \<and> r' = r - of_nat n))"
  using checked_decoder.never_undefined [OF checked_scan_spec assms]
    checked_decoder.consumes [OF checked_scan_spec assms] by blast

end
