(* ===== verification/DynamicBuffers.thy ===== *)
theory DynamicBuffers
  imports Prelude
begin

text \<open>
  Growable byte buffers (\<^verbatim>\<open>Common/DynamicBuffer.h\<close>). The model keeps the bytes between \<^verbatim>\<open>base\<close> and \<^verbatim>\<open>ptr\<close>, the
  number of bytes really allocated, and the field \<^verbatim>\<open>size\<close>, which is only 32 bits wide while every size is
  computed with 64; a copy beyond the allocation is undefined behaviour.
\<close>

section \<open>Model\<close>

text \<open>\<open>alloc\<close> is \<^const>\<open>None\<close> for a null \<^verbatim>\<open>base\<close>.\<close>

record dynbuf =
  contents :: bytes
  alloc :: "nat option"
  buf_size :: u32

definition dynbuf_new :: "u64 \<Rightarrow> dynbuf" where
  "dynbuf_new initial =
     (let sz = ucast initial :: u32 in
      \<lparr>contents = [], alloc = (if sz \<noteq> 0 then Some (unat sz) else None), buf_size = sz\<rparr>)"

definition capacity :: "dynbuf \<Rightarrow> nat" where
  "capacity b = (case alloc b of None \<Rightarrow> 0 | Some n \<Rightarrow> n)"

definition buf_fill :: "dynbuf \<Rightarrow> u64" where
  "buf_fill b = of_nat (length (contents b))"

definition buf_remaining :: "dynbuf \<Rightarrow> u64" where
  "buf_remaining b = ucast (buf_size b) - buf_fill b"

text \<open>Only the first \<open>new_size\<close> bytes of the new allocation can be written. Without copying, the bytes before
  \<^verbatim>\<open>ptr\<close> are uninitialised, which the model shows as zeros; the only callers that ask for this
  (\<^verbatim>\<open>BlockCompressionCodecBmz\<close>) have an empty buffer.\<close>

definition buf_grow :: "u64 \<Rightarrow> bool \<Rightarrow> dynbuf \<Rightarrow> dynbuf result" where
  "buf_grow new_size nocopy b =
     (if \<not> nocopy \<and> unat new_size < length (contents b) then Inl UNDEFINED_BEHAVIOUR
      else Inr (b\<lparr>contents := (if nocopy then replicate (length (contents b)) 0 else contents b),
                  alloc := Some (unat new_size), buf_size := ucast new_size\<rparr>))"

definition buf_ensure :: "u64 \<Rightarrow> dynbuf \<Rightarrow> dynbuf result" where
  "buf_ensure len b = (if buf_remaining b < len then buf_grow ((buf_fill b + len) * 3 div 2) False b else Inr b)"

definition buf_reserve :: "u64 \<Rightarrow> bool \<Rightarrow> dynbuf \<Rightarrow> dynbuf result" where
  "buf_reserve len nocopy b = (if buf_remaining b < len then buf_grow (buf_fill b + len) nocopy b else Inr b)"

text \<open>Adding from a null pointer does nothing; \<open>data\<close> is the \<open>len\<close> bytes that are read.\<close>

definition buf_add_unchecked :: "bytes option \<Rightarrow> dynbuf \<Rightarrow> dynbuf result" where
  "buf_add_unchecked data b =
     (case data of None \<Rightarrow> Inr b
      | Some d \<Rightarrow>
          if capacity b < length (contents b) + length d then Inl UNDEFINED_BEHAVIOUR
          else Inr (b\<lparr>contents := contents b @ d\<rparr>))"

definition buf_add :: "bytes \<Rightarrow> dynbuf \<Rightarrow> dynbuf result" where
  "buf_add d b = rbind (buf_ensure (of_nat (length d)) b) (buf_add_unchecked (Some d))"

definition buf_clear :: "dynbuf \<Rightarrow> dynbuf" where
  "buf_clear b = b\<lparr>contents := []\<rparr>"

definition buf_set :: "bytes \<Rightarrow> dynbuf \<Rightarrow> dynbuf result" where
  "buf_set d b = rbind (buf_reserve (of_nat (length d)) False (buf_clear b)) (buf_add_unchecked (Some d))"

definition buf_free :: "dynbuf \<Rightarrow> dynbuf" where
  "buf_free b = b\<lparr>contents := [], alloc := None, buf_size := 0\<rparr>"

definition buf_release :: "dynbuf \<Rightarrow> bytes \<times> dynbuf" where
  "buf_release b = (contents b, b\<lparr>contents := [], alloc := None, buf_size := 0\<rparr>)"

section \<open>Invariant\<close>

definition dynbuf_inv :: "dynbuf \<Rightarrow> bool" where
  "dynbuf_inv b \<longleftrightarrow> unat (buf_size b) = capacity b \<and> length (contents b) \<le> capacity b"

lemma unat_fill: "dynbuf_inv b \<Longrightarrow> unat (buf_fill b) = length (contents b)"
  using unat_lt2p [of "buf_size b"] unfolding dynbuf_inv_def buf_fill_def by (intro unat_of_nat_small) simp

lemma unat_remaining: "dynbuf_inv b \<Longrightarrow> unat (buf_remaining b) = capacity b - length (contents b)"
proof -
  assume inv: "dynbuf_inv b"
  have "unat (ucast (buf_size b) :: u64) = unat (buf_size b)"
    using unat_lt2p [of "buf_size b"] unat_of_nat_small [of "unat (buf_size b)", where 'a = 64] by simp
  with inv show ?thesis
    using unat_minus_of_nat [of "length (contents b)" "ucast (buf_size b) :: u64"]
    by (simp add: buf_remaining_def buf_fill_def dynbuf_inv_def)
qed

lemma unat_3_div_2:
  assumes "unat (w :: u64) = n" and "n * 3 div 2 < 2 ^ 32"
  shows "unat (w * 3 div 2) = n * 3 div 2"
proof -
  have "n * 3 < 2 ^ 64" using assms(2) by simp
  then have "unat (w * 3) = n * 3" using assms(1) by (simp add: unat_word_ariths)
  then show ?thesis by (simp add: unat_div)
qed

lemma buf_grow_ok:
  assumes "length (contents b) \<le> unat n" and "unat n < 2 ^ 32"
  shows "\<exists>b'. buf_grow n False b = Inr b' \<and> dynbuf_inv b' \<and> contents b' = contents b \<and> capacity b' = unat n"
proof -
  have "unat (ucast n :: u32) = unat n"
    using assms(2) unat_of_nat_small [of "unat n", where 'a = 32] by simp
  with assms(1) show ?thesis by (simp add: buf_grow_def dynbuf_inv_def capacity_def)
qed

lemma buf_ensure_ok:
  assumes inv: "dynbuf_inv b" and len: "(length (contents b) + n) * 3 div 2 < 2 ^ 32"
  shows "\<exists>b'. buf_ensure (of_nat n) b = Inr b' \<and> dynbuf_inv b' \<and> contents b' = contents b
    \<and> length (contents b) + n \<le> capacity b'"
proof -
  let ?l = "length (contents b)"
  have n: "unat (of_nat n :: u64) = n" using len by (intro unat_of_nat_small) simp
  show ?thesis
  proof (cases "buf_remaining b < of_nat n")
    case True
    have "unat (buf_fill b + of_nat n) = ?l + n"
      using n len unat_fill [OF inv] by (simp add: unat_word_ariths)
    then have "unat ((buf_fill b + of_nat n) * 3 div 2) = (?l + n) * 3 div 2"
      using len by (rule unat_3_div_2)
    moreover have "?l + n \<le> (?l + n) * 3 div 2" by (simp add: less_eq_div_iff_mult_less_eq)
    ultimately show ?thesis
      using buf_grow_ok [of b "(buf_fill b + of_nat n) * 3 div 2"] len True by (auto simp: buf_ensure_def)
  next
    case False
    then have "n \<le> capacity b - ?l" using unat_remaining [OF inv] n by (simp add: word_le_nat_alt not_less)
    with False inv show ?thesis by (auto simp: buf_ensure_def dynbuf_inv_def)
  qed
qed

lemma buf_reserve_ok:
  assumes inv: "dynbuf_inv b" and len: "length (contents b) + n < 2 ^ 32"
  shows "\<exists>b'. buf_reserve (of_nat n) False b = Inr b' \<and> dynbuf_inv b' \<and> contents b' = contents b
    \<and> length (contents b) + n \<le> capacity b'"
proof -
  let ?l = "length (contents b)"
  have n: "unat (of_nat n :: u64) = n" using len by (intro unat_of_nat_small) simp
  show ?thesis
  proof (cases "buf_remaining b < of_nat n")
    case True
    have "unat (buf_fill b + of_nat n) = ?l + n"
      using n len unat_fill [OF inv] by (simp add: unat_word_ariths)
    then show ?thesis
      using buf_grow_ok [of b "buf_fill b + of_nat n"] len True by (auto simp: buf_reserve_def)
  next
    case False
    then have "n \<le> capacity b - ?l" using unat_remaining [OF inv] n by (simp add: word_le_nat_alt not_less)
    with False inv show ?thesis by (auto simp: buf_reserve_def dynbuf_inv_def)
  qed
qed

lemma buf_add_unchecked_ok:
  assumes "dynbuf_inv b" and "length (contents b) + length d \<le> capacity b"
  shows "\<exists>b'. buf_add_unchecked (Some d) b = Inr b' \<and> dynbuf_inv b' \<and> contents b' = contents b @ d"
  using assms by (simp add: buf_add_unchecked_def dynbuf_inv_def capacity_def)

lemma dynbuf_inv_new: "dynbuf_inv (dynbuf_new n)"
  by (simp add: dynbuf_inv_def dynbuf_new_def capacity_def Let_def)

lemma dynbuf_inv_reset: "dynbuf_inv b \<Longrightarrow> dynbuf_inv (buf_clear b)" "dynbuf_inv (buf_free b)" "dynbuf_inv (snd (buf_release b))"
  by (simp_all add: dynbuf_inv_def buf_clear_def buf_free_def buf_release_def capacity_def)

section \<open>Properties\<close>

text \<open>C35. Appending to a buffer. As long as one and a half times the new fill stays below \<^verbatim>\<open>2^32\<close>, any
  sequence of appended blocks is stored in order, no copy leaves the allocation, and the size
  field agrees with the allocation.\<close>

theorem buf_add_sequence:
  assumes "dynbuf_inv b" and "(length (contents b) + length (concat ds)) * 3 div 2 < 2 ^ 32"
  shows "\<exists>b'. foldl (\<lambda>r d. rbind r (buf_add d)) (Inr b) ds = Inr b' \<and> dynbuf_inv b'
    \<and> contents b' = contents b @ concat ds"
  using assms
proof (induction ds arbitrary: b)
  case (Cons d ds)
  have "(length (contents b) + length d) * 3 div 2 < 2 ^ 32" using Cons.prems(2) by simp
  then obtain b1 where b1: "buf_ensure (of_nat (length d)) b = Inr b1" "dynbuf_inv b1" "contents b1 = contents b"
      "length (contents b) + length d \<le> capacity b1"
    using buf_ensure_ok [OF Cons.prems(1)] by blast
  then obtain b2 where b2: "buf_add_unchecked (Some d) b1 = Inr b2" "dynbuf_inv b2" "contents b2 = contents b @ d"
    using buf_add_unchecked_ok [of b1 d] by auto
  with Cons.IH [of b2] Cons.prems(2) show ?case by (simp add: buf_add_def b1 add.assoc)
qed simp

theorem buf_add_sequence_witness:
  "\<exists>b'. foldl (\<lambda>r d. rbind r (buf_add d)) (Inr (dynbuf_new 0)) [[1, 2], [3]] = Inr b' \<and> contents b' = [1, 2, 3]"
  using buf_add_sequence [of "dynbuf_new 0" "[[1, 2], [3]]"]
  by (auto simp: dynbuf_inv_new) (auto simp: dynbuf_new_def)

text \<open>Past four gigabytes the size field wraps. When a buffer grows to \<^verbatim>\<open>2^32\<close> bytes or more the
  32-bit size keeps only the low half, \<open>buf_remaining\<close> wraps to a huge value, later appends no longer
  grow the buffer, and the first one that does not fit the allocation writes behind it.\<close>

lemma buf_size_wraps:
  assumes "length (contents b) < 2 ^ 32" and "alloc b = Some (2 ^ 32)" and "buf_size b = ucast (2 ^ 32 :: u64)"
    and "0 < length (contents b)" and "2 ^ 32 < length (contents b) + length d" and "length d < 2 ^ 32"
  shows "buf_add d b = Inl UNDEFINED_BEHAVIOUR"
proof -
  let ?l = "length (contents b)"
  have sz: "ucast (buf_size b) = (0 :: u64)" by (simp add: assms(3))
  have l: "unat (of_nat ?l :: u64) = ?l" using assms(1) by (intro unat_of_nat_small) simp
  have d: "unat (of_nat (length d) :: u64) = length d" using assms(6) by (intro unat_of_nat_small) simp
  have "unat (0 - of_nat ?l :: u64) = 2 ^ 64 - ?l"
    using l assms(1,4) by (subst unat_sub_if') (simp add: word_le_nat_alt)
  then have "unat (buf_remaining b) = 2 ^ 64 - ?l"
    by (simp only: buf_remaining_def buf_fill_def sz)
  then have "\<not> buf_remaining b < of_nat (length d)" using assms(1,6) by (simp add: word_less_nat_alt d)
  then show ?thesis
    using assms(2,5) by (simp add: buf_add_def buf_ensure_def buf_add_unchecked_def capacity_def)
qed

end
