(* ===== verification/BlockCompression.thy ===== *)
theory BlockCompression
  imports Serialization Checksum
begin

text \<open>
  Block headers and the identity block codec (\<^verbatim>\<open>BlockCompressionHeader.cc\<close>,
  \<^verbatim>\<open>BlockCompressionHeaderCommitLog.cc\<close>, \<^verbatim>\<open>BlockCompressionCodecNone.cc\<close> in \<^verbatim>\<open>Hypertable/Lib\<close>), the frame of every cell
  store block and of every commit log block. A header of the derived class
  \<^verbatim>\<open>BlockCompressionHeaderCommitLog\<close> is one with a timestamp; the virtual functions dispatch on it.
  The properties are the round trip of a block and the detection of a changed byte anywhere in it.
\<close>

section \<open>Headers\<close>

record block_header =
  magic :: bytes
  data_length :: u32
  data_zlength :: u32
  data_checksum :: u32
  compression_type :: u16
  hdr_timestamp :: "u64 option"

text \<open>\<^verbatim>\<open>enum Type\<close>\<close>

definition NONE :: u16 where "NONE = 0"
definition COMPRESSION_TYPE_LIMIT :: u16 where "COMPRESSION_TYPE_LIMIT = 5"

definition header_new :: "bytes \<Rightarrow> block_header" where
  "header_new m = \<lparr>magic = take 10 m, data_length = 0, data_zlength = 0, data_checksum = 0,
     compression_type = - 1, hdr_timestamp = None\<rparr>"

definition header_new_commit_log :: "bytes \<Rightarrow> u64 \<Rightarrow> block_header" where
  "header_new_commit_log m ts = (header_new m)\<lparr>hdr_timestamp := Some ts\<rparr>"

definition check_magic :: "bytes \<Rightarrow> block_header \<Rightarrow> bool" where
  "check_magic m h \<longleftrightarrow> take 10 m = magic h"

definition header_length :: "block_header \<Rightarrow> nat" where
  "header_length h = (case hdr_timestamp h of None \<Rightarrow> 26 | Some _ \<Rightarrow> 26 + 8)"

text \<open>The checksum is truncated to 16 bits; \<open>out\<close> is what has been written since \<^verbatim>\<open>base\<close>.\<close>

definition write_header_checksum :: "bytes \<Rightarrow> bytes" where
  "write_header_checksum out = out @ encode_i16 (ucast (fletcher32 out))"

definition base_encode :: "block_header \<Rightarrow> bytes" where
  "base_encode h =
     (let out = magic h @ [of_nat (header_length h)] @ [ucast (compression_type h)]
        @ encode_i32 (data_checksum h) @ encode_i32 (data_length h) @ encode_i32 (data_zlength h)
      in if length out + 2 = header_length h then write_header_checksum out else out)"

definition header_encode :: "block_header \<Rightarrow> bytes" where
  "header_encode h =
     (case hdr_timestamp h of None \<Rightarrow> base_encode h
      | Some ts \<Rightarrow>
          let out = base_encode h @ encode_i64 ts
          in if length out + 2 = header_length h then write_header_checksum out else out)"

text \<open>The two bytes skipped once the checksum is reached.\<close>

definition skip_checksum :: "bytes \<Rightarrow> block_header \<Rightarrow> unit decoder" where
  "skip_checksum base h = (\<lambda>(ip, r).
     if length base - length ip = header_length h - 2 then rbind (advance 2 ip) (\<lambda>ip. Inr ((), ip, r - 2))
     else Inr ((), ip, r))"

definition base_decode :: "block_header \<Rightarrow> block_header decoder" where
  "base_decode h = (\<lambda>(base, r).
     let len = header_length h in
     if r < of_nat len then Inl BLOCK_COMPRESSOR_TRUNCATED
     else if length base < len then Inl UNDEFINED_BEHAVIOUR
     else
       let computed = ucast (fletcher32 (take (len - 2) base)) :: u16 in
       rbind (decode_i16 (drop (len - 2) base, 2)) (\<lambda>(header_checksum, _).
       if computed \<noteq> header_checksum then Inl BLOCK_COMPRESSOR_BAD_HEADER
       else dbind decode_byte (\<lambda>header_length c.
         if unat header_length \<noteq> len then Inl BLOCK_COMPRESSOR_BAD_HEADER
         else dbind decode_byte (\<lambda>type c.
           if COMPRESSION_TYPE_LIMIT \<le> ucast type then Inl BLOCK_COMPRESSOR_BAD_HEADER
           else dbind decode_i32 (\<lambda>cs. dbind decode_i32 (\<lambda>dl. dbind decode_i32 (\<lambda>zl.
             dbind (skip_checksum base h) (\<lambda>_. dret (h\<lparr>magic := take 10 base, compression_type := ucast type,
               data_checksum := cs, data_length := dl, data_zlength := zl\<rparr>))))) c) c) (drop 10 base, r - 10)))"

definition header_decode :: "block_header \<Rightarrow> block_header decoder" where
  "header_decode h = (\<lambda>(base, r).
     case hdr_timestamp h of None \<Rightarrow> base_decode h (base, r)
     | Some _ \<Rightarrow> dbind (base_decode h) (\<lambda>h. dbind decode_i64 (\<lambda>ts.
         dbind (skip_checksum base h) (\<lambda>_. dret (h\<lparr>hdr_timestamp := Some ts\<rparr>)))) (base, r))"

section \<open>The identity codec\<close>

text \<open>\<open>deflate\<close> fills the output with the header and a copy of the input; the reserved extra space is not
  written. The header object is returned updated.\<close>

definition deflate_none :: "bytes \<Rightarrow> block_header \<Rightarrow> bytes \<times> block_header" where
  "deflate_none input h =
     (let h = h\<lparr>compression_type := NONE, data_length := of_nat (length input), data_zlength := of_nat (length input)\<rparr>;
          h = h\<lparr>data_checksum := fletcher32 (take (unat (data_zlength h)) input)\<rparr>
      in (header_encode h @ take (unat (data_zlength h)) input, h))"

definition inflate_none :: "bytes \<Rightarrow> block_header \<Rightarrow> (bytes \<times> block_header) result" where
  "inflate_none input h =
     rbind (header_decode h (input, of_nat (length input))) (\<lambda>(h, msg, rem).
     if ucast (data_zlength h) \<noteq> rem then Inl BLOCK_COMPRESSOR_BAD_HEADER
     else if length msg < unat rem then Inl UNDEFINED_BEHAVIOUR
     else if fletcher32 (take (unat rem) msg) \<noteq> data_checksum h then Inl BLOCK_COMPRESSOR_CHECKSUM_MISMATCH
     else if length msg < unat (data_length h) then Inl UNDEFINED_BEHAVIOUR
     else Inr (take (unat (data_length h)) msg, h))"

section \<open>Lemmas\<close>

subsection \<open>Encoding and decoding a header\<close>

definition header_ok :: "block_header \<Rightarrow> bool" where
  "header_ok h \<longleftrightarrow> length (magic h) = 10 \<and> compression_type h < COMPRESSION_TYPE_LIMIT"

definition header_fields :: "block_header \<Rightarrow> bytes" where
  "header_fields h = magic h @ [of_nat (header_length h)] @ [ucast (compression_type h)]
     @ encode_i32 (data_checksum h) @ encode_i32 (data_length h) @ encode_i32 (data_zlength h)"

definition header_body :: "block_header \<Rightarrow> bytes" where
  "header_body h = header_fields h @ (case hdr_timestamp h of None \<Rightarrow> [] | Some ts \<Rightarrow> encode_i64 ts)"

lemma length_header_body [simp]:
  "length (magic h) = 10 \<Longrightarrow> length (header_body h) = header_length h - 2"
  by (simp add: header_body_def header_fields_def header_length_def split: option.split)

lemma header_encode_eq:
  assumes "length (magic h) = 10"
  shows "header_encode h = header_body h @ encode_i16 (ucast (fletcher32 (header_body h)))"
  using assms
  by (cases "hdr_timestamp h")
    (simp_all add: header_encode_def base_encode_def write_header_checksum_def header_body_def header_fields_def
      header_length_def Let_def)

lemma length_header_encode [simp]:
  "length (magic h) = 10 \<Longrightarrow> length (header_encode h) = header_length h"
  by (simp add: header_encode_eq) (simp add: header_length_def split: option.split)

text \<open>Steps of a decoder over known bytes.\<close>

lemma unat_sub_numeral: "numeral k \<le> unat (r :: 'a::len word) \<Longrightarrow> unat (r - numeral k) = unat r - numeral k"
  using unat_minus_of_nat [of "numeral k" r] by simp

lemma decode_i8_run: "1 \<le> unat r \<Longrightarrow> decode_i8 (x # rest, r) = Inr (x, rest, r - 1)"
  using i8.dec_enc [of x "[x]" r rest] by (simp add: encode_i8_def)

lemma decode_i32_run: "4 \<le> unat r \<Longrightarrow> decode_i32 (encode_i32 v @ rest, r) = Inr (v, rest, r - 4)"
  using i32.dec_enc [of v "encode_i32 v" r rest] by simp

lemma decode_i64_run: "8 \<le> unat r \<Longrightarrow> decode_i64 (encode_i64 v @ rest, r) = Inr (v, rest, r - 8)"
  using i64.dec_enc [of v "encode_i64 v" r rest] by simp

lemma decode_i16_run: "decode_i16 (encode_i16 v @ rest, 2) = Inr (v, rest, 0)"
  using i16.dec_enc [of v "encode_i16 v" 2 rest] by simp

lemmas decode_runs = decode_i8_run decode_i32_run decode_i64_run decode_i16_run

lemma ucast_small_byte: "t < COMPRESSION_TYPE_LIMIT \<Longrightarrow> ucast (ucast t :: byte) = t"
proof -
  assume "t < COMPRESSION_TYPE_LIMIT"
  then have "unat t < 5" by (simp add: COMPRESSION_TYPE_LIMIT_def word_less_nat_alt)
  then have "take_bit 8 t = t"
    by (simp add: word_unat_eq_iff unsigned_take_bit_eq take_bit_nat_eq_self del: take_bit_word_all)
  then show ?thesis by (simp add: ucast_ucast_byte)
qed

lemma base_decode_run:
  assumes ok: "header_ok h'" and cls: "header_length h = header_length h'" and r: "header_length h' \<le> unat r"
    and base: "base = header_body h' @ encode_i16 (ucast (fletcher32 (header_body h'))) @ rest"
  shows "base_decode h (base, r) =
    (let h1 = h\<lparr>magic := magic h', compression_type := compression_type h', data_checksum := data_checksum h',
          data_length := data_length h', data_zlength := data_zlength h'\<rparr>
     in if hdr_timestamp h' = None then Inr (h1, rest, r - 26)
        else Inr (h1, drop 24 base, r - 24))"
proof -
  have m: "length (magic h') = 10" and t: "compression_type h' < COMPRESSION_TYPE_LIMIT"
    using ok by (simp_all add: header_ok_def)
  have body: "take (header_length h' - 2) base = header_body h'"
    "drop (header_length h' - 2) base = encode_i16 (ucast (fletcher32 (header_body h'))) @ rest"
    using m by (simp_all add: base)
  have hl: "header_length h' = 26 \<or> header_length h' = 34" by (simp add: header_length_def split: option.split)
  then have n: "unat (of_nat (header_length h') :: byte) = header_length h'"
    "unat (of_nat (header_length h') :: u64) = header_length h'" by auto
  have lb: "header_length h' \<le> length base" using hl by (auto simp: base m)
  obtain ts where base': "base = magic h' @ of_nat (header_length h') # ucast (compression_type h') #
      encode_i32 (data_checksum h') @ encode_i32 (data_length h') @ encode_i32 (data_zlength h') @ ts"
    "ts = drop 24 base"
    using m by (simp add: base header_body_def header_fields_def)
  have ts: "hdr_timestamp h' = None \<Longrightarrow> ts = encode_i16 (ucast (fletcher32 (header_body h'))) @ rest"
    using m unfolding base'(2) by (simp add: base header_body_def header_fields_def)
  have lts: "length base - length ts = 24" using base'(2) lb hl by auto
  have "base_decode h (base, r) = dbind (skip_checksum base h) (\<lambda>_. dret (h\<lparr>magic := magic h',
      compression_type := compression_type h', data_checksum := data_checksum h',
      data_length := data_length h', data_zlength := data_zlength h'\<rparr>)) (ts, r - 24)"
  proof -
    have c: "(r < of_nat (header_length h')) = False" "(COMPRESSION_TYPE_LIMIT \<le> compression_type h') = False"
      "(length base < header_length h') = False"
      using r t lb by (simp_all add: word_less_nat_alt n not_le not_less)
    have "take 10 base = magic h'" "drop 10 base = of_nat (header_length h') # ucast (compression_type h') #
      encode_i32 (data_checksum h') @ encode_i32 (data_length h') @ encode_i32 (data_zlength h') @ ts"
      using m by (simp_all add: base'(1))
    moreover have "26 \<le> unat r" using r hl by auto
    ultimately show ?thesis
      using t
      by (simp add: base_decode_def Let_def cls body decode_runs dbind_apply decode_byte_def n unat_sub_numeral
          ucast_small_byte c diff_diff_eq)
  qed
  also have "\<dots> = (let h1 = h\<lparr>magic := magic h', compression_type := compression_type h',
      data_checksum := data_checksum h', data_length := data_length h', data_zlength := data_zlength h'\<rparr>
     in if hdr_timestamp h' = None then Inr (h1, rest, r - 26) else Inr (h1, drop 24 base, r - 24))"
    using ts lts cls
    by (auto simp: dbind_apply skip_checksum_def header_length_def advance_def base'(2) diff_diff_eq Let_def
        split: option.splits)
  finally show ?thesis .
qed

lemma header_decode_run:
  assumes ok: "header_ok h'" and cls: "(hdr_timestamp h = None) = (hdr_timestamp h' = None)"
    and r: "header_length h' \<le> unat r"
  shows "header_decode h (header_encode h' @ rest, r) = Inr (h', rest, r - of_nat (header_length h'))"
proof -
  have m: "length (magic h') = 10" using ok by (simp add: header_ok_def)
  have l: "header_length h = header_length h'" using cls by (auto simp: header_length_def split: option.splits)
  have e: "header_encode h' @ rest = header_body h' @ encode_i16 (ucast (fletcher32 (header_body h'))) @ rest"
    by (simp add: header_encode_eq m)
  note run = base_decode_run [OF ok l r e]
  show ?thesis
  proof (cases "hdr_timestamp h'")
    case None
    with cls have "h\<lparr>magic := magic h', compression_type := compression_type h', data_checksum := data_checksum h',
        data_length := data_length h', data_zlength := data_zlength h'\<rparr> = h'"
      by (cases h; cases h') simp
    with None cls run show ?thesis by (simp add: header_decode_def header_length_def)
  next
    case (Some ts)
    with cls obtain ts0 where ts0: "hdr_timestamp h = Some ts0" by auto
    have h': "h\<lparr>magic := magic h', compression_type := compression_type h', data_checksum := data_checksum h',
        data_length := data_length h', data_zlength := data_zlength h', hdr_timestamp := Some ts\<rparr> = h'"
      using Some by (cases h; cases h') simp
    let ?cs = "encode_i16 (ucast (fletcher32 (header_body h')))"
    have "34 \<le> unat r" using r Some by (simp add: header_length_def)
    moreover have "drop 24 (header_encode h' @ rest) = encode_i64 ts @ ?cs @ rest"
      using Some m unfolding e by (simp add: header_body_def header_fields_def)
    ultimately show ?thesis
      using run Some ts0 m h'
      by (simp add: header_decode_def dbind_apply decode_runs unat_sub_numeral skip_checksum_def header_length_def
          advance_def diff_diff_eq)
  qed
qed

text \<open>The decoder looks at the header's checksum first.\<close>

lemma header_decode_bad_checksum:
  assumes "header_length h \<le> length base" and "header_length h \<le> unat r"
    and "decode_i16 (drop (header_length h - 2) base, 2) = Inr (c, q)"
    and "ucast (fletcher32 (take (header_length h - 2) base)) \<noteq> c"
  shows "header_decode h (base, r) = Inl BLOCK_COMPRESSOR_BAD_HEADER"
proof -
  have "unat (of_nat (header_length h) :: u64) = header_length h"
    by (intro unat_of_nat_small) (simp add: header_length_def split: option.split)
  then have n: "(r < of_nat (header_length h)) = False"
    using assms(2) by (simp add: word_less_nat_alt)
  have "base_decode h (base, r) = Inl BLOCK_COMPRESSOR_BAD_HEADER"
    using assms n by (simp add: base_decode_def Let_def)
  then show ?thesis by (simp add: header_decode_def dbind_Inl split: option.split)
qed


subsection \<open>What the checksum detects\<close>

lemma fst_mod_sums: "fst (mod_sums m (a, b) xs) mod m = (a + sum_list xs) mod m"
  by (induction xs arbitrary: a b) (simp_all add: mod_simps add.assoc)

lemma ucast_low_half: "b < 2 ^ 16 \<Longrightarrow> a < 2 ^ 16 \<Longrightarrow> unat (ucast (of_nat (b * 2 ^ 16 + a) :: u32) :: u16) = a"
proof -
  assume "b < 2 ^ 16" "a < 2 ^ 16"
  then have "unat (of_nat (b * 2 ^ 16 + a) :: u32) = b * 2 ^ 16 + a" by (intro unat_of_nat_small) simp
  moreover have "unat (ucast w :: u16) = unat w mod 2 ^ 16" for w :: u32
    by (simp add: unsigned_ucast_eq take_bit_eq_mod)
  ultimately show ?thesis using \<open>a < 2 ^ 16\<close> by simp
qed

lemma fletcher16_eq: "unat (ucast (fletcher32 d) :: u16) = f32_norm (sum_list (be_words d))"
proof -
  obtain s1 s2 where s: "mod_sums 65535 (0, 0) (be_words d) = (s1, s2)" by (metis prod.exhaust)
  have "f32_norm s1 = f32_norm (sum_list (be_words d))"
    using fst_mod_sums [of 65535 0 0 "be_words d"] s by (intro f32_norm_mod) simp
  then show ?thesis
    using ucast_low_half [OF f32_norm_less f32_norm_less, of s2 s1] by (simp add: fletcher32_eq_ref fletcher32_ref_def s)
qed

lemma f32_norm_inject: "f32_norm x = f32_norm y \<Longrightarrow> x mod 65535 = y mod 65535"
  using mod_less_divisor [of 65535 x] mod_less_divisor [of 65535 y]
  by (auto simp: f32_norm_def split: if_splits)

lemma sum_be_words_update:
  assumes "i < length d"
  shows "\<exists>w. (w = 1 \<or> w = 256) \<and> sum_list (be_words (d[i := y])) + w * unat (d ! i) = sum_list (be_words d) + w * unat y"
  using assms
proof (induction d arbitrary: i rule: be_words.induct)
  case (1 a b r)
  show ?case
  proof (cases i)
    case (Suc j)
    then show ?thesis
    proof (cases j)
      case (Suc k)
      with \<open>i = Suc j\<close> 1 show ?thesis using "1.IH" [of k] by auto
    qed (auto intro: exI [of _ 1])
  qed (auto intro: exI [of _ 256])
qed (auto intro: exI [of _ 256])

text \<open>Changing one byte changes even the lower half of the checksum.\<close>

lemma fletcher16_byte_change:
  assumes i: "i < length d" and y: "y \<noteq> d ! i"
  shows "(ucast (fletcher32 (d[i := y])) :: u16) \<noteq> ucast (fletcher32 d)"
proof
  assume "(ucast (fletcher32 (d[i := y])) :: u16) = ucast (fletcher32 d)"
  then have "f32_norm (sum_list (be_words (d[i := y]))) = f32_norm (sum_list (be_words d))"
    by (simp flip: fletcher16_eq)
  then have eq: "sum_list (be_words (d[i := y])) mod 65535 = sum_list (be_words d) mod 65535"
    by (rule f32_norm_inject)
  obtain w where w: "w = 1 \<or> w = 256"
    and s: "sum_list (be_words (d[i := y])) + w * unat (d ! i) = sum_list (be_words d) + w * unat y"
    using sum_be_words_update [OF i] by blast
  have "(sum_list (be_words d) + w * unat (d ! i)) mod 65535 = (sum_list (be_words d) + w * unat y) mod 65535"
    using mod_add_cong [OF eq refl, of "w * unat (d ! i)"] s by simp
  then have "w * unat (d ! i) mod 65535 = w * unat y mod 65535"
    by (simp add: nat_mod_eq_iff [of "_ + _"]) (simp add: nat_mod_eq_iff)
  moreover have "unat (d ! i) < 256" "unat y < 256" using unat_lt2p [of "d ! i"] unat_lt2p [of y] by simp_all
  ultimately have "w * unat (d ! i) = w * unat y" using w by auto
  with w y show False by (auto simp: word_unat_eq_iff)
qed

lemma fletcher32_byte_change:
  "i < length d \<Longrightarrow> y \<noteq> d ! i \<Longrightarrow> fletcher32 (d[i := y]) \<noteq> fletcher32 d"
  using fletcher16_byte_change by metis

subsection \<open>Blocks\<close>

text \<open>Inflating a well-formed header in front of some payload.\<close>

lemma inflate_none_run:
  assumes "header_ok h'" and "(hdr_timestamp h = None) = (hdr_timestamp h' = None)"
    and "length msg < 2 ^ 32" and "unat (data_zlength h') = length msg"
  shows "inflate_none (header_encode h' @ msg) h =
    (if fletcher32 msg \<noteq> data_checksum h' then Inl BLOCK_COMPRESSOR_CHECKSUM_MISMATCH
     else if length msg < unat (data_length h') then Inl UNDEFINED_BEHAVIOUR
     else Inr (take (unat (data_length h')) msg, h'))"
proof -
  let ?r = "of_nat (length (header_encode h' @ msg)) :: u64"
  have hl: "length (header_encode h') = header_length h'" "header_length h' \<le> 34"
    using assms(1) by (auto simp: header_ok_def header_length_def split: option.splits)
  then have r: "unat ?r = header_length h' + length msg"
    using assms(3) by (subst unat_of_nat_small) simp_all
  have "header_decode h (header_encode h' @ msg, ?r) = Inr (h', msg, ?r - of_nat (header_length h'))"
    using assms(1,2) r by (intro header_decode_run) simp_all
  moreover have "?r - of_nat (header_length h') = of_nat (length msg)" by (simp add: hl)
  moreover have "ucast (data_zlength h') = (of_nat (length msg) :: u64)" by (metis assms(4) of_nat_unat)
  moreover have "unat (of_nat (length msg) :: u64) = length msg" using assms(3) by (intro unat_of_nat_small) simp
  ultimately show ?thesis by (simp add: inflate_none_def)
qed

lemma deflate_none_header:
  assumes "length (magic h) = 10" and "length input < 2 ^ 32"
  shows "header_ok (snd (deflate_none input h))" "hdr_timestamp (snd (deflate_none input h)) = hdr_timestamp h"
    and "unat (data_zlength (snd (deflate_none input h))) = length input"
    and "unat (data_length (snd (deflate_none input h))) = length input"
    and "data_checksum (snd (deflate_none input h)) = fletcher32 input"
    and "fst (deflate_none input h) = header_encode (snd (deflate_none input h)) @ input"
proof -
  have "unat (of_nat (length input) :: u32) = length input" using assms(2) by (intro unat_of_nat_small) simp
  then show "header_ok (snd (deflate_none input h))" "hdr_timestamp (snd (deflate_none input h)) = hdr_timestamp h"
    "unat (data_zlength (snd (deflate_none input h))) = length input"
    "unat (data_length (snd (deflate_none input h))) = length input"
    "data_checksum (snd (deflate_none input h)) = fletcher32 input"
    "fst (deflate_none input h) = header_encode (snd (deflate_none input h)) @ input"
    using assms by (simp_all add: deflate_none_def Let_def header_ok_def NONE_def COMPRESSION_TYPE_LIMIT_def)
qed

lemma header_change_detected:
  assumes h': "length (magic h') = 10" and i: "i < header_length h'" and y: "y \<noteq> (header_encode h') ! i"
    and l: "header_length h = header_length h'" and r: "header_length h' \<le> unat r"
  shows "header_decode h ((header_encode h')[i := y] @ msg, r) = Inl BLOCK_COMPRESSOR_BAD_HEADER"
proof -
  let ?n = "header_length h' - 2" and ?b = "header_body h'" and ?c = "ucast (fletcher32 (header_body h')) :: u16"
  have n: "2 \<le> header_length h'" by (simp add: header_length_def split: option.split)
  have b: "length ?b = ?n" using h' by simp
  have e: "header_encode h' = ?b @ encode_i16 ?c" by (simp add: header_encode_eq h')
  show ?thesis
  proof (cases "i < ?n")
    case True
    then have eq: "(header_encode h')[i := y] @ msg = ?b[i := y] @ encode_i16 ?c @ msg"
      by (simp add: e b list_update_append)
    show ?thesis
      unfolding eq
    proof (rule header_decode_bad_checksum)
      show "decode_i16 (drop (header_length h - 2) (?b[i := y] @ encode_i16 ?c @ msg), 2) = Inr (?c, msg, 0)"
        by (simp add: l b decode_i16_run)
      show "ucast (fletcher32 (take (header_length h - 2) (?b[i := y] @ encode_i16 ?c @ msg))) \<noteq> ?c"
        using fletcher16_byte_change [of i ?b y] True y by (simp add: l b e nth_append)
    qed (use n r in \<open>simp_all add: l b\<close>)
  next
    case False
    define j where "j = i - ?n"
    have j: "i = ?n + j" "j < 2" using False i n by (auto simp: j_def)
    let ?c' = "(encode_i16 ?c)[j := y]"
    have eq: "(header_encode h')[i := y] @ msg = ?b @ ?c' @ msg"
      by (simp add: e b j list_update_append)
    have "y \<noteq> encode_i16 ?c ! j" using y j b by (simp add: e nth_append)
    then have "?c' ! j \<noteq> encode_i16 ?c ! j" using j by simp
    then have "?c' \<noteq> encode_i16 ?c" by auto
    moreover have "le_split 2 (le_join ?c' :: u16) = ?c'"
      using le_split_join [of ?c', where 'a = 16] by simp
    ultimately have ne: "le_join ?c' \<noteq> ?c" by (auto simp: encode_i16_le_split)
    show ?thesis
      unfolding eq
    proof (rule header_decode_bad_checksum)
      show "decode_i16 (drop (header_length h - 2) (?b @ ?c' @ msg), 2) = Inr (le_join ?c', msg, 0)"
        by (simp add: l b fixed_decoders fixed_decoder_def need_def)
      show "ucast (fletcher32 (take (header_length h - 2) (?b @ ?c' @ msg))) \<noteq> (le_join ?c' :: u16)"
        using ne [symmetric] by (simp add: l b)
    qed (use n r in \<open>simp_all add: l b\<close>)
  qed
qed

section \<open>Properties\<close>

lemma inflate_deflate_none:
  assumes "length (magic h) = 10" and "length input < 2 ^ 32"
    and "(hdr_timestamp h0 = None) = (hdr_timestamp h = None)"
  shows "inflate_none (fst (deflate_none input h)) h0 = Inr (input, snd (deflate_none input h))"
  using deflate_none_header [OF assms(1,2)] assms(2,3) inflate_none_run [of "snd (deflate_none input h)" h0 input]
  by simp

text \<open>C31. A stored block comes back. Inflating what \<open>deflate\<close> wrote, with a header object of the same
  class, returns the original bytes and the header that was written, for a plain and for a commit
  log header, for any block below four gigabytes.\<close>

theorem block_roundtrip:
  assumes "length (magic h) = 10" and "length input < 2 ^ 32"
    and "(hdr_timestamp h0 = None) = (hdr_timestamp h = None)"
  shows "inflate_none (fst (deflate_none input h)) h0 = Inr (input, snd (deflate_none input h))"
  using assms by (rule inflate_deflate_none)

theorem block_roundtrip_witness:
  "inflate_none (fst (deflate_none [1, 2, 3] (header_new_commit_log (replicate 10 68) 5))) (header_new_commit_log [] 0)
    = Inr ([1, 2, 3], snd (deflate_none [1, 2, 3] (header_new_commit_log (replicate 10 68) 5)))"
  using block_roundtrip [of "header_new_commit_log (replicate 10 68) 5" "[1, 2, 3]" "header_new_commit_log [] 0"]
  by (simp add: header_new_commit_log_def header_new_def)

text \<open>C30. One changed byte is always noticed. Whichever byte of a stored block is replaced by another
  value, in the header, in its checksum or in the payload, \<open>inflate\<close> refuses the block with a header or a
  checksum error and never returns data.\<close>

theorem block_corruption_detected:
  assumes "length (magic h) = 10" and "length input < 2 ^ 32"
    and "(hdr_timestamp h0 = None) = (hdr_timestamp h = None)"
    and "i < length (fst (deflate_none input h))" and "y \<noteq> fst (deflate_none input h) ! i"
  shows "inflate_none ((fst (deflate_none input h))[i := y]) h0
    \<in> {Inl BLOCK_COMPRESSOR_BAD_HEADER, Inl BLOCK_COMPRESSOR_CHECKSUM_MISMATCH}"
proof -
  let ?h = "snd (deflate_none input h)"
  note d = deflate_none_header [OF assms(1,2)]
  have m: "length (magic ?h) = 10" using d(1) by (simp add: header_ok_def)
  have cls: "(hdr_timestamp h0 = None) = (hdr_timestamp ?h = None)" using assms(3) d(2) by simp
  then have l: "header_length h0 = header_length ?h" by (auto simp: header_length_def split: option.splits)
  have hl: "header_length ?h \<le> 34" by (simp add: header_length_def split: option.split)
  show ?thesis
  proof (cases "i < header_length ?h")
    case True
    let ?r = "of_nat (length ((header_encode ?h)[i := y] @ input)) :: u64"
    have "header_length ?h \<le> unat ?r"
      using assms(2) hl m by (subst unat_of_nat_small) simp_all
    then have "header_decode h0 ((header_encode ?h)[i := y] @ input, ?r) = Inl BLOCK_COMPRESSOR_BAD_HEADER"
      using m True assms(5) l d(6) by (intro header_change_detected) (simp_all add: nth_append)
    moreover have "(fst (deflate_none input h))[i := y] = (header_encode ?h)[i := y] @ input"
      using True m d(6) by (simp add: list_update_append)
    ultimately show ?thesis by (simp add: inflate_none_def del: length_append)
  next
    case False
    define j where "j = i - header_length ?h"
    have i: "i = header_length ?h + j" using False by (simp add: j_def)
    have eq: "(fst (deflate_none input h))[i := y] = header_encode ?h @ input[j := y]"
      using m d(6) by (simp add: i list_update_append)
    have "j < length input" "y \<noteq> input ! j" using assms(4,5) m d(6) by (simp_all add: i nth_append)
    then have "fletcher32 (input[j := y]) \<noteq> data_checksum ?h" by (simp add: d(5) fletcher32_byte_change)
    then show ?thesis
      unfolding eq using inflate_none_run [OF d(1) cls, of "input[j := y]"] assms(2) d(3) by simp
  qed
qed

theorem block_corruption_detected_witness:
  "inflate_none ((fst (deflate_none [1, 2, 3] (header_new (replicate 10 68))))[27 := 9]) (header_new [])
    \<in> {Inl BLOCK_COMPRESSOR_BAD_HEADER, Inl BLOCK_COMPRESSOR_CHECKSUM_MISMATCH}"
  using block_corruption_detected [of "header_new (replicate 10 68)" "[1, 2, 3]" "header_new []" 27 9]
  by (simp add: header_new_def deflate_none_def Let_def nth_append header_length_def)

text \<open>The identity codec trusts the uncompressed length. A block whose header passes every check and
  announces more uncompressed bytes than compressed ones makes \<open>inflate\<close> copy past the end of the
  block: \<open>data_length\<close> is never compared with the bytes that are there.\<close>

lemma inflate_none_overread:
  assumes "header_ok h'" and "(hdr_timestamp h = None) = (hdr_timestamp h' = None)"
    and "length msg < 2 ^ 32" and "unat (data_zlength h') = length msg"
    and "data_checksum h' = fletcher32 msg" and "length msg < unat (data_length h')"
  shows "inflate_none (header_encode h' @ msg) h = Inl UNDEFINED_BEHAVIOUR"
  using inflate_none_run [OF assms(1-4)] assms(5,6) by simp

end
