(* ===== verification/Keys.thy ===== *)
theory Keys
  imports Serialization
begin

text \<open>
  Byte strings and row keys (\<^verbatim>\<open>Common/ByteString.h\<close>, \<^verbatim>\<open>Hypertable/Lib/Key.h\<close>, \<^verbatim>\<open>Hypertable/Lib/Key.cc\<close>). A byte string
  pointer is the memory from the pointer to the end of its allocation, \<^const>\<open>None\<close> when it is null; a key is
  a byte string whose payload packs row, column family, qualifier, flag and inverted timestamp. The
  properties are that the components come back, that comparing the packed bytes is comparing the
  components in the documented order, and that parsing stays inside the byte string.
\<close>

section \<open>Byte strings\<close>

type_synonym byte_string = "bytes option"

definition bs_length :: "byte_string \<Rightarrow> nat result" where
  "bs_length bs = (case bs of None \<Rightarrow> Inr 1
     | Some ptr \<Rightarrow> rbind (decode_vi32_ptr ptr) (\<lambda>(len, tmp). Inr (length ptr - length tmp + unat len)))"

text \<open>\<^verbatim>\<open>next\<close> returns the old pointer and moves behind the string.\<close>

definition bs_next :: "bytes \<Rightarrow> (bytes \<times> bytes) result" where
  "bs_next ptr = rbind (decode_vi32_ptr ptr) (\<lambda>(len, p). rbind (advance (unat len) p) (\<lambda>p. Inr (ptr, p)))"

definition bs_decode_length :: "bytes \<Rightarrow> (u32 \<times> bytes) result" where
  "bs_decode_length ptr = decode_vi32_ptr ptr"

text \<open>The bytes \<^verbatim>\<open>write\<close> puts at \<^verbatim>\<open>dst\<close> and the length it returns.\<close>

definition bs_write :: "byte_string \<Rightarrow> (bytes \<times> nat) result" where
  "bs_write bs = rbind (bs_length bs) (\<lambda>len. case bs of
     None \<Rightarrow> rbind (encode_vi32 0) (\<lambda>b. Inr (b, len))
   | Some ptr \<Rightarrow> rbind (rdn len ptr) (\<lambda>(b, _). Inr (b, len)))"

definition bs_str :: "bytes \<Rightarrow> bytes result" where
  "bs_str ptr = rbind (decode_vi32_ptr ptr) (\<lambda>(len, p). Inr p)"

text \<open>The bytes appended for a value; the room for seven more bytes and the trailing zero, which is written
  behind \<^verbatim>\<open>ptr\<close>, are not part of the buffer's contents.\<close>

definition append_as_byte_string :: "bytes \<Rightarrow> bytes result" where
  "append_as_byte_string value = rbind (encode_vi32 (of_nat (length value))) (\<lambda>n. Inr (n @ value))"

definition bs_less :: "bytes \<Rightarrow> bytes \<Rightarrow> bool result" where
  "bs_less bs1 bs2 =
     rbind (bs_decode_length bs1) (\<lambda>(len1, ptr1). rbind (bs_decode_length bs2) (\<lambda>(len2, ptr2).
     let len = (if len1 < len2 then unat len1 else unat len2) in
     rbind (rdn len ptr1) (\<lambda>(b1, _). rbind (rdn len ptr2) (\<lambda>(b2, _).
     Inr (if b1 = b2 then len1 < len2 else b1 < b2)))))"

definition bs_equal :: "bytes \<Rightarrow> bytes \<Rightarrow> bool result" where
  "bs_equal bs1 bs2 =
     rbind (bs_decode_length bs1) (\<lambda>(len1, ptr1). rbind (bs_decode_length bs2) (\<lambda>(len2, ptr2).
     if len1 \<noteq> len2 then Inr False
     else rbind (rdn (unat len1) ptr1) (\<lambda>(b1, _). rbind (rdn (unat len1) ptr2) (\<lambda>(b2, _). Inr (b1 = b2)))))"

section \<open>Keys\<close>

definition FLAG_DELETE_ROW :: byte where "FLAG_DELETE_ROW = 0"
definition FLAG_DELETE_COLUMN_FAMILY :: byte where "FLAG_DELETE_COLUMN_FAMILY = 1"
definition FLAG_DELETE_CELL :: byte where "FLAG_DELETE_CELL = 2"
definition FLAG_INSERT :: byte where "FLAG_INSERT = 0xff"

definition END_ROW_MARKER :: bytes where "END_ROW_MARKER = [0xff, 0xff]"
definition END_ROOT_ROW :: bytes where "END_ROOT_ROW = [0x30, 0x3a, 0xff, 0xff]"

definition encode_ts64 :: "u64 \<Rightarrow> bytes" where
  "encode_ts64 v =
     (let val = NOT v in
      [ucast (drop_bit 56 val), ucast (drop_bit 48 val), ucast (drop_bit 40 val), ucast (drop_bit 32 val),
       ucast (drop_bit 24 val), ucast (drop_bit 16 val), ucast (drop_bit 8 val), ucast val])"

definition decode_ts64 :: "bytes \<Rightarrow> (u64 \<times> bytes) result" where
  "decode_ts64 ip = rbind (rdn 8 ip) (\<lambda>(b, ip). Inr (NOT (
     push_bit 56 (ucast (b ! 0)) OR push_bit 48 (ucast (b ! 1)) OR push_bit 40 (ucast (b ! 2))
     OR push_bit 32 (ucast (b ! 3)) OR push_bit 24 (ucast (b ! 4)) OR push_bit 16 (ucast (b ! 5))
     OR push_bit 8 (ucast (b ! 6)) OR ucast (b ! 7)), ip))"

text \<open>The timestamp is written most significant byte first from the little-endian representation of its
  complement, and as \<^verbatim>\<open>0xFF\<close> bytes when it is 0.\<close>

definition write_key :: "byte \<Rightarrow> bytes \<Rightarrow> byte \<Rightarrow> cstr \<Rightarrow> u64 \<Rightarrow> bytes" where
  "write_key flag row column_family_code column_qualifier timestamp =
     row @ [0] @ [column_family_code]
     @ (case column_qualifier of Some q \<Rightarrow> q @ [0] | None \<Rightarrow> [0])
     @ [flag]
     @ (if timestamp = 0 then replicate 8 0xff else rev (le_split 8 (NOT timestamp)))"

definition create_key :: "byte \<Rightarrow> bytes \<Rightarrow> byte \<Rightarrow> cstr \<Rightarrow> u64 \<Rightarrow> bytes result" where
  "create_key flag row column_family_code column_qualifier timestamp =
     (let len = length row + 4 + 8 + (case column_qualifier of Some q \<Rightarrow> length q | None \<Rightarrow> 0) in
      rbind (encode_vi32 (of_nat len)) (\<lambda>n. Inr (n @ write_key flag row column_family_code column_qualifier timestamp)))"

text \<open>A loaded key: the C strings its pointers point at, and the offsets of \<^verbatim>\<open>timestamp_ptr\<close> and \<^verbatim>\<open>end_ptr\<close>
  from the start of the byte string.\<close>

record key =
  k_row :: bytes
  k_qualifier :: bytes
  k_timestamp :: u64
  k_family :: byte
  k_flag :: byte
  timestamp_ptr :: nat
  end_ptr :: nat

text \<open>\<^verbatim>\<open>while (key.ptr < endptr && *key.ptr != 0) key.ptr++;\<close> and the dereference of a pointer.\<close>

definition rd_at :: "bytes \<Rightarrow> nat \<Rightarrow> byte result" where
  "rd_at m i = (if i < length m then Inr (m ! i) else Inl UNDEFINED_BEHAVIOUR)"

function scan :: "bytes \<Rightarrow> nat \<Rightarrow> nat \<Rightarrow> nat result" where
  "scan m i e = (if i < e then rbind (rd_at m i) (\<lambda>b. if b \<noteq> 0 then scan m (Suc i) e else Inr i) else Inr i)"
  by pat_completeness auto
termination by (relation "measure (\<lambda>(m, i, e). e - i)") auto

declare scan.simps [simp del]

text \<open>\<open>load\<close>: \<^const>\<open>None\<close> is the result false. The scan for the end of the row starts at the length bytes, as
  \<^verbatim>\<open>key.ptr\<close> is not moved past them.\<close>

definition key_load :: "bytes \<Rightarrow> key option result" where
  "key_load m =
     rbind (bs_decode_length m) (\<lambda>(len, p).
     let row_off = length m - length p; endptr = row_off + unat len in
     rbind (scan m 0 endptr) (\<lambda>i.
     let i = i + 1 in
     if endptr \<le> i then Inr None
     else rbind (rd_at m i) (\<lambda>cf.
     let i = i + 1; q_off = i in
     rbind (scan m i endptr) (\<lambda>i.
     let i = i + 1 in
     if endptr \<le> i then Inr None
     else if endptr - i \<noteq> 9 then Inr None
     else rbind (rd_at m i) (\<lambda>fl.
     let i = i + 1 in
     rbind (decode_ts64 (drop i m)) (\<lambda>(ts, p).
     Inr (Some \<lparr>k_row = cstr_at (drop row_off m), k_qualifier = cstr_at (drop q_off m), k_timestamp = ts,
       k_family = cf, k_flag = fl, timestamp_ptr = i, end_ptr = length m - length p\<rparr>)))))))"

text \<open>\<open>update_ts\<close> writes the timestamp back into the serialised key.\<close>

definition key_update_ts :: "key \<Rightarrow> u64 \<Rightarrow> bytes \<Rightarrow> bytes" where
  "key_update_ts k ts m = take (timestamp_ptr k) m @ encode_ts64 ts @ drop (timestamp_ptr k + 8) m"

section \<open>Lemmas\<close>

subsection \<open>Lexicographic order\<close>

lemma less_append_same_length:
  "length a = length b \<Longrightarrow> (a @ x < b @ y) = (a < b \<or> a = b \<and> x < (y :: 'a::linorder list))"
  by (induction a b rule: list_induct2) auto

lemma less_append_zero:
  assumes "0 \<notin> set a" and "0 \<notin> set b"
  shows "(a @ 0 # x < b @ 0 # y) = (a < b \<or> a = b \<and> x < (y :: bytes))"
  using assms
proof (induction a arbitrary: b)
  case Nil
  show ?case
  proof (cases b)
    case (Cons c cs)
    with Nil have "0 < c" by (simp add: word_gt_0)
    then show ?thesis by (simp add: Cons)
  qed simp
next
  case (Cons c cs)
  show ?case
  proof (cases b)
    case Nil
    from Cons have "\<not> c < 0" "c \<noteq> 0" by auto
    then show ?thesis by (simp add: Nil)
  next
    case (Cons d ds)
    with Cons.prems Cons.IH [of ds] show ?thesis by auto
  qed
qed

lemma eq_iff_from_less:
  "(x < y) = (a < b) \<Longrightarrow> (y < x) = (b < a) \<Longrightarrow> ((x :: 'a::linorder) = y) = ((a :: 'b::linorder) = b)"
  by (metis linorder_neq_iff)

lemma less_rev_le_split:
  assumes "LENGTH('a) \<le> 8 * n"
  shows "(rev (le_split n v) < rev (le_split n w)) = ((v :: 'a::len word) < w)"
proof -
  have "(rev (le_split n v) < rev (le_split n w)) = (unat v mod 2 ^ (8 * n) < unat w mod 2 ^ (8 * n))"
  proof (induction n arbitrary: v w)
    case (Suc n)
    have split: "unat x mod 2 ^ (8 * Suc n) = 256 * (unat (drop_bit 8 x) mod 2 ^ (8 * n)) + unat (ucast x :: byte)"
      for x :: "'a word"
    proof -
      have "unat (drop_bit 8 x) = unat x div 256" by (simp only: unat_drop_bit_eq) (simp add: drop_bit_eq_div)
      moreover have "unat (ucast x :: byte) = unat x mod 256" by (simp add: unsigned_ucast_eq take_bit_eq_mod)
      moreover have "(2 :: nat) ^ (8 * Suc n) = 256 * 2 ^ (8 * n)" by (simp add: power_add)
      ultimately show ?thesis by (simp only: mod_mult2_eq add.commute)
    qed
    have less: "256 * a + b < 256 * c + d \<longleftrightarrow> a < c \<or> a = c \<and> b < d" if "b < 256" "d < 256" for a b c d :: nat
      using that by (cases a c rule: linorder_cases) auto
    have inj: "rev (le_split n (drop_bit 8 v)) = rev (le_split n (drop_bit 8 w)) \<longleftrightarrow>
        unat (drop_bit 8 v) mod 2 ^ (8 * n) = unat (drop_bit 8 w) mod 2 ^ (8 * n)"
      using Suc.IH [of "drop_bit 8 v" "drop_bit 8 w"] Suc.IH [of "drop_bit 8 w" "drop_bit 8 v"]
      by (intro eq_iff_from_less)
    have "unat (ucast x :: byte) < 256" for x :: "'a word" using unat_lt2p [of "ucast x :: byte"] by simp
    then show ?case
      by (simp add: less_append_same_length Suc.IH split less inj [unfolded rev_is_rev_conv] word_less_nat_alt del: power_Suc mult_Suc_right)
  qed simp
  moreover have "unat x mod 2 ^ (8 * n) = unat x" for x :: "'a word"
    by (rule mod_less, rule less_le_trans [OF unat_lt2p], rule power_increasing [OF assms]) simp
  ultimately show ?thesis by (simp add: word_less_nat_alt)
qed

subsection \<open>Byte strings\<close>

text \<open>The serialised form of some bytes.\<close>

definition bs_of :: "bytes \<Rightarrow> bytes" where
  "bs_of d = vint_bytes (of_nat (length d) :: u32) @ d"

lemma decode_vi32_ptr_run: "decode_vi32_ptr (vint_bytes (v :: u32) @ rest) = Inr (v, rest)"
  using vi32.dec_enc [of v "vint_bytes v" 6 rest] length_vint_bytes_le [of v 4] unat_lt2p [of v]
  by (simp add: decode_vi32_ptr_def)

lemma bs_decode_length_run [simp]: "bs_decode_length (bs_of d @ rest) = Inr (of_nat (length d), d @ rest)"
  by (simp add: bs_decode_length_def bs_of_def decode_vi32_ptr_run)

lemma unat_len32: "length d < 2 ^ 32 \<Longrightarrow> unat (of_nat (length d) :: u32) = length d"
  by (intro unat_of_nat_small) simp

lemma bs_less_eq:
  assumes "length d1 < 2 ^ 32" and "length d2 < 2 ^ 32"
  shows "bs_less (bs_of d1 @ r1) (bs_of d2 @ r2) = Inr (d1 < d2)"
proof -
  let ?n = "min (length d1) (length d2)"
  note u = unat_len32 [OF assms(1)] unat_len32 [OF assms(2)]
  have len: "(of_nat (length d1) < (of_nat (length d2) :: u32)) = (length d1 < length d2)"
    by (simp add: word_less_nat_alt u)
  have n: "(if length d1 < length d2 then unat (of_nat (length d1) :: u32)
      else unat (of_nat (length d2) :: u32)) = ?n"
    by (simp add: u)
  have rd: "rdn ?n (d1 @ r1) = Inr (take ?n d1, drop ?n d1 @ r1)" "rdn ?n (d2 @ r2) = Inr (take ?n d2, drop ?n d2 @ r2)"
    by (simp_all add: rdn_def)
  have "(d1 < d2) = (take ?n d1 @ drop ?n d1 < take ?n d2 @ drop ?n d2)" by simp
  also have "\<dots> = (take ?n d1 < take ?n d2 \<or> take ?n d1 = take ?n d2 \<and> drop ?n d1 < drop ?n d2)"
    by (rule less_append_same_length) simp
  also have "drop ?n d1 < drop ?n d2 \<longleftrightarrow> length d1 < length d2"
    by (cases "length d1 < length d2"; cases "drop ?n d2") (auto simp: min_def)
  finally show ?thesis
    unfolding bs_less_def bs_decode_length_run rbind_simps split Let_def n rd len by auto
qed

subsection \<open>The packed key\<close>

definition key_payload :: "byte \<Rightarrow> bytes \<Rightarrow> byte \<Rightarrow> bytes \<Rightarrow> u64 \<Rightarrow> bytes" where
  "key_payload fl r cf q ts = r @ 0 # cf # q @ 0 # fl # encode_ts64 ts"

lemma encode_ts64_eq: "encode_ts64 ts = rev (le_split 8 (NOT ts))"
  by (simp add: encode_ts64_def Let_def eval_nat_numeral drop_bit_drop_bit)

lemma length_encode_ts64 [simp]: "length (encode_ts64 ts) = 8"
  by (simp add: encode_ts64_def Let_def)

lemma decode_ts64_run [simp]: "decode_ts64 (encode_ts64 ts @ rest) = Inr (ts, rest)"
proof -
  let ?b = "encode_ts64 ts"
  have j: "(le_join (rev ?b) :: u64) = NOT ts" by (simp add: encode_ts64_eq le_join_split)
  have e: "(le_join (rev ?b) :: u64) = push_bit 56 (ucast (?b ! 0)) OR push_bit 48 (ucast (?b ! 1))
      OR push_bit 40 (ucast (?b ! 2)) OR push_bit 32 (ucast (?b ! 3)) OR push_bit 24 (ucast (?b ! 4))
      OR push_bit 16 (ucast (?b ! 5)) OR push_bit 8 (ucast (?b ! 6)) OR ucast (?b ! 7)"
    by (subst le_join_8) (simp_all add: rev_nth ac_simps)
  show ?thesis
    unfolding decode_ts64_def rdn_append [OF length_encode_ts64] rbind_simps split e [symmetric] j by simp
qed

lemma encode_ts64_0: "encode_ts64 0 = replicate 8 0xff"
  by code_simp

lemma write_key_eq:
  "write_key fl r cf q ts = key_payload fl r cf (case q of None \<Rightarrow> [] | Some s \<Rightarrow> s) ts"
proof -
  have "(if ts = 0 then replicate 8 0xff else rev (le_split 8 (NOT ts))) = encode_ts64 ts"
    using encode_ts64_0 by (simp add: encode_ts64_eq)
  then show ?thesis by (cases q) (simp_all add: write_key_def key_payload_def)
qed

lemma length_key_payload: "length (key_payload fl r cf q ts) = length r + length q + 12"
  by (simp add: key_payload_def)

lemma create_key_eq:
  "create_key fl r cf q ts = Inr (bs_of (key_payload fl r cf (case q of None \<Rightarrow> [] | Some s \<Rightarrow> s) ts))"
  by (cases q) (simp_all add: create_key_def write_key_eq bs_of_def length_key_payload Let_def ac_simps)

subsection \<open>Parsing\<close>

lemma vint_bytes_no_zero: "7 < LENGTH('a) \<Longrightarrow> (v :: 'a::len word) \<noteq> 0 \<Longrightarrow> 0 \<notin> set (vint_bytes v)"
proof (induction v rule: vint_bytes.induct)
  case (1 v)
  show ?case
  proof (cases "v \<le> 0x7f")
    case True
    then have u: "unat v < 128" using le_0x7f_iff [OF 1(2)] by blast
    have "ucast v \<noteq> (0 :: byte)"
    proof
      assume "ucast v = (0 :: byte)"
      moreover have "unat (ucast v :: byte) = unat v mod 256" by (simp add: unsigned_ucast_eq take_bit_eq_mod)
      ultimately have "unat v = 0" using u by simp
      with 1(3) show False by (simp add: unat_eq_0)
    qed
    with True show ?thesis by (simp add: vint_bytes.simps [of v])
  next
    case False
    then have "128 \<le> unat v" using le_0x7f_iff [OF 1(2), of v] by simp
    then have "unat (drop_bit 7 v) \<noteq> 0" by (simp add: unat_drop_7)
    then have "drop_bit 7 v \<noteq> 0" by auto
    moreover have "bit (ucast (v OR 0x80) :: byte) 7"
      using 1(2) by (simp add: bit_simps bit_0x80_iff)
    then have "ucast (v OR 0x80) \<noteq> (0 :: byte)" by (intro notI) simp
    ultimately show ?thesis using 1(1) [OF False 1(2)] False by (simp add: vint_bytes.simps [of v])
  qed
qed

lemma drop_length_append: "drop (length a) (a @ b) = b"
  by simp

lemma scan_run:
  "i \<le> j \<Longrightarrow> (\<And>k. i \<le> k \<Longrightarrow> k < j \<Longrightarrow> m ! k \<noteq> 0) \<Longrightarrow> m ! j = 0 \<Longrightarrow> j < e \<Longrightarrow> j < length m \<Longrightarrow> scan m i e = Inr j"
proof (induction "j - i" arbitrary: i)
  case 0
  then show ?case by (subst scan.simps) (simp add: rd_at_def)
next
  case (Suc d)
  then have "scan m (Suc i) e = Inr j" by simp
  with Suc show ?case by (subst scan.simps) (simp add: rd_at_def)
qed

lemma scan_append:
  assumes "0 \<notin> set b" and "m = a @ b @ 0 # c" and "i = length a" and "i + length b < e"
  shows "scan m i e = Inr (i + length b)"
proof (rule scan_run)
  show "m ! k \<noteq> 0" if "i \<le> k" "k < i + length b" for k
  proof -
    have k: "k - i < length b" using that by linarith
    then have "m ! k = b ! (k - i)" using that assms(2,3) by (simp add: nth_append)
    moreover have "b ! (k - i) \<in> set b" using k by (rule nth_mem)
    ultimately show ?thesis using assms(1) by auto
  qed
qed (use assms in \<open>simp_all add: nth_append\<close>)

lemma key_load_run:
  assumes r: "0 \<notin> set r" and q: "0 \<notin> set q" and len: "length r + length q + 12 < 2 ^ 32"
  shows "key_load (bs_of (key_payload fl r cf q ts) @ rest) =
    Inr (Some \<lparr>k_row = r, k_qualifier = q, k_timestamp = ts, k_family = cf, k_flag = fl,
      timestamp_ptr = length (bs_of (key_payload fl r cf q ts)) - 8,
      end_ptr = length (bs_of (key_payload fl r cf q ts))\<rparr>)"
proof -
  let ?p = "key_payload fl r cf q ts"
  define n where "n = vint_bytes (of_nat (length ?p) :: u32)"
  define m where "m = bs_of ?p @ rest"
  let ?L = "length r + length q + 12" and ?N = "length n"
  have u: "unat (of_nat (length ?p) :: u32) = ?L" using len unat_len32 [of ?p] by (simp add: length_key_payload)
  then have "(of_nat (length ?p) :: u32) \<noteq> 0" by (metis unat_0 add_is_0 zero_neq_numeral)
  then have n0: "0 \<notin> set n" unfolding n_def by (intro vint_bytes_no_zero) simp_all
  have m: "m = n @ r @ 0 # cf # q @ 0 # fl # encode_ts64 ts @ rest"
    by (simp add: m_def bs_of_def n_def key_payload_def)
  have dl: "bs_decode_length m = Inr (of_nat (length ?p), ?p @ rest)" by (simp add: m_def)
  have off: "length m - length (?p @ rest) = ?N" by (simp add: m_def bs_of_def n_def)
  have s1: "scan m 0 (?N + ?L) = Inr (?N + length r)"
    using scan_append [of "n @ r" m "[]"] n0 r by (simp add: m)
  let ?i = "?N + length r + 1 + 1"
  have s2: "scan m ?i (?N + ?L) = Inr (?i + length q)"
    using q by (intro scan_append [where a = "n @ r @ [0, cf]"]) (simp_all add: m)
  have at: "rd_at m (?N + length r + 1) = Inr cf" "rd_at m (?i + length q + 1) = Inr fl"
    by (simp_all add: rd_at_def m nth_append)
  have m': "m = (n @ r @ 0 # cf # q @ [0, fl]) @ encode_ts64 ts @ rest" by (simp add: m)
  have "?i + length q + 1 + 1 = length (n @ r @ 0 # cf # q @ [0, fl])" by simp
  then have d1: "drop (?i + length q + 1 + 1) m = encode_ts64 ts @ rest"
    by (simp only: m' drop_length_append)
  have d: "cstr_at (drop ?N m) = r" "cstr_at (drop ?i m) = q"
    using cstr_at_append [OF r, of "cf # q @ 0 # fl # encode_ts64 ts @ rest"]
      cstr_at_append [OF q, of "fl # encode_ts64 ts @ rest"]
    by (simp_all add: m)
  have c: "(?N + ?L \<le> ?N + length r + 1) = False" "(?N + ?L \<le> ?i + length q + 1) = False"
    "?N + ?L - (?i + length q + 1) = 9" by simp_all
  have l: "length (bs_of ?p) = ?N + ?L" by (simp add: bs_of_def n_def length_key_payload)
  have e: "length m - length rest = ?N + ?L" by (simp add: m)
  show ?thesis
    unfolding m_def [symmetric] key_load_def dl rbind_simps split Let_def off u s1 c at if_False s2 d d1 decode_ts64_run e l
    by simp
qed

subsection \<open>Staying inside the byte string\<close>

lemma decode_vint_steps_suffix:
  "decode_vint_steps n s v prev (ip, r) = Inr (x, ip', r') \<Longrightarrow> \<exists>k. ip' = drop k ip"
proof (induction n arbitrary: s v prev ip r)
  case (Suc n)
  show ?case
  proof (cases "prev AND 0x80 \<noteq> 0")
    case True
    with Suc.prems obtain r1 b ip1 where rd: "rd ip = Inr (b, ip1)"
      and "decode_vint_steps n (s + 7) (v OR push_bit (s + 7) (ucast (b AND 0x7f))) b (ip1, r1) = Inr (x, ip', r')"
      by (auto simp: rbind_eq_Inr_iff)
    from Suc.IH [OF this(2)] obtain k where "ip' = drop k ip1" by blast
    moreover have "ip = b # ip1" using rd by (cases ip) auto
    ultimately show ?thesis by (intro exI [of _ "Suc k"]) simp
  next
    case False
    with Suc.prems show ?thesis by (intro exI [of _ 0]) simp
  qed
qed simp

lemma decode_vi32_ptr_suffix:
  assumes "decode_vi32_ptr m = Inr (len, p)"
  shows "length p < length m"
proof -
  from assms obtain r b ip where "rd m = Inr (b, ip)"
    "decode_vint_steps 5 0 (ucast (b AND 0x7f) :: u32) b (ip, 6 - 1) = Inr (len, p, r)"
    by (auto simp: decode_vi32_ptr_def decode_vi32_def decode_vint_def rbind_eq_Inr_iff need_def)
  with decode_vint_steps_suffix obtain k where "p = drop k ip" "m = b # ip" by (cases m) force+
  then show ?thesis by simp
qed

lemma scan_safe: "e \<le> length m \<Longrightarrow> \<exists>j. scan m i e = Inr j \<and> i \<le> j \<and> (i < e \<longrightarrow> j \<le> e)"
proof (induction m i e rule: scan.induct)
  case (1 m i e)
  show ?case
  proof (cases "i < e \<and> m ! i \<noteq> 0")
    case True
    then obtain j where "scan m (Suc i) e = Inr j" "Suc i \<le> j" "Suc i < e \<longrightarrow> j \<le> e"
      using 1 by (auto simp: rd_at_def)
    with True "1.prems" show ?thesis
      by (subst scan.simps) (cases "Suc i < e", auto simp: rd_at_def scan.simps [of m "Suc i"])
  next
    case False
    with "1.prems" show ?thesis by (subst scan.simps) (auto simp: rd_at_def)
  qed
qed

lemma key_load_safe_aux:
  assumes dl: "bs_decode_length m = Inr (len, p)" and fits: "unat len \<le> length p"
  shows "\<exists>r. key_load m = Inr r \<and> (\<forall>k. r = Some k \<longrightarrow>
    end_ptr k = length m - length p + unat len \<and> timestamp_ptr k + 8 = end_ptr k \<and> end_ptr k \<le> length m)"
proof -
  let ?e = "length m - length p + unat len"
  have "length p \<le> length m" using dl decode_vi32_ptr_suffix[of m] by (simp add: bs_decode_length_def less_imp_le)
  then have e: "?e \<le> length m" using fits by linarith
  obtain i where i: "scan m 0 ?e = Inr i" using scan_safe [OF e] by blast
  show ?thesis
  proof (cases "?e \<le> i + 1")
    case True
    then show ?thesis by (simp add: key_load_def dl Let_def i)
  next
    case False
    then have cf: "rd_at m (i + 1) = Inr (m ! (i + 1))" using e by (simp add: rd_at_def)
    obtain j where j: "scan m (i + 1 + 1) ?e = Inr j" using scan_safe [OF e] by blast
    show ?thesis
    proof (cases "?e - (j + 1) = 9")
      case True
      then have fl: "rd_at m (j + 1) = Inr (m ! (j + 1))" and d: "8 \<le> length (drop (j + 1 + 1) m)"
        using e by (simp_all add: rd_at_def)
      have "length m - (length m - (j + 1 + 1) - 8) = ?e" using True e by linarith
      with False True d show ?thesis
        unfolding key_load_def dl rbind_simps split Let_def i
        by (simp add: cf [simplified] j [simplified] fl [simplified] decode_ts64_def rdn_def)
    next
      case False
      with \<open>\<not> ?e \<le> i + 1\<close> show ?thesis
        unfolding key_load_def dl rbind_simps split Let_def i
        by (simp add: cf [simplified] j [simplified])
    qed
  qed
qed

lemma NOT_less: "(NOT a < NOT b) = (b < (a :: 'a::len word))"
  by (simp add: word_less_def unsigned_not_eq take_bit_not_eq_mask_diff take_bit_int_eq_self
      [OF unsigned_greater_eq unsigned_less])

lemma encode_ts64_less: "(encode_ts64 a < encode_ts64 b) = (b < a)"
  by (simp add: encode_ts64_eq less_rev_le_split NOT_less)

lemma key_payload_less:
  assumes "0 \<notin> set r1" "0 \<notin> set q1" "0 \<notin> set r2" "0 \<notin> set q2"
  shows "(key_payload fl1 r1 cf1 q1 ts1 < key_payload fl2 r2 cf2 q2 ts2) \<longleftrightarrow>
    r1 < r2 \<or> r1 = r2 \<and> (cf1 < cf2 \<or> cf1 = cf2 \<and> (q1 < q2 \<or> q1 = q2 \<and>
      (fl1 < fl2 \<or> fl1 = fl2 \<and> ts2 < ts1)))"
  using assms by (auto simp: key_payload_def less_append_zero encode_ts64_less)

lemma key_update_ts_payload:
  assumes "timestamp_ptr k = length (bs_of (key_payload fl r cf q ts)) - 8"
  shows "key_update_ts k ts' (bs_of (key_payload fl r cf q ts) @ rest) = bs_of (key_payload fl r cf q ts') @ rest"
proof -
  let ?a = "vint_bytes (of_nat (length (key_payload fl r cf q ts)) :: u32) @ r @ 0 # cf # q @ [0, fl]"
  have m: "bs_of (key_payload fl r cf q ts) @ rest = ?a @ encode_ts64 ts @ rest"
    by (simp add: bs_of_def key_payload_def)
  have m': "bs_of (key_payload fl r cf q ts') @ rest = ?a @ encode_ts64 ts' @ rest"
    by (simp add: bs_of_def key_payload_def)
  have p: "timestamp_ptr k = length ?a" using assms by (simp add: bs_of_def key_payload_def)
  have "drop (length ?a + 8) (?a @ encode_ts64 ts @ rest) = rest"
    using drop_length_append [of "?a @ encode_ts64 ts" rest] by simp
  moreover have "take (length ?a) (?a @ encode_ts64 ts @ rest) = ?a"
    by (rule append_eq_conv_conj [THEN iffD1, OF refl, THEN conjunct1, symmetric])
  ultimately show ?thesis unfolding key_update_ts_def m m' p by (simp only: append_assoc)
qed

section \<open>Properties\<close>

text \<open>C27. A key gives its components back. Parsing a key built from a row, a column family, a
  qualifier, a flag and a timestamp returns exactly these components, with the
  end pointer right behind the key, whatever follows it in memory; a null qualifier is read as the empty
  one. Writing a new timestamp through the loaded key's pointer changes the timestamp and nothing
  else.\<close>

theorem key_roundtrip:
  assumes "0 \<notin> set r" and "case q of None \<Rightarrow> True | Some s \<Rightarrow> 0 \<notin> set s"
    and "length r + (case q of None \<Rightarrow> 0 | Some s \<Rightarrow> length s) + 12 < 2 ^ 32"
  shows "\<exists>bs k. create_key fl r cf q ts = Inr bs \<and> key_load (bs @ rest) = Inr (Some k)
    \<and> k_row k = r \<and> k_family k = cf \<and> k_qualifier k = (case q of None \<Rightarrow> [] | Some s \<Rightarrow> s)
    \<and> k_flag k = fl \<and> k_timestamp k = ts \<and> end_ptr k = length bs
    \<and> key_load (key_update_ts k ts' (bs @ rest)) = Inr (Some (k\<lparr>k_timestamp := ts'\<rparr>))"
proof -
  let ?q = "case q of None \<Rightarrow> [] | Some s \<Rightarrow> s"
  have q: "0 \<notin> set ?q" "length r + length ?q + 12 < 2 ^ 32" using assms by (cases q; simp)+
  have l: "length (bs_of (key_payload fl r cf ?q ts)) = length (bs_of (key_payload fl r cf ?q ts'))"
    by (simp add: bs_of_def length_key_payload)
  show ?thesis
    using key_load_run [OF assms(1) q, of fl cf ts rest] key_load_run [OF assms(1) q, of fl cf ts' rest]
    by (simp add: create_key_eq key_update_ts_payload l)
qed

theorem key_roundtrip_witness:
  "\<exists>bs k. create_key FLAG_INSERT [114] 3 None 42 = Inr bs \<and> key_load (bs @ [9]) = Inr (Some k)
    \<and> k_row k = [114] \<and> k_timestamp k = 42"
  using key_roundtrip [of "[114]" None FLAG_INSERT 3 42 "[9]" 43] by auto

text \<open>C28. Comparing keys byte by byte orders cells as documented: by row, then column family, then
  qualifier, then flag (deletes before inserts), then the newest timestamp first. Timestamps are
  compared as unsigned numbers.\<close>

theorem key_order:
  assumes "create_key fl1 r1 cf1 (Some q1) ts1 = Inr k1" and "create_key fl2 r2 cf2 (Some q2) ts2 = Inr k2"
    and "0 \<notin> set r1" "0 \<notin> set q1" "length r1 + length q1 + 12 < 2 ^ 32"
    and "0 \<notin> set r2" "0 \<notin> set q2" "length r2 + length q2 + 12 < 2 ^ 32"
  shows "bs_less (k1 @ rest1) (k2 @ rest2) = Inr (
    r1 < r2 \<or> r1 = r2 \<and> (cf1 < cf2 \<or> cf1 = cf2 \<and> (q1 < q2 \<or> q1 = q2 \<and>
      (fl1 < fl2 \<or> fl1 = fl2 \<and> ts2 < ts1))))"
  using assms bs_less_eq [of "key_payload fl1 r1 cf1 q1 ts1" "key_payload fl2 r2 cf2 q2 ts2" rest1 rest2]
  by (auto simp: create_key_eq length_key_payload key_payload_less)

theorem key_order_witness:
  "\<exists>k1 k2. create_key FLAG_DELETE_CELL [97] 1 (Some [98]) 5 = Inr k1
    \<and> create_key FLAG_INSERT [97] 1 (Some [98]) 9 = Inr k2 \<and> bs_less k1 k2 = Inr True"
  using key_order [of FLAG_DELETE_CELL "[97]" 1 "[98]" 5 _ FLAG_INSERT "[97]" 1 "[98]" 9 _ "[]" "[]"]
  by (simp add: create_key_eq FLAG_DELETE_CELL_def FLAG_INSERT_def)

text \<open>C29. Parsing a key never reads outside its byte string. If the memory holds as many bytes as the
  length prefix says, then whatever these bytes are, \<open>load\<close> returns (true or false), touches nothing behind
  them, and a key it accepts ends exactly at the end of the byte string with its timestamp in the last eight
  bytes.\<close>

theorem key_load_safe:
  assumes "bs_decode_length m = Inr (len, p)" and "unat len \<le> length p"
  shows "\<exists>r. key_load m = Inr r \<and> (\<forall>k. r = Some k \<longrightarrow>
    end_ptr k = length m - length p + unat len \<and> timestamp_ptr k + 8 = end_ptr k \<and> end_ptr k \<le> length m)"
  using assms by (rule key_load_safe_aux)

theorem key_load_safe_witness:
  "\<exists>r. key_load [3, 7, 0, 1] = Inr r"
proof -
  have "bs_decode_length [3, 7, 0, 1] = Inr (3, [7, 0, 1])" by code_simp
  then show ?thesis using key_load_safe [of "[3, 7, 0, 1]" 3 "[7, 0, 1]"] by auto
qed

end
