(* ===== verification/Cells.thy ===== *)
theory Cells
  imports Keys "HOL-Library.Product_Lexorder"
begin

text \<open>
  Cells and the tracking of delete records. A cell is a parsed key with a value; cells are ordered by
  their packed keys. \<^verbatim>\<open>MergeScanner::forward\<close> and \<^verbatim>\<open>CellCache::purge_deletes\<close> both remember the last row, column
  family and cell delete they have seen in buffers of key prefixes and test every insert against them; \<open>tracker\<close> is
  these buffers. The theorem of this theory is what that bookkeeping decides on a sorted sequence of cells.
\<close>

section \<open>Cells\<close>

record cell =
  c_row :: bytes
  c_family :: byte
  c_qualifier :: bytes
  c_flag :: byte
  c_timestamp :: u64
  c_value :: bytes

definition packed :: "cell \<Rightarrow> bytes" where
  "packed c = key_payload (c_flag c) (c_row c) (c_family c) (c_qualifier c) (c_timestamp c)"

text \<open>Timestamps are compared as \<^verbatim>\<open>int64_t\<close>.\<close>

definition cell_ts :: "cell \<Rightarrow> int" where
  "cell_ts c = sint (c_timestamp c)"

text \<open>The prefixes of the key that are copied and compared: \<^verbatim>\<open>strlen(row) + 1\<close> bytes, \<^verbatim>\<open>column_qualifier - row\<close> bytes,
  and the latter with the qualifier and its terminator.\<close>

definition row_bytes :: "cell \<Rightarrow> bytes" where
  "row_bytes c = c_row c @ [0]"

definition cf_bytes :: "cell \<Rightarrow> bytes" where
  "cf_bytes c = c_row c @ [0, c_family c]"

definition cell_bytes :: "cell \<Rightarrow> bytes" where
  "cell_bytes c = c_row c @ [0, c_family c] @ c_qualifier c @ [0]"

text \<open>The cells the range server stores: C strings, one of the four flags, row deletes with family 0 and
  family deletes without qualifier, as the update path creates them.\<close>

definition wf_cell :: "cell \<Rightarrow> bool" where
  "wf_cell c \<longleftrightarrow> 0 \<notin> set (c_row c) \<and> 0 \<notin> set (c_qualifier c)
     \<and> length (c_row c) + length (c_qualifier c) + 12 < 2 ^ 32
     \<and> (c_flag c = FLAG_INSERT \<or> c_flag c = FLAG_DELETE_CELL \<or> c_flag c = FLAG_DELETE_COLUMN_FAMILY \<or> c_flag c = FLAG_DELETE_ROW)
     \<and> (c_flag c = FLAG_DELETE_ROW \<longleftrightarrow> c_family c = 0)
     \<and> (c_flag c = FLAG_DELETE_ROW \<or> c_flag c = FLAG_DELETE_COLUMN_FAMILY \<longrightarrow> c_qualifier c = [])"

section \<open>Delete tracking\<close>

record tracker =
  delete_present :: bool
  deleted_row :: bytes
  deleted_row_timestamp :: int
  deleted_column_family :: bytes
  deleted_column_family_timestamp :: int
  deleted_cell :: bytes
  deleted_cell_timestamp :: int

definition tracker_new :: tracker where
  "tracker_new = \<lparr>delete_present = False, deleted_row = [], deleted_row_timestamp = 0,
     deleted_column_family = [], deleted_column_family_timestamp = 0, deleted_cell = [], deleted_cell_timestamp = 0\<rparr>"

definition track_delete_row :: "cell \<Rightarrow> tracker \<Rightarrow> tracker" where
  "track_delete_row c t =
     (if delete_present t \<and> deleted_row t = row_bytes c
      then (if deleted_row_timestamp t < cell_ts c then t\<lparr>deleted_row_timestamp := cell_ts c\<rparr> else t)
      else t\<lparr>deleted_row := row_bytes c, deleted_row_timestamp := cell_ts c, delete_present := True\<rparr>)"

definition track_delete_column_family :: "cell \<Rightarrow> tracker \<Rightarrow> tracker" where
  "track_delete_column_family c t =
     (if delete_present t \<and> deleted_column_family t = cf_bytes c
      then (if deleted_column_family_timestamp t < cell_ts c then t\<lparr>deleted_column_family_timestamp := cell_ts c\<rparr> else t)
      else t\<lparr>deleted_column_family := cf_bytes c, deleted_column_family_timestamp := cell_ts c, delete_present := True\<rparr>)"

definition track_delete_cell :: "cell \<Rightarrow> tracker \<Rightarrow> tracker" where
  "track_delete_cell c t =
     (if delete_present t \<and> deleted_cell t = cell_bytes c
      then (if deleted_cell_timestamp t < cell_ts c then t\<lparr>deleted_cell_timestamp := cell_ts c\<rparr> else t)
      else t\<lparr>deleted_cell := cell_bytes c, deleted_cell_timestamp := cell_ts c, delete_present := True\<rparr>)"

definition track_delete :: "cell \<Rightarrow> tracker \<Rightarrow> tracker" where
  "track_delete c t =
     (if c_flag c = FLAG_DELETE_ROW then track_delete_row c t
      else if c_flag c = FLAG_DELETE_COLUMN_FAMILY then track_delete_column_family c t
      else if c_flag c = FLAG_DELETE_CELL then track_delete_cell c t
      else t)"

text \<open>The test of an insert: whether it is deleted, and the buffers with those that did not match cleared.\<close>

definition check_insert :: "cell \<Rightarrow> tracker \<Rightarrow> bool \<times> tracker" where
  "check_insert c t =
     (if \<not> delete_present t then (False, t)
      else if deleted_cell t \<noteq> [] \<and> deleted_cell t = cell_bytes c then (cell_ts c \<le> deleted_cell_timestamp t, t)
      else let t = t\<lparr>deleted_cell := []\<rparr> in
        if deleted_column_family t \<noteq> [] \<and> deleted_column_family t = cf_bytes c
        then (cell_ts c \<le> deleted_column_family_timestamp t, t)
        else let t = t\<lparr>deleted_column_family := []\<rparr> in
          if deleted_row t \<noteq> [] \<and> deleted_row t = row_bytes c then (cell_ts c \<le> deleted_row_timestamp t, t)
          else (False, t\<lparr>deleted_row := [], delete_present := False\<rparr>))"

section \<open>Order\<close>

type_synonym cell_key = "bytes \<times> byte \<times> bytes \<times> byte \<times> u64"

definition ckey :: "cell \<Rightarrow> cell_key" where
  "ckey c = (c_row c, c_family c, c_qualifier c, c_flag c, NOT (c_timestamp c))"

lemma NOT_eq_iff: "(NOT a = NOT b) = (a = (b :: 'a::len word))"
  by (metis bit.double_compl)

lemma packed_less: "wf_cell a \<Longrightarrow> wf_cell b \<Longrightarrow> (packed a < packed b) = (ckey a < ckey b)"
  by (auto simp: packed_def wf_cell_def key_payload_less ckey_def less_prod_def' NOT_less)

lemma packed_eq: "wf_cell a \<Longrightarrow> wf_cell b \<Longrightarrow> (packed a = packed b) = (ckey a = ckey b)"
  by (rule eq_iff_from_less) (simp_all add: packed_less)

text \<open>What lies between two cells of the same row, family or column belongs to it.\<close>

lemma between_row: "ckey a \<le> ckey b \<Longrightarrow> ckey b \<le> ckey c \<Longrightarrow> c_row a = c_row c \<Longrightarrow> c_row b = c_row c"
  by (auto simp: ckey_def)

lemma between_family:
  "ckey a \<le> ckey b \<Longrightarrow> ckey b \<le> ckey c \<Longrightarrow> c_row a = c_row c \<Longrightarrow> c_family a = c_family c \<Longrightarrow>
    c_row b = c_row c \<and> c_family b = c_family c"
  by (auto simp: ckey_def)

lemma between_cell:
  "ckey a \<le> ckey b \<Longrightarrow> ckey b \<le> ckey c \<Longrightarrow> c_row a = c_row c \<Longrightarrow> c_family a = c_family c \<Longrightarrow>
    c_qualifier a = c_qualifier c \<Longrightarrow> c_row b = c_row c \<and> c_family b = c_family c \<and> c_qualifier b = c_qualifier c"
  by (auto simp: ckey_def)

section \<open>What the tracker knows\<close>

subsection \<open>Prefixes\<close>

lemma append_zero_eq:
  "0 \<notin> set a \<Longrightarrow> 0 \<notin> set b \<Longrightarrow> (a @ 0 # x = b @ 0 # y) = (a = b \<and> x = (y :: bytes))"
  by (induction a arbitrary: b; case_tac b) auto

lemma row_bytes_eq: "wf_cell a \<Longrightarrow> wf_cell b \<Longrightarrow> (row_bytes a = row_bytes b) = (c_row a = c_row b)"
  by (simp add: row_bytes_def)

lemma cf_bytes_eq:
  "wf_cell a \<Longrightarrow> wf_cell b \<Longrightarrow> (cf_bytes a = cf_bytes b) = (c_row a = c_row b \<and> c_family a = c_family b)"
  by (auto simp: cf_bytes_def wf_cell_def append_zero_eq)

lemma cell_bytes_eq:
  "wf_cell a \<Longrightarrow> wf_cell b \<Longrightarrow>
    (cell_bytes a = cell_bytes b) = (c_row a = c_row b \<and> c_family a = c_family b \<and> c_qualifier a = c_qualifier b)"
  by (auto simp: cell_bytes_def wf_cell_def append_zero_eq)

lemma prefix_not_Nil [simp]: "row_bytes c \<noteq> []" "cf_bytes c \<noteq> []" "cell_bytes c \<noteq> []"
  by (simp_all add: row_bytes_def cf_bytes_def cell_bytes_def)

lemmas prefix_not_Nil' [simp] = prefix_not_Nil [symmetric]

lemmas prefix_eq = row_bytes_eq cf_bytes_eq cell_bytes_eq

subsection \<open>The newest delete of a kind\<close>

definition newest :: "cell list \<Rightarrow> int option" where
  "newest ds = (if ds = [] then None else Some (Max (cell_ts ` set ds)))"

definition row_deletes :: "cell list \<Rightarrow> cell \<Rightarrow> cell list" where
  "row_deletes l c = filter (\<lambda>d. c_flag d = FLAG_DELETE_ROW \<and> c_row d = c_row c) l"

definition family_deletes :: "cell list \<Rightarrow> cell \<Rightarrow> cell list" where
  "family_deletes l c = filter (\<lambda>d. c_flag d = FLAG_DELETE_COLUMN_FAMILY \<and> c_row d = c_row c \<and> c_family d = c_family c) l"

definition cell_deletes :: "cell list \<Rightarrow> cell \<Rightarrow> cell list" where
  "cell_deletes l c = filter (\<lambda>d. c_flag d = FLAG_DELETE_CELL \<and> c_row d = c_row c \<and> c_family d = c_family c
     \<and> c_qualifier d = c_qualifier c) l"

lemmas deletes_defs = row_deletes_def family_deletes_def cell_deletes_def

definition newer :: "int option \<Rightarrow> int \<Rightarrow> int option" where
  "newer v t = Some (case v of None \<Rightarrow> t | Some u \<Rightarrow> max u t)"

lemma newest_snoc: "newest (ds @ [d]) = newer (newest ds) (cell_ts d)"
  by (simp add: newest_def newer_def max.commute)

text \<open>What the buffers say about a cell.\<close>

definition row_hit :: "tracker \<Rightarrow> cell \<Rightarrow> int option" where
  "row_hit t c = (if delete_present t \<and> deleted_row t = row_bytes c then Some (deleted_row_timestamp t) else None)"

definition family_hit :: "tracker \<Rightarrow> cell \<Rightarrow> int option" where
  "family_hit t c = (if delete_present t \<and> deleted_column_family t = cf_bytes c
     then Some (deleted_column_family_timestamp t) else None)"

definition cell_hit :: "tracker \<Rightarrow> cell \<Rightarrow> int option" where
  "cell_hit t c = (if delete_present t \<and> deleted_cell t = cell_bytes c then Some (deleted_cell_timestamp t) else None)"

lemmas hit_defs = row_hit_def family_hit_def cell_hit_def

text \<open>The decision on an insert: the most specific kind of delete that matches decides alone.\<close>

definition hidden_by :: "int option \<Rightarrow> int option \<Rightarrow> int option \<Rightarrow> int \<Rightarrow> bool" where
  "hidden_by ce cf ro t = (case ce of Some u \<Rightarrow> t \<le> u | None \<Rightarrow>
     (case cf of Some u \<Rightarrow> t \<le> u | None \<Rightarrow> (case ro of Some u \<Rightarrow> t \<le> u | None \<Rightarrow> False)))"

definition hidden :: "cell list \<Rightarrow> cell \<Rightarrow> bool" where
  "hidden l c = hidden_by (newest (cell_deletes l c)) (newest (family_deletes l c)) (newest (row_deletes l c)) (cell_ts c)"

lemma check_insert_hits:
  "fst (check_insert c t) = hidden_by (cell_hit t c) (family_hit t c) (row_hit t c) (cell_ts c)"
  by (auto simp: check_insert_def hidden_by_def hit_defs Let_def)

subsection \<open>The invariant\<close>

text \<open>\<open>tracks l t\<close>: the buffers name deletes of \<open>l\<close>, and about every cell that is not before \<open>l\<close> they
  know the newest delete of each kind.\<close>

definition tracks :: "cell list \<Rightarrow> tracker \<Rightarrow> bool" where
  "tracks l t \<longleftrightarrow>
     (\<not> delete_present t \<longrightarrow> deleted_row t = [] \<and> deleted_column_family t = [] \<and> deleted_cell t = [])
   \<and> (deleted_row t \<noteq> [] \<longrightarrow> (\<exists>d\<in>set l. deleted_row t = row_bytes d))
   \<and> (deleted_column_family t \<noteq> [] \<longrightarrow> (\<exists>d\<in>set l. deleted_column_family t = cf_bytes d))
   \<and> (deleted_cell t \<noteq> [] \<longrightarrow> (\<exists>d\<in>set l. deleted_cell t = cell_bytes d))
   \<and> (\<forall>c. wf_cell c \<and> (\<forall>d\<in>set l. ckey d \<le> ckey c) \<longrightarrow>
        row_hit t c = newest (row_deletes l c) \<and> family_hit t c = newest (family_deletes l c)
        \<and> cell_hit t c = newest (cell_deletes l c))"

lemma tracksD:
  assumes "tracks l t"
  shows "\<not> delete_present t \<Longrightarrow> deleted_row t = [] \<and> deleted_column_family t = [] \<and> deleted_cell t = []"
    and "deleted_row t \<noteq> [] \<Longrightarrow> \<exists>d\<in>set l. deleted_row t = row_bytes d"
    and "deleted_column_family t \<noteq> [] \<Longrightarrow> \<exists>d\<in>set l. deleted_column_family t = cf_bytes d"
    and "deleted_cell t \<noteq> [] \<Longrightarrow> \<exists>d\<in>set l. deleted_cell t = cell_bytes d"
    and "wf_cell c \<Longrightarrow> (\<And>d. d \<in> set l \<Longrightarrow> ckey d \<le> ckey c) \<Longrightarrow>
      row_hit t c = newest (row_deletes l c) \<and> family_hit t c = newest (family_deletes l c)
      \<and> cell_hit t c = newest (cell_deletes l c)"
  using assms unfolding tracks_def by blast+

lemma tracks_new: "tracks [] tracker_new"
  by (simp add: tracks_def tracker_new_def hit_defs newest_def deletes_defs)

lemmas FLAG_defs = FLAG_DELETE_ROW_def FLAG_DELETE_COLUMN_FAMILY_def FLAG_DELETE_CELL_def FLAG_INSERT_def

subsection \<open>Every step keeps it\<close>

text \<open>A buffer that matches a later cell matches everything in between.\<close>

lemma row_buffer_between:
  assumes "tracks l t" "wf_cell e" "wf_cell c" "\<And>d. d \<in> set l \<Longrightarrow> wf_cell d \<and> ckey d \<le> ckey e" "ckey e \<le> ckey c"
    and "deleted_row t = row_bytes c"
  shows "row_bytes e = row_bytes c"
proof -
  obtain d where d: "d \<in> set l" "row_bytes d = row_bytes c"
    using tracksD(2)[OF assms(1)] assms(6) prefix_not_Nil by metis
  then show ?thesis using assms between_row[of d e c] by (simp add: prefix_eq)
qed

lemma family_buffer_between:
  assumes "tracks l t" "wf_cell e" "wf_cell c" "\<And>d. d \<in> set l \<Longrightarrow> wf_cell d \<and> ckey d \<le> ckey e" "ckey e \<le> ckey c"
    and "deleted_column_family t = cf_bytes c"
  shows "cf_bytes e = cf_bytes c"
proof -
  obtain d where d: "d \<in> set l" "cf_bytes d = cf_bytes c"
    using tracksD(3)[OF assms(1)] assms(6) prefix_not_Nil by metis
  then show ?thesis using assms between_family[of d e c] by (simp add: prefix_eq)
qed

lemma cell_buffer_between:
  assumes "tracks l t" "wf_cell e" "wf_cell c" "\<And>d. d \<in> set l \<Longrightarrow> wf_cell d \<and> ckey d \<le> ckey e" "ckey e \<le> ckey c"
    and "deleted_cell t = cell_bytes c"
  shows "cell_bytes e = cell_bytes c"
proof -
  obtain d where d: "d \<in> set l" "cell_bytes d = cell_bytes c"
    using tracksD(4)[OF assms(1)] assms(6) prefix_not_Nil by metis
  then show ?thesis using assms between_cell[of d e c] by (simp add: prefix_eq)
qed

lemmas buffer_between = row_buffer_between family_buffer_between cell_buffer_between

text \<open>To add a cell, it is enough to follow the three answers about the cells after it.\<close>

lemma tracks_snocI:
  assumes "tracks l t"
    and "\<not> delete_present t' \<Longrightarrow> deleted_row t' = [] \<and> deleted_column_family t' = [] \<and> deleted_cell t' = []"
    and "deleted_row t' \<in> {[], deleted_row t, row_bytes e}"
    and "deleted_column_family t' \<in> {[], deleted_column_family t, cf_bytes e}"
    and "deleted_cell t' \<in> {[], deleted_cell t, cell_bytes e}"
    and "\<And>c. wf_cell c \<Longrightarrow> ckey e \<le> ckey c \<Longrightarrow>
      row_hit t' c = (if row_deletes [e] c = [] then row_hit t c else newer (row_hit t c) (cell_ts e))"
    and "\<And>c. wf_cell c \<Longrightarrow> ckey e \<le> ckey c \<Longrightarrow>
      family_hit t' c = (if family_deletes [e] c = [] then family_hit t c else newer (family_hit t c) (cell_ts e))"
    and "\<And>c. wf_cell c \<Longrightarrow> ckey e \<le> ckey c \<Longrightarrow>
      cell_hit t' c = (if cell_deletes [e] c = [] then cell_hit t c else newer (cell_hit t c) (cell_ts e))"
  shows "tracks (l @ [e]) t'"
proof -
  have hits: "row_hit t' c = newest (row_deletes (l @ [e]) c)" "family_hit t' c = newest (family_deletes (l @ [e]) c)"
    "cell_hit t' c = newest (cell_deletes (l @ [e]) c)"
    if "wf_cell c" "\<forall>d\<in>set (l @ [e]). ckey d \<le> ckey c" for c
    using tracksD(5)[OF assms(1) that(1)] assms(6-8)[OF that(1)] that(2)
    by (auto simp: deletes_defs newest_snoc)
  have b: "deleted_row t' \<noteq> [] \<longrightarrow> (\<exists>d\<in>set (l @ [e]). deleted_row t' = row_bytes d)"
    "deleted_column_family t' \<noteq> [] \<longrightarrow> (\<exists>d\<in>set (l @ [e]). deleted_column_family t' = cf_bytes d)"
    "deleted_cell t' \<noteq> [] \<longrightarrow> (\<exists>d\<in>set (l @ [e]). deleted_cell t' = cell_bytes d)"
    using assms(3-5) tracksD(2-4)[OF assms(1)] by auto
  show ?thesis using assms(2) hits b unfolding tracks_def by simp
qed

lemma row_hit_keep:
  "tracks l t \<Longrightarrow> delete_present t' \<Longrightarrow> deleted_row t' = deleted_row t \<Longrightarrow>
    deleted_row_timestamp t' = deleted_row_timestamp t \<Longrightarrow> row_hit t' c = row_hit t c"
  using tracksD(1)[of l t] by (cases "delete_present t") (simp_all add: row_hit_def)

lemma family_hit_keep:
  "tracks l t \<Longrightarrow> delete_present t' \<Longrightarrow> deleted_column_family t' = deleted_column_family t \<Longrightarrow>
    deleted_column_family_timestamp t' = deleted_column_family_timestamp t \<Longrightarrow> family_hit t' c = family_hit t c"
  using tracksD(1)[of l t] by (cases "delete_present t") (simp_all add: family_hit_def)

lemma cell_hit_keep:
  "tracks l t \<Longrightarrow> delete_present t' \<Longrightarrow> deleted_cell t' = deleted_cell t \<Longrightarrow>
    deleted_cell_timestamp t' = deleted_cell_timestamp t \<Longrightarrow> cell_hit t' c = cell_hit t c"
  using tracksD(1)[of l t] by (cases "delete_present t") (simp_all add: cell_hit_def)

lemma tracks_delete_row:
  assumes t: "tracks l t" and e: "wf_cell e" "\<And>d. d \<in> set l \<Longrightarrow> wf_cell d \<and> ckey d \<le> ckey e"
    and f: "c_flag e = FLAG_DELETE_ROW"
  shows "tracks (l @ [e]) (track_delete_row e t)"
proof (rule tracks_snocI[OF t])
  let ?t = "track_delete_row e t"
  have p: "delete_present ?t" by (simp add: track_delete_row_def)
  show "\<not> delete_present ?t \<Longrightarrow> deleted_row ?t = [] \<and> deleted_column_family ?t = [] \<and> deleted_cell ?t = []"
    using p by simp
  fix c assume c: "wf_cell c" "ckey e \<le> ckey c"
  note m = row_buffer_between[OF t e(1) c(1) e(2) c(2)]
  show "row_hit ?t c = (if row_deletes [e] c = [] then row_hit t c else newer (row_hit t c) (cell_ts e))"
  proof (cases "row_bytes e = row_bytes c")
    case True
    then show ?thesis using row_bytes_eq[OF e(1) c(1)] f
      by (simp add: track_delete_row_def row_hit_def row_deletes_def newer_def)
  next
    case False
    moreover have "deleted_row t \<noteq> row_bytes c" using m False by blast
    moreover have "row_deletes [e] c = []" using row_bytes_eq[OF e(1) c(1)] False by (simp add: row_deletes_def)
    ultimately show ?thesis by (simp add: track_delete_row_def row_hit_def)
  qed
  show "family_hit ?t c = (if family_deletes [e] c = [] then family_hit t c else newer (family_hit t c) (cell_ts e))"
    using family_hit_keep[OF t p] f by (simp add: track_delete_row_def family_deletes_def FLAG_defs)
  show "cell_hit ?t c = (if cell_deletes [e] c = [] then cell_hit t c else newer (cell_hit t c) (cell_ts e))"
    using cell_hit_keep[OF t p] f by (simp add: track_delete_row_def cell_deletes_def FLAG_defs)
qed (simp_all add: track_delete_row_def)

lemma tracks_delete_column_family:
  assumes t: "tracks l t" and e: "wf_cell e" "\<And>d. d \<in> set l \<Longrightarrow> wf_cell d \<and> ckey d \<le> ckey e"
    and f: "c_flag e = FLAG_DELETE_COLUMN_FAMILY"
  shows "tracks (l @ [e]) (track_delete_column_family e t)"
proof (rule tracks_snocI[OF t])
  let ?t = "track_delete_column_family e t"
  have p: "delete_present ?t" by (simp add: track_delete_column_family_def)
  show "\<not> delete_present ?t \<Longrightarrow> deleted_row ?t = [] \<and> deleted_column_family ?t = [] \<and> deleted_cell ?t = []"
    using p by simp
  fix c assume c: "wf_cell c" "ckey e \<le> ckey c"
  note m = family_buffer_between[OF t e(1) c(1) e(2) c(2)]
  show "family_hit ?t c = (if family_deletes [e] c = [] then family_hit t c else newer (family_hit t c) (cell_ts e))"
  proof (cases "cf_bytes e = cf_bytes c")
    case True
    then show ?thesis using cf_bytes_eq[OF e(1) c(1)] f
      by (simp add: track_delete_column_family_def family_hit_def family_deletes_def newer_def)
  next
    case False
    moreover have "deleted_column_family t \<noteq> cf_bytes c" using m False by blast
    moreover have "family_deletes [e] c = []" using cf_bytes_eq[OF e(1) c(1)] False by (simp add: family_deletes_def)
    ultimately show ?thesis by (simp add: track_delete_column_family_def family_hit_def)
  qed
  show "row_hit ?t c = (if row_deletes [e] c = [] then row_hit t c else newer (row_hit t c) (cell_ts e))"
    using row_hit_keep[OF t p] f by (simp add: track_delete_column_family_def row_deletes_def FLAG_defs)
  show "cell_hit ?t c = (if cell_deletes [e] c = [] then cell_hit t c else newer (cell_hit t c) (cell_ts e))"
    using cell_hit_keep[OF t p] f by (simp add: track_delete_column_family_def cell_deletes_def FLAG_defs)
qed (simp_all add: track_delete_column_family_def)

lemma tracks_delete_cell:
  assumes t: "tracks l t" and e: "wf_cell e" "\<And>d. d \<in> set l \<Longrightarrow> wf_cell d \<and> ckey d \<le> ckey e"
    and f: "c_flag e = FLAG_DELETE_CELL"
  shows "tracks (l @ [e]) (track_delete_cell e t)"
proof (rule tracks_snocI[OF t])
  let ?t = "track_delete_cell e t"
  have p: "delete_present ?t" by (simp add: track_delete_cell_def)
  show "\<not> delete_present ?t \<Longrightarrow> deleted_row ?t = [] \<and> deleted_column_family ?t = [] \<and> deleted_cell ?t = []"
    using p by simp
  fix c assume c: "wf_cell c" "ckey e \<le> ckey c"
  note m = cell_buffer_between[OF t e(1) c(1) e(2) c(2)]
  show "cell_hit ?t c = (if cell_deletes [e] c = [] then cell_hit t c else newer (cell_hit t c) (cell_ts e))"
  proof (cases "cell_bytes e = cell_bytes c")
    case True
    then show ?thesis using cell_bytes_eq[OF e(1) c(1)] f
      by (simp add: track_delete_cell_def cell_hit_def cell_deletes_def newer_def)
  next
    case False
    moreover have "deleted_cell t \<noteq> cell_bytes c" using m False by blast
    moreover have "cell_deletes [e] c = []" using cell_bytes_eq[OF e(1) c(1)] False by (simp add: cell_deletes_def)
    ultimately show ?thesis by (simp add: track_delete_cell_def cell_hit_def)
  qed
  show "row_hit ?t c = (if row_deletes [e] c = [] then row_hit t c else newer (row_hit t c) (cell_ts e))"
    using row_hit_keep[OF t p] f by (simp add: track_delete_cell_def row_deletes_def FLAG_defs)
  show "family_hit ?t c = (if family_deletes [e] c = [] then family_hit t c else newer (family_hit t c) (cell_ts e))"
    using family_hit_keep[OF t p] f by (simp add: track_delete_cell_def family_deletes_def FLAG_defs)
qed (simp_all add: track_delete_cell_def)

lemma tracks_skip:
  assumes "tracks l t" "c_flag e = FLAG_INSERT"
  shows "tracks (l @ [e]) t"
  by (rule tracks_snocI[OF assms(1)]) (use assms tracksD(1)[OF assms(1)] in \<open>auto simp: deletes_defs FLAG_defs\<close>)

lemma Nil_less_conv: "([] < (xs :: 'a::order list)) = (xs \<noteq> [])"
  by (cases xs) simp_all

lemma tracks_check_insert:
  assumes t: "tracks l t" and e: "wf_cell e" "\<And>d. d \<in> set l \<Longrightarrow> wf_cell d \<and> ckey d \<le> ckey e"
    and f: "c_flag e = FLAG_INSERT"
  shows "tracks (l @ [e]) (snd (check_insert e t))"
proof (rule tracks_snocI[OF t])
  fix c assume c: "wf_cell c" "ckey e \<le> ckey c"
  have m: "deleted_row t \<noteq> row_bytes c \<or> row_bytes e = row_bytes c"
    "deleted_column_family t \<noteq> cf_bytes c \<or> cf_bytes e = cf_bytes c"
    "deleted_cell t \<noteq> cell_bytes c \<or> cell_bytes e = cell_bytes c"
    using buffer_between[OF t e(1) c(1) e(2) c(2)] by blast+
  have n: "row_deletes [e] c = []" "family_deletes [e] c = []" "cell_deletes [e] c = []"
    using f by (simp_all add: deletes_defs FLAG_defs)
  show "row_hit (snd (check_insert e t)) c =
      (if row_deletes [e] c = [] then row_hit t c else newer (row_hit t c) (cell_ts e))"
    using m(1) by (auto simp: n check_insert_def Let_def row_hit_def)
  show "family_hit (snd (check_insert e t)) c =
      (if family_deletes [e] c = [] then family_hit t c else newer (family_hit t c) (cell_ts e))"
    using m(2) by (auto simp: n check_insert_def Let_def family_hit_def)
  show "cell_hit (snd (check_insert e t)) c =
      (if cell_deletes [e] c = [] then cell_hit t c else newer (cell_hit t c) (cell_ts e))"
    using m(3) by (auto simp: n check_insert_def Let_def cell_hit_def)
qed (use tracksD(1)[OF t] in \<open>auto simp: check_insert_def Let_def split: if_splits\<close>)

text \<open>So the test of an insert decides \<open>hidden\<close>.\<close>

lemma check_insert_hidden:
  assumes "tracks l t" "wf_cell e" "\<And>d. d \<in> set l \<Longrightarrow> wf_cell d \<and> ckey d \<le> ckey e"
  shows "fst (check_insert e t) = hidden l e"
  using tracksD(5)[OF assms(1,2)] assms(3) by (simp add: check_insert_hits hidden_def)

text \<open>The deletes that bear on a cell come before it, so what is after the cell does not matter.\<close>

lemma delete_before:
  assumes "wf_cell d" "wf_cell c" "c_flag c = FLAG_INSERT"
    and "d \<in> set (row_deletes l c) \<union> set (family_deletes l c) \<union> set (cell_deletes l c)"
  shows "ckey d < ckey c"
  using assms
  by (auto simp: deletes_defs ckey_def wf_cell_def FLAG_defs less_prod_def' word_gt_0 Nil_less_conv)

lemma hidden_append:
  assumes "wf_cell c" "c_flag c = FLAG_INSERT" "\<And>d. d \<in> set r \<Longrightarrow> wf_cell d \<and> ckey c \<le> ckey d"
  shows "hidden (l @ r) c = hidden l c"
proof -
  have "row_deletes r c = []" "family_deletes r c = []" "cell_deletes r c = []"
    using delete_before[OF _ assms(1,2), of _ r] assms(3)
    by (fastforce simp: deletes_defs filter_empty_conv dest: leD)+
  then show ?thesis by (simp add: hidden_def deletes_defs)
qed

lemma tracks_track_delete:
  assumes "tracks l t" "wf_cell e" "\<And>d. d \<in> set l \<Longrightarrow> wf_cell d \<and> ckey d \<le> ckey e" "c_flag e \<noteq> FLAG_INSERT"
  shows "tracks (l @ [e]) (track_delete e t)"
  using tracks_delete_row[OF assms(1-3)] tracks_delete_column_family[OF assms(1-3)] tracks_delete_cell[OF assms(1-3)] assms(2,4)
  by (auto simp: track_delete_def wf_cell_def)

section \<open>Scanners\<close>

text \<open>\<^verbatim>\<open>CellListScanner\<close>: \<^verbatim>\<open>get\<close> looks at the current cell, \<^verbatim>\<open>forward\<close> moves to the next. A client reads a scanner by
  alternating the two until \<^verbatim>\<open>get\<close> returns false.\<close>

fun drain :: "('s \<Rightarrow> cell option) \<Rightarrow> ('s \<Rightarrow> 's result) \<Rightarrow> nat \<Rightarrow> 's \<Rightarrow> cell list result" where
  "drain get forward 0 s = Inr []"
| "drain get forward (Suc n) s =
     (case get s of None \<Rightarrow> Inr []
      | Some c \<Rightarrow> rbind (forward s) (\<lambda>s'. rbind (drain get forward n s') (\<lambda>cs. Inr (c # cs))))"

locale cell_list_scanner =
  fixes get :: "'s \<Rightarrow> cell option"
    and forward :: "'s \<Rightarrow> 's result"
    and remaining :: "'s \<Rightarrow> cell list"
    and inv :: "'s \<Rightarrow> bool"
  assumes get_remaining: "inv s \<Longrightarrow> get s = (case remaining s of [] \<Rightarrow> None | c # _ \<Rightarrow> Some c)"
    and forward_remaining: "inv s \<Longrightarrow> remaining s = c # cs \<Longrightarrow> \<exists>s'. forward s = Inr s' \<and> inv s' \<and> remaining s' = cs"
begin

lemma drain_remaining: "inv s \<Longrightarrow> length (remaining s) \<le> n \<Longrightarrow> drain get forward n s = Inr (remaining s)"
proof (induction n arbitrary: s)
  case (Suc n)
  show ?case
  proof (cases "remaining s")
    case Nil
    then show ?thesis using get_remaining[OF Suc.prems(1)] by simp
  next
    case (Cons c cs)
    then show ?thesis using get_remaining[OF Suc.prems(1)] forward_remaining[OF Suc.prems(1) Cons] Suc by auto
  qed
qed simp

end

end
