(* ===== verification/CellCaches.thy ===== *)
theory CellCaches
  imports Cells "HOL-Library.Multiset"
begin

text \<open>
  The in-memory cell store (\<^verbatim>\<open>CellCache.cc\<close>, \<^verbatim>\<open>CellCacheScanner.cc\<close>). The \<^verbatim>\<open>std::map\<close> from keys to value offsets is
  an ordered list of entries; the top bit of the offset word says that the memory of the entry has been handed
  to a child. Shown: what a sequence of \<^verbatim>\<open>add\<close>s stores and counts, what the two copying operations
  keep, that no entry is freed twice or lost by them, and the cells a scanner returns.
\<close>

unbundle bit_operations_syntax

section \<open>State\<close>

type_synonym entry = "cell \<times> u32"

definition ALLOC_BIT_MASK :: u32 where "ALLOC_BIT_MASK = 0x80000000"
definition OFFSET_BIT_MASK :: u32 where "OFFSET_BIT_MASK = 0x7FFFFFFF"

record cell_cache =
  cell_map :: "entry list"
  m_memory_used :: u64
  m_deletes :: u32
  m_collisions :: u32

definition cc_new :: cell_cache where
  "cc_new = \<lparr>cell_map = [], m_memory_used = 0, m_deletes = 0, m_collisions = 0\<rparr>"

text \<open>\<^verbatim>\<open>std::map::insert\<close>: \<open>None\<close> when the key is present.\<close>

fun cm_insert :: "entry \<Rightarrow> entry list \<Rightarrow> entry list option" where
  "cm_insert e [] = Some [e]"
| "cm_insert e (x # xs) =
     (if packed (fst e) < packed (fst x) then Some (e # x # xs)
      else if packed (fst x) < packed (fst e) then map_option ((#) x) (cm_insert e xs)
      else None)"

definition key_len :: "cell \<Rightarrow> nat" where
  "key_len c = length (bs_of (packed c))"

definition total_len :: "cell \<Rightarrow> nat" where
  "total_len c = key_len c + length (bs_of (c_value c))"

section \<open>Operations\<close>

definition cc_add :: "cell \<Rightarrow> cell_cache \<Rightarrow> cell_cache" where
  "cc_add c s =
     (case cm_insert (c, of_nat (key_len c)) (cell_map s) of
        None \<Rightarrow> s\<lparr>m_collisions := m_collisions s + 1\<rparr>
      | Some m \<Rightarrow> s\<lparr>cell_map := m, m_memory_used := m_memory_used s + of_nat (total_len c),
          m_deletes := (if c_flag c \<le> FLAG_DELETE_CELL then m_deletes s + 1 else m_deletes s)\<rparr>)"

definition cc_memory_used :: "cell_cache \<Rightarrow> u64" where
  "cc_memory_used s = m_memory_used s + of_nat (length (cell_map s)) * 16"

definition get_split_rows :: "cell_cache \<Rightarrow> bytes list" where
  "get_split_rows s =
     (if length (cell_map s) > 2 then [c_row (fst (cell_map s ! (length (cell_map s) div 2)))] else [])"

fun get_rows_loop :: "bytes \<Rightarrow> entry list \<Rightarrow> bytes list" where
  "get_rows_loop last_row [] = []"
| "get_rows_loop last_row (e # es) =
     (if c_row (fst e) \<noteq> last_row then c_row (fst e) # get_rows_loop (c_row (fst e)) es else get_rows_loop last_row es)"

definition get_rows :: "cell_cache \<Rightarrow> bytes list" where
  "get_rows s = get_rows_loop [] (cell_map s)"

text \<open>Both copying operations walk the map, insert an entry into the child and mark it in the parent.
  Their loops return the entries of the parent as they leave them, and the map of the child.\<close>

definition cm_add :: "entry \<Rightarrow> entry list \<Rightarrow> entry list" where
  "cm_add e m = (case cm_insert e m of None \<Rightarrow> m | Some m' \<Rightarrow> m')"

fun slice_loop :: "int \<Rightarrow> entry list \<Rightarrow> entry list \<Rightarrow> entry list \<times> entry list" where
  "slice_loop timestamp [] child = ([], child)"
| "slice_loop timestamp ((c, off) # es) child =
     (if cell_ts c > timestamp
      then (let (p, ch) = slice_loop timestamp es (cm_add (c, off) child) in ((c, off OR ALLOC_BIT_MASK) # p, ch))
      else (let (p, ch) = slice_loop timestamp es child in ((c, off) # p, ch)))"

definition slice_copy :: "int \<Rightarrow> cell_cache \<Rightarrow> cell_cache \<times> cell_cache" where
  "slice_copy timestamp s =
     (let (p, ch) = slice_loop timestamp (cell_map s) [] in (s\<lparr>cell_map := p\<rparr>, cc_new\<lparr>cell_map := ch\<rparr>))"

fun purge_loop :: "tracker \<Rightarrow> entry list \<Rightarrow> entry list \<Rightarrow> entry list \<times> entry list" where
  "purge_loop t [] child = ([], child)"
| "purge_loop t ((c, off) # es) child =
     (if c_flag c = FLAG_INSERT
      then (let (deleted, t') = check_insert c t in
        if deleted then (let (p, ch) = purge_loop t' es child in ((c, off) # p, ch))
        else (let (p, ch) = purge_loop t' es (cm_add (c, off) child) in ((c, off OR ALLOC_BIT_MASK) # p, ch)))
      else (let (p, ch) = purge_loop (track_delete c t) es child in ((c, off) # p, ch)))"

definition purge_deletes :: "cell_cache \<Rightarrow> cell_cache \<times> cell_cache" where
  "purge_deletes s =
     (let (p, ch) = purge_loop tracker_new (cell_map s) [] in (s\<lparr>cell_map := p\<rparr>, cc_new\<lparr>cell_map := ch\<rparr>))"

text \<open>The destructor: the entries whose memory it frees, and the bytes it reports as freed.\<close>

definition owned :: "entry \<Rightarrow> bool" where
  "owned e \<longleftrightarrow> snd e AND ALLOC_BIT_MASK = 0"

definition cc_freed :: "cell_cache \<Rightarrow> cell list" where
  "cc_freed s = map fst (filter owned (cell_map s))"

definition cc_mem_freed :: "cell_cache \<Rightarrow> u64" where
  "cc_mem_freed s = sum_list (map (\<lambda>e. ucast (snd e AND OFFSET_BIT_MASK) + of_nat (length (bs_of (c_value (fst e)))))
     (filter owned (cell_map s)))"

section \<open>Scanner\<close>

text \<open>\<open>cur\<close> is what lies between \<^verbatim>\<open>m_cur_iter\<close> and \<^verbatim>\<open>m_end_iter\<close>. The constructor positions both by
  \<^verbatim>\<open>lower_bound\<close> of the row with its terminator.\<close>

record cc_scanner =
  cur :: "entry list"
  cur_cell :: "cell option"
  eos :: bool

fun skip_unselected :: "(byte \<Rightarrow> bool) \<Rightarrow> entry list \<Rightarrow> cc_scanner" where
  "skip_unselected family_mask [] = \<lparr>cur = [], cur_cell = None, eos = True\<rparr>"
| "skip_unselected family_mask (e # es) =
     (if c_flag (fst e) = FLAG_DELETE_ROW \<or> family_mask (c_family (fst e))
      then \<lparr>cur = e # es, cur_cell = Some (fst e), eos = False\<rparr>
      else skip_unselected family_mask es)"

definition create_scanner :: "bytes \<Rightarrow> bytes \<Rightarrow> (byte \<Rightarrow> bool) \<Rightarrow> cell_cache \<Rightarrow> cc_scanner" where
  "create_scanner start_row end_row family_mask s =
     skip_unselected family_mask
       (takeWhile (\<lambda>e. packed (fst e) < end_row @ [0]) (dropWhile (\<lambda>e. packed (fst e) < start_row @ [0]) (cell_map s)))"

definition ccs_get :: "cc_scanner \<Rightarrow> cell option" where
  "ccs_get sc = (if eos sc then None else cur_cell sc)"

text \<open>At the end the increment would leave the map: undefined.\<close>

definition ccs_forward :: "(byte \<Rightarrow> bool) \<Rightarrow> cc_scanner \<Rightarrow> cc_scanner result" where
  "ccs_forward family_mask sc =
     (case cur sc of [] \<Rightarrow> Inl UNDEFINED_BEHAVIOUR
      | _ # es \<Rightarrow> Inr (let n = skip_unselected family_mask es in
          if eos n then sc\<lparr>cur := [], eos := True\<rparr> else n))"

section \<open>The map\<close>

definition ordered :: "entry list \<Rightarrow> bool" where
  "ordered m \<longleftrightarrow> sorted_wrt (\<lambda>a b. packed (fst a) < packed (fst b)) m"

lemma ordered_simps [simp]:
  "ordered []" "ordered (x # m) \<longleftrightarrow> (\<forall>y\<in>set m. packed (fst x) < packed (fst y)) \<and> ordered m"
  by (simp_all add: ordered_def)

lemma ordered_append:
  "ordered (a @ b) \<longleftrightarrow> ordered a \<and> ordered b \<and> (\<forall>x\<in>set a. \<forall>y\<in>set b. packed (fst x) < packed (fst y))"
  by (auto simp: ordered_def sorted_wrt_append)

lemma cm_insert_None: "ordered m \<Longrightarrow> (cm_insert e m = None) = (packed (fst e) \<in> (\<lambda>x. packed (fst x)) ` set m)"
  by (induction m) (auto dest: less_trans)

lemma cm_insert_mset: "cm_insert e m = Some m' \<Longrightarrow> mset m' = add_mset e (mset m)"
  by (induction m arbitrary: m') (auto split: if_splits)

lemma cm_insert_set: "cm_insert e m = Some m' \<Longrightarrow> set m' = insert e (set m)"
  by (drule cm_insert_mset) (metis set_mset_add_mset_insert set_mset_mset)

lemma cm_insert_ordered: "cm_insert e m = Some m' \<Longrightarrow> ordered m \<Longrightarrow> ordered m'"
proof (induction m arbitrary: m')
  case (Cons x m)
  then show ?case using less_trans[of "packed (fst e)" "packed (fst x)"]
    by (auto split: if_splits simp: cm_insert_set[of e m] Ball_def split_paired_All)
qed simp

lemma cm_insert_last: "\<forall>x\<in>set m. packed (fst x) < packed (fst e) \<Longrightarrow> cm_insert e m = Some (m @ [e])"
  by (induction m) auto

lemma cm_add_last: "\<forall>x\<in>set m. packed (fst x) < packed (fst e) \<Longrightarrow> cm_add e m = m @ [e]"
  by (simp add: cm_add_def cm_insert_last)

section \<open>Adding\<close>

text \<open>The first cell of each key, in the order of arrival.\<close>

fun firsts :: "bytes set \<Rightarrow> cell list \<Rightarrow> cell list" where
  "firsts K [] = []"
| "firsts K (c # cs) = (if packed c \<in> K then firsts K cs else c # firsts (insert (packed c) K) cs)"

lemma firsts_snoc: "firsts K (cs @ [c]) = firsts K cs @ (if packed c \<in> K \<union> packed ` set cs then [] else [c])"
  by (induction cs arbitrary: K) auto

lemma packed_firsts: "K \<union> packed ` set (firsts K cs) = K \<union> packed ` set cs"
proof (induction cs arbitrary: K)
  case (Cons c cs)
  show ?case
  proof (cases "packed c \<in> K")
    case True
    then show ?thesis using Cons[of K] by auto
  next
    case False
    have "K \<union> packed ` set (firsts K (c # cs)) = insert (packed c) K \<union> packed ` set (firsts (insert (packed c) K) cs)"
      using False by auto
    then show ?thesis by (simp only: Cons) auto
  qed
qed simp

lemma length_firsts: "length (firsts K cs) \<le> length cs"
  by (induction cs arbitrary: K) (auto intro: le_SucI)

text \<open>What the cache is after a sequence of insertions.\<close>

definition cc_holds :: "cell list \<Rightarrow> cell_cache \<Rightarrow> bool" where
  "cc_holds cs s \<longleftrightarrow> ordered (cell_map s) \<and> mset (map fst (cell_map s)) = mset (firsts {} cs)
     \<and> (\<forall>e\<in>set (cell_map s). snd e = of_nat (key_len (fst e)))
     \<and> m_memory_used s = of_nat (sum_list (map total_len (firsts {} cs)))
     \<and> m_deletes s = of_nat (length (filter (\<lambda>c. c_flag c \<le> FLAG_DELETE_CELL) (firsts {} cs)))
     \<and> m_collisions s = of_nat (length cs - length (firsts {} cs))"

lemma cc_holds_keys: "cc_holds cs s \<Longrightarrow> (\<lambda>x. packed (fst x)) ` set (cell_map s) = packed ` set cs"
proof -
  assume "cc_holds cs s"
  then have "fst ` set (cell_map s) = set (firsts {} cs)"
    unfolding cc_holds_def by (metis set_map set_mset_mset)
  then show ?thesis using packed_firsts[of "{}" cs] by (metis image_image sup_bot_left)
qed

lemma cc_add_holds: "cc_holds cs s \<Longrightarrow> cc_holds (cs @ [c]) (cc_add c s)"
proof (cases "cm_insert (c, of_nat (key_len c)) (cell_map s)")
  case None
  moreover assume h: "cc_holds cs s"
  ultimately have "packed c \<in> packed ` set cs"
    using cm_insert_None[of "cell_map s" "(c, of_nat (key_len c))"] cc_holds_keys[OF h] by (simp add: cc_holds_def)
  with h None show ?thesis
    by (simp add: cc_add_def cc_holds_def firsts_snoc Suc_diff_le length_firsts)
next
  case (Some m)
  moreover assume h: "cc_holds cs s"
  ultimately have "packed c \<notin> packed ` set cs"
    using cm_insert_None[of "cell_map s" "(c, of_nat (key_len c))"] cc_holds_keys[OF h] by (simp add: cc_holds_def)
  with h Some show ?thesis
    using cm_insert_ordered[OF Some] cm_insert_set[OF Some] cm_insert_mset[OF Some]
    by (simp add: cc_add_def cc_holds_def firsts_snoc)
qed

lemma cc_new_holds: "cc_holds [] cc_new"
  by (simp add: cc_holds_def cc_new_def)

text \<open>C6. After any sequence of insertions into an empty cell cache, the map holds the first cell of every key, in key
  order, with the offset of its value; the memory, delete and collision counters are exact (modulo their width).\<close>

theorem cc_add_sequence:
  "cc_holds cs (fold cc_add cs cc_new)"
  by (induction cs rule: rev_induct) (simp_all add: cc_new_holds cc_add_holds)

section \<open>Copies\<close>

definition marked :: "(cell \<Rightarrow> bool) \<Rightarrow> entry list \<Rightarrow> entry list" where
  "marked P m = map (\<lambda>e. if P (fst e) then (fst e, snd e OR ALLOC_BIT_MASK) else e) m"

lemma slice_loop_eq:
  assumes "ordered (child @ m)"
  shows "slice_loop t m child = (marked (\<lambda>c. cell_ts c > t) m, child @ filter (\<lambda>e. cell_ts (fst e) > t) m)"
  using assms
proof (induction t m child rule: slice_loop.induct)
  case (2 t c off es child)
  then have "cm_add (c, off) child = child @ [(c, off)]" by (simp add: cm_add_last ordered_append)
  with 2 show ?case by (auto simp: marked_def ordered_append)
qed (simp add: marked_def)

definition wf_map :: "entry list \<Rightarrow> bool" where
  "wf_map m \<longleftrightarrow> ordered m \<and> (\<forall>e\<in>set m. wf_cell (fst e))"

definition kept :: "cell list \<Rightarrow> cell \<Rightarrow> bool" where
  "kept L c \<longleftrightarrow> c_flag c = FLAG_INSERT \<and> \<not> hidden L c"

lemma purge_loop_eq:
  assumes "tracks l t" and "\<And>d. d \<in> set l \<Longrightarrow> wf_cell d \<and> (\<forall>e\<in>set m. ckey d \<le> ckey (fst e))"
    and "wf_map m" and "ordered (child @ m)"
  shows "purge_loop t m child =
    (marked (kept (l @ map fst m)) m, child @ filter (\<lambda>e. kept (l @ map fst m) (fst e)) m)"
  using assms
proof (induction m arbitrary: l t child)
  case Nil
  then show ?case by (simp add: marked_def)
next
  case (Cons e es)
  obtain c off where e: "e = (c, off)" by (cases e)
  let ?L = "l @ map fst (e # es)"
  have wf: "wf_cell c" "wf_map es" and later: "\<And>x. x \<in> set es \<Longrightarrow> ckey c < ckey (fst x)"
    using Cons.prems(3) by (simp_all add: wf_map_def e packed_less [symmetric])
  have l: "\<And>d. d \<in> set l \<Longrightarrow> wf_cell d \<and> ckey d \<le> ckey c" using Cons.prems(2) by (auto simp: e)
  have next_l: "\<And>d. d \<in> set (l @ [c]) \<Longrightarrow> wf_cell d \<and> (\<forall>x\<in>set es. ckey d \<le> ckey (fst x))"
    using Cons.prems(2) wf later by (auto simp: e intro: less_imp_le)
  have o: "ordered (child @ es)" "ordered ((child @ [e]) @ es)" "cm_add (c, off) child = child @ [e]"
    using Cons.prems(4) by (auto simp: ordered_append e cm_add_last)
  note IH = Cons.IH[OF _ next_l wf(2)]
  show ?case
  proof (cases "c_flag c = FLAG_INSERT")
    case True
    have "hidden ?L c = hidden l c"
    proof (rule hidden_append[OF wf(1) True])
      show "wf_cell d \<and> ckey c \<le> ckey d" if "d \<in> set (map fst (e # es))" for d
        using that wf later by (auto simp: e wf_map_def intro: less_imp_le)
    qed
    moreover have "fst (check_insert c t) = hidden l c" by (rule check_insert_hidden[OF Cons.prems(1) wf(1) l])
    ultimately have "kept ?L c \<longleftrightarrow> \<not> fst (check_insert c t)" using True by (simp add: kept_def)
    then show ?thesis
      using True IH[OF tracks_check_insert[OF Cons.prems(1) wf(1) l True]] o
      by (simp add: e marked_def split_beta)
  next
    case False
    then show ?thesis
      using IH[OF tracks_track_delete[OF Cons.prems(1) wf(1) l False]] o
      by (simp add: e marked_def kept_def)
  qed
qed

lemma purge_deletes_eq:
  assumes "wf_map (cell_map s)"
  defines "L \<equiv> map fst (cell_map s)"
  shows "purge_deletes s = (s\<lparr>cell_map := marked (kept L) (cell_map s)\<rparr>,
    cc_new\<lparr>cell_map := filter (\<lambda>e. kept L (fst e)) (cell_map s)\<rparr>)"
  using purge_loop_eq[OF tracks_new, of "cell_map s" "[]"] assms by (simp add: purge_deletes_def wf_map_def)

lemma slice_copy_eq:
  "ordered (cell_map s) \<Longrightarrow> slice_copy ts s = (s\<lparr>cell_map := marked (\<lambda>c. cell_ts c > ts) (cell_map s)\<rparr>,
    cc_new\<lparr>cell_map := filter (\<lambda>e. cell_ts (fst e) > ts) (cell_map s)\<rparr>)"
  using slice_loop_eq[of "[]" "cell_map s" ts] by (simp add: slice_copy_def)

subsection \<open>Ownership\<close>

lemma not_owned_marked [simp]: "\<not> owned (c, w OR ALLOC_BIT_MASK)"
  by (simp add: owned_def bit.conj_disj_distrib2 ALLOC_BIT_MASK_def)

lemma marked_freed:
  "mset (cc_freed (s\<lparr>cell_map := marked P m\<rparr>)) + mset (cc_freed (s'\<lparr>cell_map := filter (\<lambda>e. P (fst e)) m\<rparr>))
    = mset (cc_freed (s\<lparr>cell_map := m\<rparr>))"
  by (induction m) (auto simp: cc_freed_def marked_def simp del: mset_map mset_filter)

lemma fold_cc_add_holds: "cc_holds cs s \<Longrightarrow> cc_holds (cs @ ds) (fold cc_add ds s)"
proof (induction ds arbitrary: cs s)
  case (Cons d ds)
  then show ?case using Cons.IH[OF cc_add_holds] by fastforce
qed simp

lemma newest_Some: "newest ds = Some u \<longleftrightarrow> ds \<noteq> [] \<and> u = Max (cell_ts ` set ds)"
  by (auto simp: newest_def)

lemma newest_less: "ds \<noteq> [] \<Longrightarrow> (\<forall>d\<in>set ds. cell_ts d < t) \<Longrightarrow> \<exists>u. newest ds = Some u \<and> u < t"
  by (simp add: newest_Some)

subsection \<open>A concrete cache\<close>

definition cell_w :: "byte \<Rightarrow> byte \<Rightarrow> bytes \<Rightarrow> u64 \<Rightarrow> cell" where
  "cell_w fl cf q ts = \<lparr>c_row = [65], c_family = cf, c_qualifier = q, c_flag = fl, c_timestamp = ts, c_value = [1]\<rparr>"

text \<open>A row delete at 30, a cell delete at 10 and an insert at 20.\<close>

definition cache_w :: cell_cache where
  "cache_w = fold cc_add [cell_w FLAG_INSERT 1 [66] 20, cell_w FLAG_DELETE_CELL 1 [66] 10, cell_w FLAG_DELETE_ROW 0 [] 30] cc_new"

lemma cache_w_map:
  "map fst (cell_map cache_w) = [cell_w FLAG_DELETE_ROW 0 [] 30, cell_w FLAG_DELETE_CELL 1 [66] 10, cell_w FLAG_INSERT 1 [66] 20]"
  by code_simp

lemma wf_mapI: "ordered m \<Longrightarrow> \<forall>c\<in>set (map fst m). wf_cell c \<Longrightarrow> wf_map m"
  by (simp add: wf_map_def)

lemma cache_w_wf: "wf_map (cell_map cache_w)"
proof (rule wf_mapI)
  show "ordered (cell_map cache_w)" using fold_cc_add_holds[OF cc_new_holds] unfolding cache_w_def cc_holds_def by blast
qed (simp add: cache_w_map del: set_map, simp add: wf_cell_def cell_w_def FLAG_defs)

lemma resurrect_w: 
  "(cell_w FLAG_INSERT 1 [66] 20, 15) \<in> set (cell_map cache_w)
   \<and> cell_deletes (map fst (cell_map cache_w)) (cell_w FLAG_INSERT 1 [66] 20) = [cell_w FLAG_DELETE_CELL 1 [66] 10]
   \<and> row_deletes (map fst (cell_map cache_w)) (cell_w FLAG_INSERT 1 [66] 20) = [cell_w FLAG_DELETE_ROW 0 [] 30]"
  by code_simp

subsection \<open>What purging keeps\<close>



text \<open>C40. An insert that is newer than every delete of its own cell survives the purge even when its row has been deleted
  at a later time: the first kind of delete that matches decides alone.\<close>

theorem purge_resurrects_deleted_row:
  assumes "wf_map (cell_map s)" and "e \<in> set (cell_map s)" and "c_flag (fst e) = FLAG_INSERT"
    and "cell_deletes (map fst (cell_map s)) (fst e) \<noteq> []"
    and "\<forall>d\<in>set (cell_deletes (map fst (cell_map s)) (fst e)). cell_ts d < cell_ts (fst e)"
    and "\<exists>r\<in>set (row_deletes (map fst (cell_map s)) (fst e)). cell_ts (fst e) < cell_ts r"
  shows "e \<in> set (cell_map (snd (purge_deletes s)))"
  using newest_less[OF assms(4,5)] assms(1-3)
  by (auto simp: purge_deletes_eq kept_def hidden_def hidden_by_def)

theorem purge_resurrects_deleted_row_witness:
  "(cell_w FLAG_INSERT 1 [66] 20, 15) \<in> set (cell_map (snd (purge_deletes cache_w)))
   \<and> c_row (cell_w FLAG_DELETE_ROW 0 [] 30) = c_row (cell_w FLAG_INSERT 1 [66] 20)"
proof -
  have "cell_ts (cell_w FLAG_DELETE_CELL 1 [66] 10) < cell_ts (cell_w FLAG_INSERT 1 [66] 20)"
    "cell_ts (cell_w FLAG_INSERT 1 [66] 20) < cell_ts (cell_w FLAG_DELETE_ROW 0 [] 30)"
    by (simp_all add: cell_ts_def cell_w_def)
  then show ?thesis
    using purge_resurrects_deleted_row[OF cache_w_wf, of "(cell_w FLAG_INSERT 1 [66] 20, 15)"] resurrect_w
    by (simp add: cell_w_def)
qed

text \<open>Slicing at a timestamp copies exactly the cells with a greater timestamp into the child, whose memory counter stays at zero:
  it reports only the size of its map nodes.\<close>

lemma slice_copy_correct:
  assumes "ordered (cell_map s)"
  shows "map fst (cell_map (fst (slice_copy ts s))) = map fst (cell_map s)
    \<and> cell_map (snd (slice_copy ts s)) = filter (\<lambda>e. cell_ts (fst e) > ts) (cell_map s)
    \<and> cc_memory_used (snd (slice_copy ts s)) = of_nat (length (filter (\<lambda>e. cell_ts (fst e) > ts) (cell_map s))) * 16"
  using assms by (simp add: slice_copy_eq marked_def comp_def cc_memory_used_def cc_new_def)

text \<open>After a slice or a purge, the destructors of parent and child together free every allocation the parent owned exactly
  once.\<close>

lemma copies_share_ownership:
  assumes "wf_map (cell_map s)"
  shows "mset (cc_freed (fst (slice_copy ts s))) + mset (cc_freed (snd (slice_copy ts s))) = mset (cc_freed s)
    \<and> mset (cc_freed (fst (purge_deletes s))) + mset (cc_freed (snd (purge_deletes s))) = mset (cc_freed s)"
  using assms marked_freed[where s = s and m = "cell_map s" and s' = cc_new]
  by (simp add: slice_copy_eq purge_deletes_eq wf_map_def)

section \<open>Rows\<close>

lemma get_rows_loop_rows:
  assumes "sorted (r # map (\<lambda>e. c_row (fst e)) es)"
  shows "set (get_rows_loop r es) = (\<lambda>e. c_row (fst e)) ` set es - {r} \<and> sorted_wrt (<) (r # get_rows_loop r es)"
  using assms
proof (induction r es rule: get_rows_loop.induct)
  case (2 r e es)
  then show ?case by (cases "c_row (fst e) = r") (auto dest: le_neq_trans less_trans)
qed simp

lemma wf_map_rows_sorted: "wf_map m \<Longrightarrow> sorted (map (\<lambda>e. c_row (fst e)) m)"
proof (induction m)
  case (Cons e m)
  then have "\<And>x. x \<in> set m \<Longrightarrow> ckey (fst e) < ckey (fst x)"
    by (simp add: wf_map_def packed_less [symmetric])
  then have "\<And>x. x \<in> set m \<Longrightarrow> c_row (fst e) \<le> c_row (fst x)"
    by (simp add: ckey_def less_prod_def) (meson less_le_not_le)
  then show ?case using Cons by (simp add: wf_map_def)
qed simp

text \<open>\<^verbatim>\<open>get_rows\<close> reports every row of the cache once, in order, except the row named by the empty string.\<close>

lemma get_rows_correct:
  assumes "wf_map (cell_map s)"
  shows "set (get_rows s) = (\<lambda>e. c_row (fst e)) ` set (cell_map s) - {[]} \<and> sorted_wrt (<) (get_rows s)"
  using get_rows_loop_rows[of "[]" "cell_map s"] wf_map_rows_sorted[OF assms] by (simp add: get_rows_def)

section \<open>Scanning\<close>

definition selected :: "(byte \<Rightarrow> bool) \<Rightarrow> cell \<Rightarrow> bool" where
  "selected fm c \<longleftrightarrow> c_flag c = FLAG_DELETE_ROW \<or> fm (c_family c)"

definition ccs_remaining :: "(byte \<Rightarrow> bool) \<Rightarrow> cc_scanner \<Rightarrow> cell list" where
  "ccs_remaining fm sc = filter (selected fm) (map fst (cur sc))"

definition ccs_inv :: "(byte \<Rightarrow> bool) \<Rightarrow> cc_scanner \<Rightarrow> bool" where
  "ccs_inv fm sc \<longleftrightarrow> (case cur sc of [] \<Rightarrow> eos sc
     | e # _ \<Rightarrow> \<not> eos sc \<and> cur_cell sc = Some (fst e) \<and> selected fm (fst e))"

lemma skip_unselected_remaining:
  "ccs_inv fm (skip_unselected fm es) \<and> ccs_remaining fm (skip_unselected fm es) = filter (selected fm) (map fst es)
   \<and> eos (skip_unselected fm es) = (filter (selected fm) (map fst es) = [])"
proof (induction es)
  case (Cons e es)
  then show ?case
    by (cases "selected fm (fst e)") (auto simp: ccs_inv_def ccs_remaining_def selected_def [symmetric])
qed (simp add: ccs_inv_def ccs_remaining_def)

interpretation ccs: cell_list_scanner ccs_get "ccs_forward fm" "ccs_remaining fm" "ccs_inv fm"
  for fm
proof
  fix s assume i: "ccs_inv fm s"
  then show "ccs_get s = (case ccs_remaining fm s of [] \<Rightarrow> None | c # _ \<Rightarrow> Some c)"
    by (auto simp: ccs_inv_def ccs_get_def ccs_remaining_def split: list.splits)
  fix c cs assume r: "ccs_remaining fm s = c # cs"
  with i obtain e es where "cur s = e # es" "cs = filter (selected fm) (map fst es)"
    by (auto simp: ccs_inv_def ccs_remaining_def split: list.splits)
  then show "\<exists>s'. ccs_forward fm s = Inr s' \<and> ccs_inv fm s' \<and> ccs_remaining fm s' = cs"
    using skip_unselected_remaining[of fm es]
    by (auto simp: ccs_forward_def Let_def ccs_inv_def ccs_remaining_def)
qed

lemma dropWhile_ordered: "ordered m \<Longrightarrow> dropWhile (\<lambda>e. packed (fst e) < a) m = filter (\<lambda>e. a \<le> packed (fst e)) m"
proof (induction m)
  case (Cons x m)
  show ?case
  proof (cases "packed (fst x) < a")
    case False
    then have "\<And>e. e \<in> set m \<Longrightarrow> a \<le> packed (fst e)" using Cons.prems by fastforce
    then show ?thesis using False by (simp add: filter_True)
  qed (use Cons in simp)
qed simp

lemma takeWhile_ordered: "ordered m \<Longrightarrow> takeWhile (\<lambda>e. packed (fst e) < a) m = filter (\<lambda>e. packed (fst e) < a) m"
proof (induction m)
  case (Cons x m)
  show ?case
  proof (cases "packed (fst x) < a")
    case False
    then have "\<And>e. e \<in> set m \<Longrightarrow> \<not> packed (fst e) < a" using Cons.prems by fastforce
    then show ?thesis using False by (simp add: filter_False)
  qed (use Cons in simp)
qed simp

lemma ordered_filter: "ordered m \<Longrightarrow> ordered (filter P m)"
  by (simp add: ordered_def sorted_wrt_filter)

lemma create_scanner_remaining:
  assumes "ordered (cell_map s)"
  shows "ccs_inv fm (create_scanner a b fm s) \<and> ccs_remaining fm (create_scanner a b fm s) =
    filter (\<lambda>c. a @ [0] \<le> packed c \<and> packed c < b @ [0] \<and> selected fm c) (map fst (cell_map s))"
  using assms skip_unselected_remaining[of fm]
  by (simp add: create_scanner_def dropWhile_ordered takeWhile_ordered ordered_filter filter_map comp_def conj_ac)

lemma packed_less_row: "wf_cell c \<Longrightarrow> 0 \<notin> set r \<Longrightarrow> (packed c < r @ [0]) = (c_row c < r)"
  using less_append_zero[of "c_row c" r _ "[]"] by (simp add: packed_def key_payload_def wf_cell_def)



end
