(* ===== verification/MergeScan.thy ===== *)
theory MergeScan
  imports CellCaches
begin

text \<open>
  The merging scanner (\<^verbatim>\<open>MergeScanner.cc\<close>): several sorted scanners read through a priority queue, with deleted cells,
  the time interval, the version limit and the row limit applied on the way. A scanner is represented by the
  cells it has left (\<open>remaining\<close> of the scanner interface); the queue holds those with a current cell. Keys are
  the parsed cells of the theory of cells, so that the branch for an unparsable key is not reached. The theorems give the output of a
  scan by a declarative description of the merged input.
\<close>

section \<open>The queue\<close>

text \<open>\<^verbatim>\<open>std::priority_queue\<close> with a comparison that puts the smallest key on top. Among equal keys its choice is not specified; the
  model takes the first. \<open>q_sel\<close> splits off the top, \<open>q_forward\<close> is \<^verbatim>\<open>pop\<close>, \<^verbatim>\<open>forward\<close> and, if a cell is left, \<^verbatim>\<open>push\<close>.\<close>

fun q_sel :: "cell list \<Rightarrow> cell list list \<Rightarrow> cell list \<times> cell list list" where
  "q_sel s [] = (s, [])"
| "q_sel s (u # q) =
     (if packed (hd u) < packed (hd s) then (let (m, r) = q_sel u q in (m, s # r))
      else (let (m, r) = q_sel s q in (m, u # r)))"

fun q_top :: "cell list list \<Rightarrow> cell" where
  "q_top [] = undefined"
| "q_top (s # q) = hd (fst (q_sel s q))"

fun q_forward :: "cell list list \<Rightarrow> cell list list" where
  "q_forward [] = []"
| "q_forward (s # q) = (let (m, r) = q_sel s q in if tl m = [] then r else r @ [tl m])"

definition q_size :: "cell list list \<Rightarrow> nat" where
  "q_size q = sum_list (map (\<lambda>s. Suc (length s)) q)"

lemma q_sel_size: "q_sel s q = (m, r) \<Longrightarrow> q_size (m # r) = q_size (s # q)"
  by (induction s q arbitrary: m r rule: q_sel.induct)
    (fastforce simp: q_size_def split: if_splits prod.splits)+

lemma q_forward_size: "q \<noteq> [] \<Longrightarrow> q_size (q_forward q) < q_size q"
proof (cases q)
  case (Cons s u)
  obtain m r where "q_sel s u = (m, r)" by (cases "q_sel s u")
  with Cons q_sel_size[OF this] show ?thesis by (cases m) (auto simp: q_size_def)
qed simp

section \<open>The scanner\<close>

record merge_context =
  m_return_everything :: bool
  m_start_timestamp :: int
  m_end_timestamp :: int
  m_row_limit :: u32
  max_versions :: "byte \<Rightarrow> u32"

record merge_scanner =
  m_done :: bool
  m_initialized :: bool
  m_scanners :: "cell list list"
  m_queue :: "cell list list"
  m_tracker :: tracker
  m_row_count :: u32
  m_cell_count :: u32
  m_cell_limit :: u32
  m_prev_key :: bytes

definition merge_new :: merge_scanner where
  "merge_new = \<lparr>m_done = False, m_initialized = False, m_scanners = [], m_queue = [], m_tracker = tracker_new,
     m_row_count = 0, m_cell_count = 0, m_cell_limit = 0, m_prev_key = []\<rparr>"

definition add_scanner :: "cell list \<Rightarrow> merge_scanner \<Rightarrow> merge_scanner" where
  "add_scanner cs s = s\<lparr>m_scanners := m_scanners s @ [cs]\<rparr>"

text \<open>What the inner loop of \<^verbatim>\<open>forward\<close> does with the cell on top: whether it breaks there, and the delete buffers.\<close>

definition examine :: "merge_context \<Rightarrow> cell \<Rightarrow> tracker \<Rightarrow> bool \<times> tracker" where
  "examine ctx c t =
     (if cell_ts c < m_start_timestamp ctx \<and> \<not> m_return_everything ctx then (False, t)
      else if c_flag c = FLAG_DELETE_ROW then (m_return_everything ctx, track_delete_row c t)
      else if c_flag c = FLAG_DELETE_COLUMN_FAMILY then (m_return_everything ctx, track_delete_column_family c t)
      else if c_flag c = FLAG_DELETE_CELL then (m_return_everything ctx, track_delete_cell c t)
      else if cell_ts c \<ge> m_end_timestamp ctx \<and> \<not> m_return_everything ctx then (False, t)
      else if \<not> m_return_everything ctx then (let (deleted, t') = check_insert c t in (\<not> deleted, t'))
      else (True, t))"

text \<open>The inner loop: the queue and the delete buffers it leaves, and the cell it stops at.\<close>

function inner_loop :: "merge_context \<Rightarrow> cell list list \<Rightarrow> tracker \<Rightarrow> cell list list \<times> tracker \<times> cell option" where
  "inner_loop ctx q t =
     (let q' = q_forward q in
      if q' = [] then (q', t, None)
      else let (stop, t') = examine ctx (q_top q') t in
        if stop then (q', t', Some (q_top q')) else inner_loop ctx q' t')"
  by pat_completeness auto

termination
proof (relation "measure (\<lambda>(_, q, _). q_size q)")
  show "((ctx, q', t'), ctx, q, t) \<in> measure (\<lambda>(_, q, _). q_size q)" if "q' = q_forward q" "q' \<noteq> []"
    for ctx q q' and t t' :: tracker
    using that q_forward_size[of q] by (cases q) auto
qed simp

declare inner_loop.simps [simp del]

text \<open>\<^verbatim>\<open>m_prev_key.set\<close> and the limits of the column family.\<close>

definition start_cell :: "merge_context \<Rightarrow> cell \<Rightarrow> merge_scanner \<Rightarrow> merge_scanner" where
  "start_cell ctx c s = s\<lparr>m_prev_key := packed c, m_cell_limit := max_versions ctx (c_family c), m_cell_count := 0\<rparr>"

definition prev_row :: "merge_scanner \<Rightarrow> bytes" where
  "prev_row s = takeWhile (\<lambda>b. b \<noteq> 0) (m_prev_key s)"

definition same_column :: "bytes \<Rightarrow> bytes \<Rightarrow> bool" where
  "same_column k p \<longleftrightarrow> length k = length p \<and> length k > 9 \<and> take (length k - 9) k = take (length k - 9) p"

text \<open>The row and version limits, applied to the cell the inner loop stopped at: the new state, and whether the cell is skipped.\<close>

definition apply_limits :: "merge_context \<Rightarrow> cell \<Rightarrow> merge_scanner \<Rightarrow> merge_scanner \<times> bool" where
  "apply_limits ctx c s =
     (if m_prev_key s \<noteq> [] then
        if m_row_limit ctx \<noteq> 0 \<and> c_row c \<noteq> prev_row s then
          let s = s\<lparr>m_row_count := m_row_count s + 1\<rparr> in
          if \<not> m_return_everything ctx \<and> sint (m_row_count s) \<ge> sint (m_row_limit ctx) then (s\<lparr>m_done := True\<rparr>, False)
          else (start_cell ctx c s, False)
        else if same_column (packed c) (m_prev_key s) then
          if m_cell_limit s \<noteq> 0 then
            let s = s\<lparr>m_cell_count := m_cell_count s + 1, m_prev_key := packed c\<rparr> in
            (s, \<not> m_return_everything ctx \<and> m_cell_count s \<ge> m_cell_limit s)
          else (s, False)
        else (start_cell ctx c s, False)
      else (start_cell ctx c s, False))"

text \<open>One round of the outer loop: the new state, and whether the loop goes on.\<close>

definition outer_step :: "merge_context \<Rightarrow> merge_scanner \<Rightarrow> merge_scanner \<times> bool" where
  "outer_step ctx s =
     (let (q, t, r) = inner_loop ctx (m_queue s) (m_tracker s); s = s\<lparr>m_queue := q, m_tracker := t\<rparr> in
      case r of None \<Rightarrow> (s, False) | Some c \<Rightarrow> apply_limits ctx c s)"

lemma apply_limits_frame: "m_queue (fst (apply_limits ctx c s)) = m_queue s \<and> m_tracker (fst (apply_limits ctx c s)) = m_tracker s
  \<and> m_initialized (fst (apply_limits ctx c s)) = m_initialized s"
  by (simp add: apply_limits_def Let_def start_cell_def)

lemma inner_loop_size:
  "q \<noteq> [] \<Longrightarrow> inner_loop ctx q t = (q', t', r) \<Longrightarrow> q_size q' < q_size q"
proof (induction ctx q t rule: inner_loop.induct)
  case (1 ctx q t)
  show ?case
  proof (cases "q_forward q = [] \<or> fst (examine ctx (q_top (q_forward q)) t)")
    case True
    then show ?thesis using 1(3) q_forward_size[OF 1(2)]
      by (subst (asm) inner_loop.simps) (auto simp: Let_def split: if_splits prod.splits)
  next
    case False
    then have "inner_loop ctx (q_forward q) (snd (examine ctx (q_top (q_forward q)) t)) = (q', t', r)"
      using 1(3) by (subst (asm) inner_loop.simps) (auto simp: Let_def split: if_splits prod.splits)
    then show ?thesis
      using False 1(1)[OF refl _ refl prod.collapse] q_forward_size[OF 1(2)] by fastforce
  qed
qed

lemma inner_loop_Some: "inner_loop ctx q t = (q', t', Some c) \<Longrightarrow> q \<noteq> [] \<and> q' \<noteq> [] \<and> q_top q' = c"
proof (induction ctx q t rule: inner_loop.induct)
  case (1 ctx q t)
  then show ?case
    by (subst (asm) (2) inner_loop.simps) (auto simp: Let_def split: if_splits prod.splits)
qed

lemma outer_step_size:
  assumes "outer_step ctx s = (s', True)"
  shows "q_size (m_queue s') < q_size (m_queue s)"
proof -
  obtain q t r where i: "inner_loop ctx (m_queue s) (m_tracker s) = (q, t, r)" by (metis prod_cases3)
  with assms obtain c where c: "r = Some c" "apply_limits ctx c (s\<lparr>m_queue := q, m_tracker := t\<rparr>) = (s', True)"
    by (cases r) (simp_all add: outer_step_def)
  then have "m_queue s' = q" using apply_limits_frame[of ctx c "s\<lparr>m_queue := q, m_tracker := t\<rparr>"] by simp
  then show ?thesis using inner_loop_size[OF _ i] inner_loop_Some[OF i[unfolded c(1)]] by simp
qed

function outer_loop :: "merge_context \<Rightarrow> merge_scanner \<Rightarrow> merge_scanner" where
  "outer_loop ctx s = (let (s', again) = outer_step ctx s in if again then outer_loop ctx s' else s')"
  by pat_completeness auto

termination by (relation "measure (\<lambda>(_, s). q_size (m_queue s))") (auto simp: outer_step_size)

declare outer_loop.simps [simp del]

definition merge_forward :: "merge_context \<Rightarrow> merge_scanner \<Rightarrow> merge_scanner" where
  "merge_forward ctx s = (if m_queue s = [] then s else outer_loop ctx s)"

text \<open>\<^verbatim>\<open>initialize\<close>: fill the queue, then treat the first cell.\<close>

function init_loop :: "merge_context \<Rightarrow> merge_scanner \<Rightarrow> merge_scanner" where
  "init_loop ctx s =
     (if m_queue s = [] then s
      else let c = q_top (m_queue s); t = m_tracker s in
        if cell_ts c < m_start_timestamp ctx \<and> \<not> m_return_everything ctx
        then init_loop ctx (s\<lparr>m_queue := q_forward (m_queue s)\<rparr>)
        else if c_flag c = FLAG_DELETE_ROW then
          (let s = s\<lparr>m_tracker := t\<lparr>deleted_row := row_bytes c, deleted_row_timestamp := cell_ts c, delete_present := True\<rparr>\<rparr> in
           if m_return_everything ctx then s else merge_forward ctx s)
        else if c_flag c = FLAG_DELETE_COLUMN_FAMILY then
          (let s = s\<lparr>m_tracker := t\<lparr>deleted_column_family := cf_bytes c, deleted_column_family_timestamp := cell_ts c,
             delete_present := True\<rparr>\<rparr> in
           if m_return_everything ctx then s else merge_forward ctx s)
        else if c_flag c = FLAG_DELETE_CELL then
          (let s = s\<lparr>m_tracker := t\<lparr>deleted_cell := cell_bytes c, deleted_cell_timestamp := cell_ts c, delete_present := True\<rparr>\<rparr> in
           if m_return_everything ctx then s else merge_forward ctx s)
        else if cell_ts c \<ge> m_end_timestamp ctx \<and> \<not> m_return_everything ctx
        then init_loop ctx (s\<lparr>m_queue := q_forward (m_queue s)\<rparr>)
        else start_cell ctx c (s\<lparr>m_tracker := t\<lparr>delete_present := False\<rparr>\<rparr>))"
  by pat_completeness auto

termination by (relation "measure (\<lambda>(_, s). q_size (m_queue s))") (auto simp: q_forward_size)

declare init_loop.simps [simp del]

definition merge_initialize :: "merge_context \<Rightarrow> merge_scanner \<Rightarrow> merge_scanner" where
  "merge_initialize ctx s =
     (init_loop ctx (s\<lparr>m_queue := filter (\<lambda>cs. cs \<noteq> []) (m_scanners s)\<rparr>))\<lparr>m_initialized := True\<rparr>"

definition merge_get :: "merge_context \<Rightarrow> merge_scanner \<Rightarrow> merge_scanner \<times> cell option" where
  "merge_get ctx s =
     (let s = (if m_initialized s then s else merge_initialize ctx s) in
      (s, if m_queue s \<noteq> [] \<and> \<not> m_done s then Some (q_top (m_queue s)) else None))"

text \<open>A client alternates \<^verbatim>\<open>get\<close> and \<^verbatim>\<open>forward\<close> until \<^verbatim>\<open>get\<close> fails.\<close>

fun merge_read :: "merge_context \<Rightarrow> nat \<Rightarrow> merge_scanner \<Rightarrow> cell list" where
  "merge_read ctx 0 s = []"
| "merge_read ctx (Suc n) s =
     (case merge_get ctx s of (s, None) \<Rightarrow> [] | (s, Some c) \<Rightarrow> c # merge_read ctx n (merge_forward ctx s))"

section \<open>The merged stream\<close>

text \<open>The cells on top of the queue, one after the other.\<close>

function q_stream :: "cell list list \<Rightarrow> cell list" where
  "q_stream q = (if q = [] then [] else q_top q # q_stream (q_forward q))"
  by pat_completeness auto

termination by (relation "measure q_size") (auto simp: q_forward_size)

declare q_stream.simps [simp del]

lemma q_stream_Nil [simp]: "q_stream q = [] \<longleftrightarrow> q = []"
  by (subst q_stream.simps) simp

lemma q_stream_Cons: "q_stream q = c # L \<longleftrightarrow> q \<noteq> [] \<and> q_top q = c \<and> q_stream (q_forward q) = L"
  by (subst q_stream.simps) simp

definition sorted_cells :: "cell list \<Rightarrow> bool" where
  "sorted_cells cs \<longleftrightarrow> sorted_wrt (\<lambda>a b. ckey a \<le> ckey b) cs \<and> (\<forall>c\<in>set cs. wf_cell c)"

lemma sorted_cells_simps [simp]:
  "sorted_cells []"
  "sorted_cells (c # cs) \<longleftrightarrow> wf_cell c \<and> (\<forall>d\<in>set cs. ckey c \<le> ckey d) \<and> sorted_cells cs"
  by (auto simp: sorted_cells_def)

lemma sorted_cells_append:
  "sorted_cells (a @ b) \<longleftrightarrow> sorted_cells a \<and> sorted_cells b \<and> (\<forall>x\<in>set a. \<forall>y\<in>set b. ckey x \<le> ckey y)"
  by (auto simp: sorted_cells_def sorted_wrt_append)

lemma sorted_cells_filter: "sorted_cells cs \<Longrightarrow> sorted_cells (filter P cs)"
  by (auto simp: sorted_cells_def sorted_wrt_filter)

lemma sorted_cells_tl: "sorted_cells cs \<Longrightarrow> sorted_cells (tl cs)"
  by (cases cs) auto

definition wf_queue :: "cell list list \<Rightarrow> bool" where
  "wf_queue q \<longleftrightarrow> (\<forall>s\<in>set q. s \<noteq> [] \<and> sorted_cells s)"

lemma q_sel_mset: "q_sel s q = (m, r) \<Longrightarrow> mset (m # r) = mset (s # q)"
  by (induction s q arbitrary: m r rule: q_sel.induct) (fastforce split: if_splits prod.splits)+

lemma q_sel_set: "q_sel s q = (m, r) \<Longrightarrow> insert m (set r) = insert s (set q)"
  using q_sel_mset[of s q m r] by (metis list.set(2) set_mset_mset)

lemma q_sel_min: "q_sel s q = (m, r) \<Longrightarrow> u \<in> set (s # q) \<Longrightarrow> packed (hd m) \<le> packed (hd u)"
proof (induction s q arbitrary: m r u rule: q_sel.induct)
  case (2 s v q)
  show ?case
  proof (cases "packed (hd v) < packed (hd s)")
    case True
    then obtain r' where "q_sel v q = (m, r')" using 2(3) by (auto split: prod.splits)
    note IH = 2(1)[OF True this]
    have "packed (hd m) \<le> packed (hd s)" using IH[of v] True by auto
    then show ?thesis using IH[of u] 2(4) by auto
  next
    case False
    then obtain r' where "q_sel s q = (m, r')" using 2(3) by (auto split: prod.splits)
    note IH = 2(2)[OF False this]
    have "packed (hd m) \<le> packed (hd v)" using IH[of s] False by auto
    then show ?thesis using IH[of u] 2(4) by auto
  qed
qed auto

lemma q_split:
  assumes "wf_queue q" "q \<noteq> []"
  obtains c cs r where "q_top q = c" "q_forward q = (if cs = [] then r else r @ [cs])" "mset q = add_mset (c # cs) (mset r)"
    "sorted_cells (c # cs)" "wf_queue r" "\<forall>u\<in>set r. ckey c \<le> ckey (hd u)"
proof -
  obtain s q' where q: "q = s # q'" using assms(2) by (cases q) auto
  obtain m r where m: "q_sel s q' = (m, r)" by (cases "q_sel s q'")
  have w: "m \<noteq> []" "sorted_cells m" "wf_queue r"
  proof -
    have "\<forall>x\<in>insert m (set r). x \<noteq> [] \<and> sorted_cells x"
      using assms(1) by (simp only: q_sel_set[OF m] wf_queue_def q list.set)
    then show "m \<noteq> []" "sorted_cells m" "wf_queue r" by (simp_all add: wf_queue_def)
  qed
  obtain c cs where c: "m = c # cs" using w(1) by (cases m) auto
  have "ckey c \<le> ckey (hd u)" if u: "u \<in> set r" for u
  proof -
    have "u \<in> set (s # q')" using q_sel_set[OF m] u by auto
    then have "packed c \<le> packed (hd u)" using q_sel_min[OF m] c by fastforce
    moreover have "wf_cell (hd u)" using w(3) u unfolding wf_queue_def by (metis hd_in_set sorted_cells_def)
    ultimately show ?thesis using packed_less[of "hd u" c] w(2) c by (simp flip: not_less)
  qed
  then show ?thesis using that[of c cs r] q m c w q_sel_mset[OF m] by auto
qed

lemma wf_queue_forward: "wf_queue q \<Longrightarrow> wf_queue (q_forward q)"
proof (cases "q = []")
  case False
  assume "wf_queue q"
  then obtain c cs r where "q_forward q = (if cs = [] then r else r @ [cs])" "sorted_cells (c # cs)" "wf_queue r"
    using q_split False by metis
  then show ?thesis by (auto simp: wf_queue_def)
qed simp

lemma concat_mset: "mset (concat q) = \<Sum>\<^sub># (image_mset mset (mset q))"
  by (induction q) auto

lemma q_stream_mset: "wf_queue q \<Longrightarrow> mset (q_stream q) = mset (concat q)"
proof (induction q rule: q_stream.induct)
  case (1 q)
  show ?case
  proof (cases "q = []")
    case False
    obtain c cs r where s: "q_top q = c" "q_forward q = (if cs = [] then r else r @ [cs])" "mset q = add_mset (c # cs) (mset r)"
      using q_split[OF 1(2) False] by metis
    then have "mset (concat (q_forward q)) + {#c#} = mset (concat q)" by (simp add: concat_mset)
    then show ?thesis using 1(1)[OF False wf_queue_forward[OF 1(2)]] s(1) by (subst q_stream.simps) (simp add: False)
  qed (subst q_stream.simps, simp)
qed

lemma q_top_least:
  assumes "wf_queue q" "q \<noteq> []" "d \<in> set (concat q)"
  shows "ckey (q_top q) \<le> ckey d"
proof -
  obtain c cs r where s: "q_top q = c" "mset q = add_mset (c # cs) (mset r)" "sorted_cells (c # cs)" "wf_queue r"
    "\<forall>u\<in>set r. ckey c \<le> ckey (hd u)"
    using q_split[OF assms(1,2)] by metis
  have "set q = insert (c # cs) (set r)" using s(2) by (metis set_mset_add_mset_insert set_mset_mset)
  then consider "d \<in> set (c # cs)" | u where "u \<in> set r" "d \<in> set u" using assms(3) by auto
  then show ?thesis
  proof cases
    case 2
    have "sorted_cells u" using s(4) 2(1) by (simp add: wf_queue_def)
    then have "ckey (hd u) \<le> ckey d" using 2(2) by (cases u) auto
    then show ?thesis using s(1,5) 2(1) by force
  qed (use s in auto)
qed

lemma q_stream_sorted: "wf_queue q \<Longrightarrow> sorted_cells (q_stream q)"
proof (induction q rule: q_stream.induct)
  case (1 q)
  show ?case
  proof (cases "q = []")
    case False
    note f = wf_queue_forward[OF 1(2)]
    have "set (q_stream q) = set (concat q)" using q_stream_mset[OF 1(2)] by (metis set_mset_mset)
    then have "set (q_top q # q_stream (q_forward q)) = set (concat q)"
      using False by (subst (asm) q_stream.simps) simp
    moreover have "wf_cell d" if "d \<in> set (concat q)" for d
      using that 1(2) by (auto simp: wf_queue_def sorted_cells_def)
    ultimately have "wf_cell (q_top q)" "\<forall>d\<in>set (q_stream (q_forward q)). ckey (q_top q) \<le> ckey d"
      using q_top_least[OF 1(2) False] by (metis list.set_intros)+
    then show ?thesis using 1(1)[OF False f] False by (subst q_stream.simps) simp
  qed (subst q_stream.simps, simp)
qed

section \<open>What a scan should return\<close>

text \<open>The cells inside the interval from below, the only ones whose deletes count.\<close>

definition since :: "merge_context \<Rightarrow> cell list \<Rightarrow> cell list" where
  "since ctx cs = filter (\<lambda>c. m_start_timestamp ctx \<le> cell_ts c) cs"

text \<open>\<open>visible ctx M c\<close>: \<open>c\<close> is an insert inside the time interval that no delete of the merged cells \<open>M\<close> hides.\<close>

definition visible :: "merge_context \<Rightarrow> cell list \<Rightarrow> cell \<Rightarrow> bool" where
  "visible ctx M c \<longleftrightarrow> c_flag c = FLAG_INSERT \<and> m_start_timestamp ctx \<le> cell_ts c \<and> cell_ts c < m_end_timestamp ctx
     \<and> \<not> hidden (since ctx M) c"

text \<open>The limits: a cell is kept when fewer than \<^verbatim>\<open>max_versions\<close> visible versions of it and at most \<^verbatim>\<open>row_limit\<close> rows, its own
  included, have come before; zero means no limit.\<close>

definition within_limits :: "merge_context \<Rightarrow> cell list \<Rightarrow> cell \<Rightarrow> bool" where
  "within_limits ctx pre c \<longleftrightarrow>
     (m_row_limit ctx = 0 \<or> card (c_row ` set (pre @ [c])) \<le> unat (m_row_limit ctx))
   \<and> (max_versions ctx (c_family c) = 0
      \<or> length (filter (\<lambda>d. cell_bytes d = cell_bytes c) pre) < unat (max_versions ctx (c_family c)))"

fun limited :: "merge_context \<Rightarrow> cell list \<Rightarrow> cell list \<Rightarrow> cell list" where
  "limited ctx pre [] = []"
| "limited ctx pre (c # cs) = (if within_limits ctx pre c then [c] else []) @ limited ctx (pre @ [c]) cs"

section \<open>The inner loop\<close>

lemma since_append [simp]: "since ctx (a @ b) = since ctx a @ since ctx b"
  by (simp add: since_def)

lemma sorted_cells_wf: "sorted_cells cs \<Longrightarrow> c \<in> set cs \<Longrightarrow> wf_cell c"
  by (simp add: sorted_cells_def)

lemma sorted_cells_since: "sorted_cells cs \<Longrightarrow> sorted_cells (since ctx cs)"
  by (simp add: since_def sorted_cells_filter)

lemma examine_user:
  assumes u: "\<not> m_return_everything ctx" and t: "tracks (since ctx P) t" and s: "sorted_cells (P @ c # L)"
  shows "fst (examine ctx c t) = visible ctx (P @ c # L) c \<and> tracks (since ctx (P @ [c])) (snd (examine ctx c t))"
proof (cases "m_start_timestamp ctx \<le> cell_ts c")
  case False
  then show ?thesis using u t by (auto simp: examine_def visible_def since_def)
next
  case True
  have c: "wf_cell c" using s by (simp add: sorted_cells_append)
  have p: "\<And>d. d \<in> set (since ctx P) \<Longrightarrow> wf_cell d \<and> ckey d \<le> ckey c"
    using s by (auto simp: since_def sorted_cells_append dest: sorted_cells_wf)
  show ?thesis
  proof (cases "c_flag c = FLAG_INSERT")
    case False
    then have "examine ctx c t = (False, track_delete c t)"
      using u True c by (auto simp: examine_def track_delete_def wf_cell_def)
    then show ?thesis using tracks_track_delete[OF t c p False] False True by (simp add: visible_def since_def)
  next
    case ins: True
    have "hidden (since ctx (P @ c # L)) c = hidden (since ctx P) c"
      unfolding since_append
    proof (rule hidden_append[OF c ins])
      show "wf_cell d \<and> ckey c \<le> ckey d" if "d \<in> set (since ctx (c # L))" for d
        using that s by (auto simp: since_def sorted_cells_append dest: sorted_cells_wf split: if_splits)
    qed
    moreover note check_insert_hidden[OF t c p] tracks_check_insert[OF t c p ins] tracks_skip[OF t ins]
    ultimately show ?thesis using u True ins
      by (cases "check_insert c t") (simp add: examine_def visible_def since_def FLAG_defs)
  qed
qed

lemma inner_loop_user:
  assumes "\<not> m_return_everything ctx" "wf_queue q" "q_stream q = c0 # L" "tracks (since ctx P) t" "sorted_cells (P @ L)"
  shows "case dropWhile (\<lambda>c. \<not> visible ctx (P @ L) c) L of
      [] \<Rightarrow> \<exists>t'. inner_loop ctx q t = ([], t', None)
    | c # post \<Rightarrow> \<exists>q' t' P'. inner_loop ctx q t = (q', t', Some c) \<and> wf_queue q' \<and> q_stream q' = c # post
        \<and> P' @ post = P @ L \<and> tracks (since ctx P') t'"
  using assms(2-)
proof (induction L arbitrary: q c0 t P)
  case Nil
  then show ?case by (subst inner_loop.simps) (simp add: q_stream_Cons)
next
  case (Cons c L)
  have q: "q_stream (q_forward q) = c # L" "q_forward q \<noteq> []" "q_top (q_forward q) = c"
    using Cons.prems(2) by (simp_all add: q_stream_Cons)
  note e = examine_user[OF assms(1) Cons.prems(3,4)]
  show ?case
  proof (cases "visible ctx (P @ c # L) c")
    case True
    then have "inner_loop ctx q t = (q_forward q, snd (examine ctx c t), Some c)"
      using e q by (subst inner_loop.simps) (simp add: Let_def split_beta)
    then show ?thesis
      using True e q(1) wf_queue_forward[OF Cons.prems(1)] by (auto intro!: exI[of _ "P @ [c]"])
  next
    case False
    then have "inner_loop ctx q t = inner_loop ctx (q_forward q) (snd (examine ctx c t))"
      using e q by (subst inner_loop.simps) (simp add: Let_def split_beta)
    then show ?thesis
      using Cons.IH[OF wf_queue_forward[OF Cons.prems(1)] q(1) conjunct2[OF e]] Cons.prems(4) False
      by (auto split: list.splits simp del: dropWhile_eq_Nil_conv)
  qed
qed

lemma inner_loop_all:
  assumes "m_return_everything ctx" "q_stream q = c0 # L"
  shows "\<exists>t'. inner_loop ctx q t = (q_forward q, t', case L of [] \<Rightarrow> None | c # _ \<Rightarrow> Some c)"
proof (cases L)
  case Nil
  then show ?thesis using assms(2) by (subst inner_loop.simps) (simp add: q_stream_Cons)
next
  case (Cons c L')
  then have "q_forward q \<noteq> []" "q_top (q_forward q) = c" using assms(2) by (simp_all add: q_stream_Cons)
  moreover have "fst (examine ctx c t)" using assms(1) by (simp add: examine_def)
  ultimately show ?thesis using Cons by (subst inner_loop.simps) (simp add: Let_def split_beta)
qed

section \<open>The limits\<close>

lemma packed_cell_bytes: "packed c = cell_bytes c @ c_flag c # encode_ts64 (c_timestamp c)"
  by (simp add: packed_def key_payload_def cell_bytes_def)

lemma packed_not_Nil [simp]: "packed c \<noteq> []"
  by (simp add: packed_cell_bytes)

lemma same_column_packed: "same_column (packed c) (packed p) \<longleftrightarrow> cell_bytes c = cell_bytes p"
proof -
  have "same_column (packed c) (packed p) \<longleftrightarrow>
    length (cell_bytes c) = length (cell_bytes p) \<and> take (length (cell_bytes c)) (cell_bytes c) = take (length (cell_bytes c)) (cell_bytes p)"
    by (auto simp: same_column_def packed_cell_bytes)
  then show ?thesis by auto
qed

lemma prev_row_packed: "wf_cell p \<Longrightarrow> m_prev_key s = packed p \<Longrightarrow> prev_row s = c_row p"
  by (auto simp: prev_row_def packed_def key_payload_def wf_cell_def takeWhile_append)

definition lim_inv :: "merge_context \<Rightarrow> cell list \<Rightarrow> merge_scanner \<Rightarrow> bool" where
  "lim_inv ctx pre s \<longleftrightarrow> \<not> m_done s \<and>
    (if pre = [] then m_prev_key s = [] \<and> m_row_count s = 0
     else (\<exists>p. wf_cell p \<and> cell_bytes p = cell_bytes (last pre) \<and> m_prev_key s = packed p)
      \<and> m_cell_limit s = max_versions ctx (c_family (last pre))
      \<and> (m_cell_limit s \<noteq> 0 \<longrightarrow>
          Suc (unat (m_cell_count s)) = length (filter (\<lambda>d. cell_bytes d = cell_bytes (last pre)) pre))
      \<and> (m_row_limit ctx \<noteq> 0 \<longrightarrow> Suc (unat (m_row_count s)) = card (c_row ` set pre)
          \<and> card (c_row ` set pre) \<le> unat (m_row_limit ctx)))"

lemma last_largest: "sorted_cells cs \<Longrightarrow> d \<in> set cs \<Longrightarrow> ckey d \<le> ckey (last cs)"
  by (induction cs) auto

lemma new_row:
  assumes "sorted_cells (pre @ [c])" "pre \<noteq> []" "c_row c \<noteq> c_row (last pre)"
  shows "c_row c \<notin> c_row ` set pre"
proof
  assume "c_row c \<in> c_row ` set pre"
  then obtain d where d: "d \<in> set pre" "c_row d = c_row c" by auto
  have "ckey d \<le> ckey (last pre)" "ckey (last pre) \<le> ckey c"
    using assms(1,2) d(1) last_largest by (auto simp: sorted_cells_append)
  then show False using between_row[of d "last pre" c] d(2) assms(3) by simp
qed

lemma new_column:
  assumes "sorted_cells (pre @ [c])" "pre \<noteq> []" "cell_bytes c \<noteq> cell_bytes (last pre)"
  shows "filter (\<lambda>d. cell_bytes d = cell_bytes c) pre = []"
proof (rule ccontr)
  assume "filter (\<lambda>d. cell_bytes d = cell_bytes c) pre \<noteq> []"
  then obtain d where d: "d \<in> set pre" "cell_bytes d = cell_bytes c" by (auto simp: filter_empty_conv)
  have "wf_cell d" "wf_cell c" "wf_cell (last pre)" "ckey d \<le> ckey (last pre)" "ckey (last pre) \<le> ckey c"
    using assms(1,2) d(1) last_largest by (auto simp: sorted_cells_append sorted_cells_wf)
  then show False using between_cell[of d "last pre" c] d(2) assms(3) by (simp add: cell_bytes_eq)
qed

lemma unat_Suc_small: assumes "Suc (unat w) < 2 ^ 31" shows "unat (w + 1 :: u32) = Suc (unat w)"
proof -
  have "w + 1 = of_nat (Suc (unat w))" by (simp add: add.commute)
  also have "unat \<dots> = Suc (unat w)"
    by (rule unat_of_nat_small, rule less_trans[OF assms]) simp
  finally show ?thesis .
qed

lemma sint_small: assumes "unat w < 2 ^ 31" shows "sint (w :: u32) = int (unat w)"
proof -
  have "int (unat w) < int (2 ^ 31)" using assms by (simp only: of_nat_less_iff)
  then have u: "uint w < 2 ^ 31" by (simp only: of_nat_unat of_nat_power of_nat_numeral)
  have "sint w = signed_take_bit 31 (uint w)" by (simp add: sint_uint)
  also have "\<dots> = uint w" by (rule signed_take_bit_int_eq_self) (use u in \<open>simp_all add: order_trans[OF _ uint_ge_0]\<close>)
  finally show ?thesis by (simp only: of_nat_unat)
qed

lemma sint_le_small:
  "unat a < 2 ^ 31 \<Longrightarrow> unat b < 2 ^ 31 \<Longrightarrow> (sint (a :: u32) \<le> sint (b :: u32)) = (unat a \<le> unat b)"
  by (simp only: sint_small of_nat_le_iff)

lemma unat_pos: "(w :: u32) = 0 \<or> 0 < unat w"
  by (cases "w = 0") (simp_all add: unat_gt_0)

lemma card_rows_le: "card (c_row ` set pre) \<le> length pre"
  using card_length[of "map c_row pre"] by simp

lemma start_cell_inv:
  assumes "\<not> m_done s" "wf_cell c" "filter (\<lambda>d. cell_bytes d = cell_bytes c) pre = []"
    and "m_row_limit ctx \<noteq> 0 \<Longrightarrow> Suc (unat (m_row_count s)) = card (c_row ` set (pre @ [c]))
      \<and> card (c_row ` set (pre @ [c])) \<le> unat (m_row_limit ctx)"
  shows "lim_inv ctx (pre @ [c]) (start_cell ctx c s) \<and> within_limits ctx pre c"
proof -
  have "\<exists>p. wf_cell p \<and> cell_bytes p = cell_bytes c \<and> packed c = packed p" using assms(2) by blast
  then show ?thesis using assms(1,3,4) unat_pos[of "max_versions ctx (c_family c)"]
    by (cases "m_row_limit ctx = 0") (simp_all add: lim_inv_def start_cell_def within_limits_def)
qed

lemma apply_limits_user:
  assumes u: "\<not> m_return_everything ctx" and rl: "unat (m_row_limit ctx) < 2 ^ 31"
    and inv: "lim_inv ctx pre s" and so: "sorted_cells (pre @ [c])" and len: "length pre + 2 < 2 ^ 31"
  defines "r \<equiv> apply_limits ctx c s"
  shows "if m_done (fst r) then \<not> snd r \<and> m_row_limit ctx \<noteq> 0 \<and> unat (m_row_limit ctx) < card (c_row ` set (pre @ [c]))
     else lim_inv ctx (pre @ [c]) (fst r) \<and> snd r = (\<not> within_limits ctx pre c)"
proof (cases "pre = []")
  case True
  then have "r = (start_cell ctx c s, False)" using inv by (simp add: r_def apply_limits_def lim_inv_def)
  moreover have "lim_inv ctx (pre @ [c]) (start_cell ctx c s) \<and> within_limits ctx pre c"
    using True inv so unat_pos[of "m_row_limit ctx"] by (intro start_cell_inv) (auto simp: lim_inv_def)
  ultimately show ?thesis using inv by (simp add: lim_inv_def)
next
  case False
  obtain p where p: "wf_cell p" "cell_bytes p = cell_bytes (last pre)" "m_prev_key s = packed p" and nd: "\<not> m_done s"
    and lim: "m_cell_limit s = max_versions ctx (c_family (last pre))"
    and cnt: "m_cell_limit s \<noteq> 0 \<Longrightarrow> Suc (unat (m_cell_count s)) = length (filter (\<lambda>d. cell_bytes d = cell_bytes (last pre)) pre)"
    and rw: "m_row_limit ctx \<noteq> 0 \<Longrightarrow> Suc (unat (m_row_count s)) = card (c_row ` set pre)
      \<and> card (c_row ` set pre) \<le> unat (m_row_limit ctx)"
    using inv False by (auto simp: lim_inv_def)
  have w: "wf_cell c" "wf_cell (last pre)" using so False by (auto simp: sorted_cells_append sorted_cells_wf)
  have pr: "prev_row s = c_row (last pre)" using prev_row_packed[OF p(1,3)] p(1,2) w by (simp add: cell_bytes_eq)
  have sc: "same_column (packed c) (m_prev_key s) \<longleftrightarrow> cell_bytes c = cell_bytes (last pre)"
    by (simp add: p same_column_packed)
  consider (row) "m_row_limit ctx \<noteq> 0" "c_row c \<noteq> c_row (last pre)"
    | (version) "cell_bytes c = cell_bytes (last pre)" "\<not> (m_row_limit ctx \<noteq> 0 \<and> c_row c \<noteq> c_row (last pre))"
    | (column) "cell_bytes c \<noteq> cell_bytes (last pre)" "\<not> (m_row_limit ctx \<noteq> 0 \<and> c_row c \<noteq> c_row (last pre))" by blast
  then show ?thesis
  proof cases
    case row
    note n = new_row[OF so False row(2)]
    then have card: "card (c_row ` set (pre @ [c])) = Suc (card (c_row ` set pre))" by simp
    have nc: "filter (\<lambda>d. cell_bytes d = cell_bytes c) pre = []"
      using new_column[OF so False] row(2) w by (simp add: cell_bytes_eq)
    have small: "card (c_row ` set pre) < 2 ^ 31" using card_rows_le[of pre] len by simp
    then have cnt': "unat (m_row_count s + 1) = card (c_row ` set pre)"
      using rw[OF row(1)] unat_Suc_small[of "m_row_count s"] by simp
    let ?s = "s\<lparr>m_row_count := m_row_count s + 1\<rparr>"
    have "sint (m_row_count s + 1) \<ge> sint (m_row_limit ctx) \<longleftrightarrow> unat (m_row_limit ctx) \<le> card (c_row ` set pre)"
      using sint_le_small[OF rl, of "m_row_count s + 1"] cnt' small by simp
    then have r: "r = (if unat (m_row_limit ctx) \<le> card (c_row ` set pre) then (?s\<lparr>m_done := True\<rparr>, False) else (start_cell ctx c ?s, False))"
      using u row p(3) pr by (simp add: r_def apply_limits_def Let_def)
    have "lim_inv ctx (pre @ [c]) (start_cell ctx c ?s) \<and> within_limits ctx pre c"
      if "\<not> unat (m_row_limit ctx) \<le> card (c_row ` set pre)"
      using nd w(1) nc cnt' card that by (intro start_cell_inv) simp_all
    then show ?thesis using r card row(1) nd by (auto simp: start_cell_def)
  next
    case version
    have same: "c_row c = c_row (last pre)" "c_family c = c_family (last pre)"
      using version(1) w by (simp_all add: cell_bytes_eq)
    have card: "insert (c_row (last pre)) (c_row ` set pre) = c_row ` set pre" using False by (simp add: insert_absorb)
    show ?thesis
    proof (cases "m_cell_limit s = 0")
      case True
      then have "r = (s, False)" using version(1) same pr sc p(3) by (simp add: r_def apply_limits_def)
      moreover have "lim_inv ctx (pre @ [c]) s"
        using True nd lim rw p version(1) same by (auto simp: lim_inv_def card)
      moreover have "within_limits ctx pre c" using rw True lim same by (auto simp: within_limits_def card)
      ultimately show ?thesis using nd by simp
    next
      case False
      let ?n = "length (filter (\<lambda>d. cell_bytes d = cell_bytes (last pre)) pre)"
      let ?s = "s\<lparr>m_cell_count := m_cell_count s + 1, m_prev_key := packed c\<rparr>"
      have "?n < 2 ^ 31" by (rule le_less_trans[OF length_filter_le]) (use len in simp)
      then have n: "unat (m_cell_count s + 1) = ?n" using cnt[OF False] unat_Suc_small[of "m_cell_count s"] by simp
      then have r: "r = (?s, unat (m_cell_limit s) \<le> ?n)"
        using version(1) same pr sc p(3) u False by (simp add: r_def apply_limits_def Let_def word_le_nat_alt)
      moreover have "lim_inv ctx (pre @ [c]) ?s"
      proof -
        have "\<exists>p. wf_cell p \<and> cell_bytes p = cell_bytes (last pre) \<and> packed c = packed p" using w(1) version(1) by blast
        then show ?thesis using nd lim rw same n by (simp add: lim_inv_def card version(1))
      qed
      moreover have "within_limits ctx pre c \<longleftrightarrow> ?n < unat (m_cell_limit s)"
        using rw False lim version(1) same by (auto simp: within_limits_def card)
      ultimately show ?thesis using nd by (simp add: not_less)
    qed
  next
    case column
    have "r = (start_cell ctx c s, False)" using column pr sc p(3) by (auto simp: r_def apply_limits_def)
    moreover have "lim_inv ctx (pre @ [c]) (start_cell ctx c s) \<and> within_limits ctx pre c"
    proof (rule start_cell_inv[OF nd w(1) new_column[OF so False column(1)]])
      assume "m_row_limit ctx \<noteq> 0"
      moreover from this column(2) have "c_row ` set (pre @ [c]) = c_row ` set pre" using False by auto
      ultimately show "Suc (unat (m_row_count s)) = card (c_row ` set (pre @ [c]))
        \<and> card (c_row ` set (pre @ [c])) \<le> unat (m_row_limit ctx)" using rw by simp
    qed
    ultimately show ?thesis using nd by (simp add: start_cell_def)
  qed
qed

section \<open>The scan of a user\<close>

definition scan_inv :: "merge_context \<Rightarrow> cell list \<Rightarrow> cell list \<Rightarrow> cell list \<Rightarrow> merge_scanner \<Rightarrow> bool" where
  "scan_inv ctx M pre W s \<longleftrightarrow> wf_queue (m_queue s) \<and> lim_inv ctx pre s \<and>
     (\<exists>P c0 L. M = P @ L \<and> q_stream (m_queue s) = c0 # L \<and> tracks (since ctx P) (m_tracker s)
        \<and> pre = filter (visible ctx M) P \<and> W = filter (visible ctx M) L)"

text \<open>The scanner is about to return \<open>out\<close>.\<close>

definition yields :: "merge_context \<Rightarrow> cell list \<Rightarrow> cell list \<Rightarrow> merge_scanner \<Rightarrow> bool" where
  "yields ctx M out s \<longleftrightarrow> (out = [] \<and> (m_queue s = [] \<or> m_done s))
     \<or> (\<exists>c pre W. out = c # limited ctx pre W \<and> \<not> m_done s \<and> m_queue s \<noteq> [] \<and> q_top (m_queue s) = c
          \<and> scan_inv ctx M pre W s)"

lemma lim_inv_frame: "lim_inv ctx pre (s\<lparr>m_queue := q, m_tracker := t\<rparr>) = lim_inv ctx pre s"
  by (simp add: lim_inv_def)

lemma limited_over:
  "m_row_limit ctx \<noteq> 0 \<Longrightarrow> unat (m_row_limit ctx) < card (c_row ` set pre) \<Longrightarrow> limited ctx pre W = []"
proof (induction W arbitrary: pre)
  case (Cons c W)
  have "card (c_row ` set pre) \<le> card (c_row ` set (pre @ [c]))" by (rule card_mono) auto
  then have "unat (m_row_limit ctx) < card (c_row ` set (pre @ [c]))" using Cons.prems(2) by (rule less_le_trans[rotated])
  then show ?case using Cons.IH[of "pre @ [c]"] Cons.prems(1) by (simp add: within_limits_def)
qed simp

lemma filter_dropWhile:
  "filter P L = c # W \<Longrightarrow> \<exists>skip post. L = skip @ c # post \<and> dropWhile (\<lambda>c. \<not> P c) L = c # post \<and> filter P skip = []
    \<and> P c \<and> filter P post = W"
proof (induction L)
  case (Cons x L)
  show ?case
  proof (cases "P x")
    case True
    then show ?thesis using Cons.prems by - (rule exI[of _ "[]"], rule exI[of _ L], auto)
  next
    case False
    then obtain skip post where "L = skip @ c # post \<and> dropWhile (\<lambda>c. \<not> P c) L = c # post \<and> filter P skip = []
      \<and> P c \<and> filter P post = W" using Cons by auto
    then show ?thesis using False by - (rule exI[of _ "x # skip"], rule exI[of _ post], auto)
  qed
qed simp

lemma outer_step_user:
  assumes u: "\<not> m_return_everything ctx" and rl: "unat (m_row_limit ctx) < 2 ^ 31" and M: "sorted_cells M" "length M + 2 < 2 ^ 31"
    and inv: "scan_inv ctx M pre W s"
  shows "case W of [] \<Rightarrow> \<exists>s'. outer_step ctx s = (s', False) \<and> m_queue s' = []
    | c # W' \<Rightarrow> \<exists>s' again. outer_step ctx s = (s', again) \<and>
        (if m_done s' then \<not> again \<and> limited ctx pre W = []
         else scan_inv ctx M (pre @ [c]) W' s' \<and> m_queue s' \<noteq> [] \<and> q_top (m_queue s') = c \<and> again = (\<not> within_limits ctx pre c))"
proof -
  obtain P c0 L where p: "M = P @ L" "q_stream (m_queue s) = c0 # L" "tracks (since ctx P) (m_tracker s)"
    "pre = filter (visible ctx M) P" "W = filter (visible ctx M) L" and q: "wf_queue (m_queue s)" and l: "lim_inv ctx pre s"
    using inv by (auto simp: scan_inv_def)
  note i = inner_loop_user[OF u q p(2,3), folded p(1), OF M(1)]
  show ?thesis
  proof (cases W)
    case Nil
    then have "dropWhile (\<lambda>c. \<not> visible ctx M c) L = []" using p(5) by (simp add: filter_empty_conv)
    with i obtain t' where "inner_loop ctx (m_queue s) (m_tracker s) = ([], t', None)" by auto
    then show ?thesis using Nil by (simp add: outer_step_def)
  next
    case (Cons c W')
    then obtain skip post where d: "L = skip @ c # post" "dropWhile (\<lambda>c. \<not> visible ctx M c) L = c # post"
      "filter (visible ctx M) skip = []" "visible ctx M c" "filter (visible ctx M) post = W'"
      using filter_dropWhile[of "visible ctx M" L c W'] p(5) by auto
    with i obtain q' t' P' where n: "inner_loop ctx (m_queue s) (m_tracker s) = (q', t', Some c)" "wf_queue q'"
      "q_stream q' = c # post" "P' @ post = M" "tracks (since ctx P') t'" by auto
    have "P' = P @ skip @ [c]" using n(4) p(1) d(1) by simp
    then have P': "filter (visible ctx M) P' = pre @ [c]" using d p(4) by simp
    let ?s = "s\<lparr>m_queue := q', m_tracker := t'\<rparr>"
    obtain s' again where a: "apply_limits ctx c ?s = (s', again)" by (cases "apply_limits ctx c ?s")
    have f: "m_queue s' = q'" "m_tracker s' = t'" using apply_limits_frame[of ctx c ?s] a by simp_all
    have so: "sorted_cells (pre @ [c])" unfolding P'[symmetric] using M(1) n(4) by (metis sorted_cells_append sorted_cells_filter)
    have le: "length pre + 2 < 2 ^ 31"
    proof -
      have "length pre \<le> length M" using length_filter_le[of "visible ctx M" P] by (simp only: p(1,4) length_append)
      then show ?thesis using M(2) by linarith
    qed
    note al = apply_limits_user[OF u rl, of pre ?s c, unfolded lim_inv_frame a fst_conv snd_conv, OF l so le]
    have os: "outer_step ctx s = (s', again)" using n(1) a by (simp add: outer_step_def)
    have top: "m_queue s' \<noteq> []" "q_top (m_queue s') = c" using f n(3) by (simp_all add: q_stream_Cons)
    show ?thesis
    proof (cases "m_done s'")
      case True
      then have r: "\<not> again" "m_row_limit ctx \<noteq> 0" "unat (m_row_limit ctx) < card (c_row ` set (pre @ [c]))" using al by simp_all
      then have "\<not> within_limits ctx pre c" by (simp add: within_limits_def)
      then have "limited ctx pre W = []" using Cons limited_over[OF r(2,3)] by simp
      then show ?thesis unfolding Cons list.case
        by - (rule exI[of _ s'], rule exI[of _ again], simp only: True os r(1) if_True simp_thms)
    next
      case False
      then have "lim_inv ctx (pre @ [c]) s'" "again = (\<not> within_limits ctx pre c)" using al by simp_all
      moreover from this(1) have "scan_inv ctx M (pre @ [c]) W' s'"
        unfolding scan_inv_def f
        by (intro conjI exI[of _ P'] exI[of _ c] exI[of _ post]) (simp_all only: n P' d(5) simp_thms)
      ultimately show ?thesis using False os top Cons by simp
    qed
  qed
qed

lemma outer_loop_user:
  assumes "\<not> m_return_everything ctx" "unat (m_row_limit ctx) < 2 ^ 31" "sorted_cells M" "length M + 2 < 2 ^ 31"
    and "scan_inv ctx M pre W s"
  shows "yields ctx M (limited ctx pre W) (outer_loop ctx s)"
  using assms(5)
proof (induction W arbitrary: pre s)
  case Nil
  then show ?case using outer_step_user[OF assms(1-4) Nil] by (subst outer_loop.simps) (auto simp: yields_def)
next
  case (Cons c W)
  obtain s' again where o: "outer_step ctx s = (s', again)" and
    r: "if m_done s' then \<not> again \<and> limited ctx pre (c # W) = []
      else scan_inv ctx M (pre @ [c]) W s' \<and> m_queue s' \<noteq> [] \<and> q_top (m_queue s') = c \<and> again = (\<not> within_limits ctx pre c)"
    using outer_step_user[OF assms(1-4) Cons.prems] by auto
  have l: "outer_loop ctx s = (if again then outer_loop ctx s' else s')" using o by (subst outer_loop.simps) simp
  show ?case
  proof (cases "m_done s' \<or> \<not> again")
    case True
    then show ?thesis using r l by (cases "m_done s'") (auto simp: yields_def)
  next
    case False
    then show ?thesis using r l Cons.IH[of "pre @ [c]" s'] by simp
  qed
qed

lemma outer_step_initialized: "m_initialized (fst (outer_step ctx s)) = m_initialized s"
  using apply_limits_frame by (simp add: outer_step_def Let_def split: prod.splits option.splits)

lemma outer_loop_initialized: "m_initialized (outer_loop ctx s) = m_initialized s"
proof (induction ctx s rule: outer_loop.induct)
  case (1 ctx s)
  then show ?case using outer_step_initialized[of ctx s]
    by (subst outer_loop.simps) (cases "outer_step ctx s", simp)
qed

lemma merge_read_yields:
  assumes "\<not> m_return_everything ctx" "unat (m_row_limit ctx) < 2 ^ 31" "sorted_cells M" "length M + 2 < 2 ^ 31"
    and "m_initialized s" "yields ctx M out s" "length out \<le> n"
  shows "merge_read ctx n s = out"
  using assms(5-)
proof (induction n arbitrary: s out)
  case (Suc n)
  show ?case
  proof (cases out)
    case Nil
    then show ?thesis using Suc.prems by (auto simp: yields_def merge_get_def)
  next
    case (Cons c out')
    then obtain pre W where y: "out' = limited ctx pre W" "\<not> m_done s" "m_queue s \<noteq> []" "q_top (m_queue s) = c" "scan_inv ctx M pre W s"
      using Suc.prems(2) by (auto simp: yields_def)
    have "merge_read ctx n (outer_loop ctx s) = out'"
      using Suc.IH[of "outer_loop ctx s" out'] outer_loop_user[OF assms(1-4) y(5)] y(1) Suc.prems(1,3) Cons
      by (simp add: outer_loop_initialized)
    then show ?thesis using y Suc.prems(1) Cons by (simp add: merge_get_def merge_forward_def)
  qed
qed simp

lemma tracks_only_inserts: "\<forall>d\<in>set l. c_flag d = FLAG_INSERT \<Longrightarrow> tracks l tracker_new"
  by (induction l rule: rev_induct) (simp_all add: tracks_new tracks_skip)

lemma hidden_no_deletes: "\<forall>d\<in>set l. c_flag d = FLAG_INSERT \<Longrightarrow> \<not> hidden l c"
  by (auto simp: hidden_def hidden_by_def newest_def deletes_defs FLAG_defs)

lemma track_delete_first:
  "c_flag c = FLAG_DELETE_ROW \<Longrightarrow> track_delete c tracker_new =
     tracker_new\<lparr>deleted_row := row_bytes c, deleted_row_timestamp := cell_ts c, delete_present := True\<rparr>"
  "c_flag c = FLAG_DELETE_COLUMN_FAMILY \<Longrightarrow> track_delete c tracker_new =
     tracker_new\<lparr>deleted_column_family := cf_bytes c, deleted_column_family_timestamp := cell_ts c, delete_present := True\<rparr>"
  "c_flag c = FLAG_DELETE_CELL \<Longrightarrow> track_delete c tracker_new =
     tracker_new\<lparr>deleted_cell := cell_bytes c, deleted_cell_timestamp := cell_ts c, delete_present := True\<rparr>"
  by (simp_all add: track_delete_def track_delete_row_def track_delete_column_family_def track_delete_cell_def tracker_new_def FLAG_defs)

lemma init_loop_cases:
  assumes "\<not> m_return_everything ctx" "m_queue s \<noteq> []" "q_top (m_queue s) = c" "wf_cell c" "m_tracker s = tracker_new"
  shows "init_loop ctx s =
    (if cell_ts c < m_start_timestamp ctx \<or> c_flag c = FLAG_INSERT \<and> m_end_timestamp ctx \<le> cell_ts c
     then init_loop ctx (s\<lparr>m_queue := q_forward (m_queue s)\<rparr>)
     else if c_flag c = FLAG_INSERT then start_cell ctx c s
     else merge_forward ctx (s\<lparr>m_tracker := track_delete c tracker_new\<rparr>))"
proof -
  have t: "tracker_new\<lparr>delete_present := False\<rparr> = tracker_new" by (simp add: tracker_new_def)
  have s: "s\<lparr>m_tracker := tracker_new\<rparr> = s" using assms(5) by (simp flip: assms(5))
  consider "c_flag c = FLAG_DELETE_ROW" | "c_flag c = FLAG_DELETE_COLUMN_FAMILY" | "c_flag c = FLAG_DELETE_CELL" | "c_flag c = FLAG_INSERT"
    using assms(4) by (auto simp: wf_cell_def)
  then show ?thesis
    by cases (subst init_loop.simps, simp add: assms(1-3,5) track_delete_first t s Let_def FLAG_defs)+
qed

lemma init_loop_user:
  assumes u: "\<not> m_return_everything ctx" and rl: "unat (m_row_limit ctx) < 2 ^ 31" and M: "sorted_cells M" "length M + 2 < 2 ^ 31"
    and "wf_queue (m_queue s)" "m_tracker s = tracker_new" "lim_inv ctx [] s" "M = P @ q_stream (m_queue s)"
    "\<forall>d\<in>set (since ctx P). c_flag d = FLAG_INSERT" "filter (visible ctx M) P = []"
  shows "yields ctx M (limited ctx [] (filter (visible ctx M) M)) (init_loop ctx s)"
  using assms(5-)
proof (induction "q_stream (m_queue s)" arbitrary: s P)
  case Nil
  then have "m_queue s = []" by (metis q_stream_Nil)
  then show ?case using Nil by (subst init_loop.simps) (simp add: yields_def)
next
  case (Cons c L)
  note w = Cons.prems(1) and tr = Cons.prems(2) and li = Cons.prems(3) and ins = Cons.prems(5) and nv = Cons.prems(6)
  have q: "m_queue s \<noteq> []" "q_top (m_queue s) = c" "q_stream (q_forward (m_queue s)) = L"
    using Cons.hyps(2)[symmetric] by (simp_all add: q_stream_Cons)
  have MP: "M = P @ c # L" using Cons.prems(4) Cons.hyps(2) by simp
  have c: "wf_cell c" using M(1) MP by (simp add: sorted_cells_append)
  have p: "\<And>d. d \<in> set (since ctx P) \<Longrightarrow> wf_cell d \<and> ckey d \<le> ckey c"
    using M(1) MP by (auto simp: since_def sorted_cells_append dest: sorted_cells_wf)
  let ?skip = "cell_ts c < m_start_timestamp ctx \<or> c_flag c = FLAG_INSERT \<and> m_end_timestamp ctx \<le> cell_ts c"
  note il = init_loop_cases[OF u q(1,2) c tr]
  consider (skip) ?skip | (insert) "\<not> ?skip" "c_flag c = FLAG_INSERT" | (delete) "\<not> ?skip" "c_flag c \<noteq> FLAG_INSERT" by blast
  then show ?case
  proof cases
    case skip
    let ?s = "s\<lparr>m_queue := q_forward (m_queue s)\<rparr>"
    have "\<not> visible ctx M c" using skip by (auto simp: visible_def)
    moreover have "\<forall>d\<in>set (since ctx (P @ [c])). c_flag d = FLAG_INSERT" using ins skip by (auto simp: since_def)
    moreover have "lim_inv ctx [] ?s" using li by (simp add: lim_inv_def)
    ultimately have "yields ctx M (limited ctx [] (filter (visible ctx M) M)) (init_loop ctx ?s)"
      using Cons.hyps(1)[of ?s "P @ [c]"] wf_queue_forward[OF w] tr q(3) MP nv by simp
    then show ?thesis using il skip by simp
  next
    case insert
    have "hidden (since ctx M) c = hidden (since ctx P) c" unfolding MP since_append
    proof (rule hidden_append[OF c insert(2)])
      show "wf_cell d \<and> ckey c \<le> ckey d" if "d \<in> set (since ctx (c # L))" for d
        using that M(1) MP by (auto simp: since_def sorted_cells_append dest: sorted_cells_wf split: if_splits)
    qed
    then have v: "visible ctx M c" using insert hidden_no_deletes[OF ins] by (auto simp: visible_def)
    have lw: "lim_inv ctx [c] (start_cell ctx c s)" "within_limits ctx [] c"
      using start_cell_inv[of s c "[]" ctx] li c unat_pos[of "m_row_limit ctx"] by (auto simp: lim_inv_def)
    have "\<forall>d\<in>set (since ctx (P @ [c])). c_flag d = FLAG_INSERT" using ins insert by (auto simp: since_def)
    then have "tracks (since ctx (P @ [c])) tracker_new" by (rule tracks_only_inserts)
    then have "scan_inv ctx M [c] (filter (visible ctx M) L) (start_cell ctx c s)"
      using lw(1) w tr Cons.hyps(2) MP nv v unfolding scan_inv_def
      by (intro conjI exI[of _ "P @ [c]"] exI[of _ c] exI[of _ L]) (simp_all add: start_cell_def)
    then have "yields ctx M (c # limited ctx [c] (filter (visible ctx M) L)) (start_cell ctx c s)"
      using q(1,2) li by (auto simp: yields_def start_cell_def lim_inv_def)
    then show ?thesis using il insert v lw(2) MP nv by simp
  next
    case delete
    let ?s = "s\<lparr>m_tracker := track_delete c tracker_new\<rparr>"
    have "tracks (since ctx P @ [c]) (track_delete c tracker_new)"
      by (rule tracks_track_delete[OF tracks_only_inserts[OF ins] c p delete(2)])
    moreover have "since ctx (P @ [c]) = since ctx P @ [c]" using delete(1) by (simp add: since_def)
    moreover have nvc: "\<not> visible ctx M c" using delete(2) by (simp add: visible_def)
    moreover have "lim_inv ctx [] ?s" using li by (simp add: lim_inv_def)
    ultimately have "scan_inv ctx M [] (filter (visible ctx M) L) ?s"
      using w Cons.hyps(2) MP nv unfolding scan_inv_def
      by (intro conjI exI[of _ "P @ [c]"] exI[of _ c] exI[of _ L]) simp_all
    note outer_loop_user[OF u rl M this]
    then show ?thesis using il delete nvc MP nv q(1) by (simp add: merge_forward_def)
  qed
qed

lemma fold_add_scanner: "fold add_scanner css s = s\<lparr>m_scanners := m_scanners s @ css\<rparr>"
  by (induction css arbitrary: s) (simp_all add: add_scanner_def)

lemma concat_nonempty: "concat (filter (\<lambda>cs. cs \<noteq> []) css) = concat css"
  by (induction css) auto

lemma wf_queue_nonempty: "\<forall>cs\<in>set css. sorted_cells cs \<Longrightarrow> wf_queue (filter (\<lambda>cs. cs \<noteq> []) css)"
  by (simp add: wf_queue_def)

lemma length_visible_limited: "length (limited ctx pre W) \<le> length W"
  by (induction W arbitrary: pre) (auto intro: le_SucI)

lemma yields_initialized: "yields ctx M out (s\<lparr>m_initialized := b\<rparr>) = yields ctx M out s"
  by (simp add: yields_def scan_inv_def lim_inv_def)

text \<open>The merged cells: sorted, and a permutation of all the cells of the scanners.\<close>

definition is_merge :: "cell list list \<Rightarrow> cell list \<Rightarrow> bool" where
  "is_merge css M \<longleftrightarrow> sorted_cells M \<and> mset M = mset (concat css)"

lemma q_stream_is_merge:
  "\<forall>cs\<in>set css. sorted_cells cs \<Longrightarrow> is_merge css (q_stream (filter (\<lambda>cs. cs \<noteq> []) css))"
  using q_stream_sorted[OF wf_queue_nonempty] q_stream_mset[OF wf_queue_nonempty]
  by (simp add: is_merge_def concat_nonempty)


section \<open>The scan of a compaction\<close>

lemma apply_limits_all:
  "m_return_everything ctx \<Longrightarrow> snd (apply_limits ctx c s) = False \<and> m_done (fst (apply_limits ctx c s)) = m_done s"
  by (simp add: apply_limits_def Let_def start_cell_def)

lemma outer_loop_all:
  assumes "m_return_everything ctx" "q_stream (m_queue s) = c # L"
  shows "q_stream (m_queue (outer_loop ctx s)) = L \<and> m_done (outer_loop ctx s) = m_done s"
proof -
  obtain t' where i: "inner_loop ctx (m_queue s) (m_tracker s) = (q_forward (m_queue s), t', case L of [] \<Rightarrow> None | c # _ \<Rightarrow> Some c)"
    using inner_loop_all[OF assms] by blast
  have f: "q_stream (q_forward (m_queue s)) = L" using assms(2) by (simp add: q_stream_Cons)
  let ?s = "s\<lparr>m_queue := q_forward (m_queue s), m_tracker := t'\<rparr>"
  obtain s' where o: "outer_step ctx s = (s', False)" "m_queue s' = q_forward (m_queue s)" "m_done s' = m_done s"
  proof (cases L)
    case Nil
    then show ?thesis using that[of ?s] i by (simp add: outer_step_def)
  next
    case (Cons d L')
    then show ?thesis using that[of "fst (apply_limits ctx d ?s)"] i apply_limits_all[OF assms(1), of d ?s] apply_limits_frame[of ctx d ?s]
      by (simp add: outer_step_def prod_eq_iff)
  qed
  then show ?thesis using f by (subst outer_loop.simps, subst (2) outer_loop.simps) simp
qed

lemma merge_read_all:
  assumes "m_return_everything ctx"
  shows "m_initialized s \<Longrightarrow> \<not> m_done s \<Longrightarrow> q_stream (m_queue s) = out \<Longrightarrow> length out \<le> n \<Longrightarrow> merge_read ctx n s = out"
proof (induction n arbitrary: s out)
  case (Suc n)
  show ?case
  proof (cases out)
    case Nil
    then show ?thesis using Suc.prems by (simp add: merge_get_def)
  next
    case (Cons c out')
    have "m_queue s \<noteq> []" "q_top (m_queue s) = c" using Suc.prems(3) Cons by (simp_all add: q_stream_Cons)
    moreover have "merge_read ctx n (outer_loop ctx s) = out'"
      using Suc outer_loop_all[OF assms, of s c out'] Cons by (simp add: outer_loop_initialized)
    ultimately show ?thesis using Suc.prems Cons by (simp add: merge_get_def merge_forward_def)
  qed
qed simp

lemma init_loop_all: "m_return_everything ctx \<Longrightarrow> m_queue (init_loop ctx s) = m_queue s \<and> m_done (init_loop ctx s) = m_done s"
  by (subst init_loop.simps, subst (2) init_loop.simps) (simp add: Let_def start_cell_def)

text \<open>C2. The scan of a compaction returns every cell of every scanner, deletes and old versions included, exactly once and in key
  order, whatever the limits and the time interval.\<close>

theorem merge_scan_everything:
  assumes "m_return_everything ctx" and "\<forall>cs\<in>set css. sorted_cells cs" and "length (concat css) \<le> n"
  shows "is_merge css (merge_read ctx n (fold add_scanner css merge_new))"
proof -
  define q where "q = filter (\<lambda>cs. cs \<noteq> []) css"
  define s where "s = fold add_scanner css merge_new"
  have M: "is_merge css (q_stream q)" unfolding q_def by (rule q_stream_is_merge[OF assms(2)])
  then have "length (q_stream q) \<le> n" using assms(3) by (metis is_merge_def size_mset)
  moreover have s: "m_scanners s = css" "\<not> m_done s" "\<not> m_initialized s" by (simp_all add: s_def fold_add_scanner merge_new_def)
  let ?i = "(init_loop ctx (s\<lparr>m_queue := q\<rparr>))\<lparr>m_initialized := True\<rparr>"
  have "q_stream (m_queue ?i) = q_stream q" "\<not> m_done ?i" using init_loop_all[OF assms(1)] s by simp_all
  ultimately have "merge_read ctx n ?i = q_stream q" using merge_read_all[OF assms(1), of ?i] by simp
  moreover have "merge_read ctx n s = merge_read ctx n ?i"
    by (cases n) (simp_all add: merge_get_def merge_initialize_def s q_def[symmetric])
  ultimately show ?thesis using M by (simp add: s_def)
qed

section \<open>A concrete scan\<close>

definition ctx_w :: merge_context where
  "ctx_w = \<lparr>m_return_everything = False, m_start_timestamp = 0, m_end_timestamp = 100, m_row_limit = 5, max_versions = (\<lambda>_. 1)\<rparr>"

definition css_w :: "cell list list" where
  "css_w = [[cell_w FLAG_INSERT 1 [66] 60, cell_w FLAG_INSERT 1 [66] 50, cell_w FLAG_INSERT 1 [67] 20], [cell_w FLAG_DELETE_ROW 0 [] 30]]"

lemma css_w_sorted: "\<forall>cs\<in>set css_w. sorted_cells cs"
  by (simp add: css_w_def wf_cell_def cell_w_def FLAG_defs ckey_def)


theorem merge_scan_everything_witness:
  "is_merge css_w (merge_read (ctx_w\<lparr>m_return_everything := True\<rparr>) 4 (fold add_scanner css_w merge_new))"
  by (rule merge_scan_everything[OF _ css_w_sorted]) (simp_all add: css_w_def)

end
