(* ===== verification/CellStores.thy ===== *)
theory CellStores
  imports Cells BlockCompression WireTypes
begin

text \<open>
  Cell stores (\<^verbatim>\<open>CellStoreV0\<close>, \<^verbatim>\<open>CellStoreTrailerV0\<close> and \<^verbatim>\<open>CellStoreScannerV0\<close> of \<^verbatim>\<open>Hypertable/RangeServer\<close>): files of sorted cells in
  compressed blocks, followed by an index of the blocks and a trailer. Shown: what was added comes back, for any lawful codec
  and whatever the block sizes - the file written is opened, its index loaded, and a scan returns exactly the cells of the
  range; and where the code leaves its buffers: finalizing a store of one or two blocks, and loading the index of a store
  whose rows all precede the start row. Assertions are not part of the model, but for the one on the offset of a block read ahead.
\<close>

section \<open>Trailer\<close>

record trailer =
  fix_index_offset :: u32
  var_index_offset :: u32
  filter_offset :: u32
  index_entries :: u32
  total_entries :: u32
  blocksize :: u32
  tr_timestamp :: timestamp
  compression_ratio_i32 :: u32
  tr_compression_type :: u16
  tr_version :: u16

definition trailer_clear :: trailer where
  "trailer_clear = \<lparr>fix_index_offset = 0, var_index_offset = 0, filter_offset = 0, index_entries = 0, total_entries = 0, blocksize = 0,
     tr_timestamp = timestamp_clear, compression_ratio_i32 = 0, tr_compression_type = 0, tr_version = 0\<rparr>"

definition trailer_size :: nat where
  "trailer_size = 48"

definition trailer_serialize :: "trailer \<Rightarrow> bytes" where
  "trailer_serialize t =
     encode_i32 (fix_index_offset t) @ encode_i32 (var_index_offset t) @ encode_i32 (filter_offset t) @ encode_i32 (index_entries t)
     @ encode_i32 (total_entries t) @ encode_i32 (blocksize t) @ encode_i64 (ts_logical (tr_timestamp t))
     @ encode_i64 (ts_real (tr_timestamp t)) @ encode_i32 (compression_ratio_i32 t) @ encode_i16 (tr_compression_type t)
     @ encode_i16 (tr_version t)"

definition trailer_deserialize :: "bytes \<Rightarrow> trailer result" where
  "trailer_deserialize buf =
     rbind (dbind decode_i32 (\<lambda>fix_off. dbind decode_i32 (\<lambda>var_off. dbind decode_i32 (\<lambda>flt. dbind decode_i32 (\<lambda>ie. dbind decode_i32 (\<lambda>te.
       dbind decode_i32 (\<lambda>bs. dbind decode_i64 (\<lambda>l. dbind decode_i64 (\<lambda>r. dbind decode_i32 (\<lambda>cr. dbind decode_i16 (\<lambda>ct. dbind decode_i16 (\<lambda>v.
         dret \<lparr>fix_index_offset = fix_off, var_index_offset = var_off, filter_offset = flt, index_entries = ie, total_entries = te,
           blocksize = bs, tr_timestamp = \<lparr>ts_logical = l, ts_real = r\<rparr>, compression_ratio_i32 = cr, tr_compression_type = ct,
           tr_version = v\<rparr>))))))))))) (buf, of_nat trailer_size)) (\<lambda>(t, _). Inr t)"

section \<open>Codecs and the file\<close>

text \<open>\<^verbatim>\<open>BlockCompressionCodec\<close>: the two operations of a codec.\<close>

record block_codec =
  bc_deflate :: "bytes \<Rightarrow> block_header \<Rightarrow> bytes"
  bc_inflate :: "bytes \<Rightarrow> block_header \<Rightarrow> (bytes \<times> block_header) result"

definition codec_none :: block_codec where
  "codec_none = \<lparr>bc_deflate = (\<lambda>input h. fst (deflate_none input h)), bc_inflate = inflate_none\<rparr>"

text \<open>What the file system answers to the calls, in order: the call is carried out, it fails at once, or it is accepted and fails
  later, which only the reply to an asynchronous call tells. When no more answers are given all calls succeed.\<close>

datatype outcome = Done | Refused | Lost

text \<open>The floating-point arithmetic on the summed sizes of blocks before and after compression is a parameter: what it makes of the
  list of sizes.\<close>

record float_ops =
  fo_blocksize :: "u32 \<Rightarrow> (nat \<times> nat) list \<Rightarrow> u32"
  fo_ratio :: "(nat \<times> nat) list \<Rightarrow> u32"

type_synonym index = "(bytes \<times> u32) list"

text \<open>The index is the sequence of its entries: a pointer to a byte string, as the memory from it on, and an offset into the file.
  \<open>cs_last_key\<close> is the offset of \<^verbatim>\<open>m_last_key\<close> in the buffer, \<open>cs_replies\<close> are the replies that have not been waited for.\<close>

record cell_store =
  cs_file :: bytes
  cs_outcomes :: "outcome list"
  cs_replies :: "bool list"
  cs_index :: index
  cs_trailer :: trailer
  cs_buffer :: bytes
  cs_fix :: bytes
  cs_var :: bytes
  cs_outstanding :: u32
  cs_offset :: u32
  cs_last_key :: nat
  cs_file_length :: u64
  cs_disk_usage :: u32
  cs_start_row :: bytes
  cs_end_row :: bytes
  cs_split_row :: bytes
  cs_sizes :: "(nat \<times> nat) list"
  cs_uncompressed_blocksize :: u32

definition DATA_BLOCK_MAGIC :: bytes where "DATA_BLOCK_MAGIC = [0x44, 0x61, 0x74, 0x61, 0x2d, 0x2d, 0x2d, 0x2d, 0x2d, 0x2d]"
definition INDEX_FIXED_BLOCK_MAGIC :: bytes where "INDEX_FIXED_BLOCK_MAGIC = [0x49, 0x64, 0x78, 0x46, 0x69, 0x78, 0x2d, 0x2d, 0x2d, 0x2d]"
definition INDEX_VARIABLE_BLOCK_MAGIC :: bytes where "INDEX_VARIABLE_BLOCK_MAGIC = [0x49, 0x64, 0x78, 0x56, 0x61, 0x72, 0x2d, 0x2d, 0x2d, 0x2d]"
definition MAX_APPENDS_OUTSTANDING :: u32 where "MAX_APPENDS_OUTSTANDING = 3"

definition cs_call :: "cell_store \<Rightarrow> bool \<times> cell_store" where
  "cs_call st = (case cs_outcomes st of [] \<Rightarrow> (True, st) | x # xs \<Rightarrow> (x = Done, st\<lparr>cs_outcomes := xs\<rparr>))"

definition cs_append_async :: "bytes \<Rightarrow> cell_store \<Rightarrow> bool \<times> cell_store" where
  "cs_append_async data st =
     (case cs_outcomes st of
        [] \<Rightarrow> (True, st\<lparr>cs_file := cs_file st @ data, cs_replies := cs_replies st @ [True]\<rparr>)
      | Done # xs \<Rightarrow> (True, st\<lparr>cs_outcomes := xs, cs_file := cs_file st @ data, cs_replies := cs_replies st @ [True]\<rparr>)
      | Refused # xs \<Rightarrow> (False, st\<lparr>cs_outcomes := xs\<rparr>)
      | Lost # xs \<Rightarrow> (True, st\<lparr>cs_outcomes := xs, cs_replies := cs_replies st @ [False]\<rparr>))"

definition cs_append_sync :: "bytes \<Rightarrow> cell_store \<Rightarrow> bool \<times> cell_store" where
  "cs_append_sync data st = (let (ok, st) = cs_call st in (ok, if ok then st\<lparr>cs_file := cs_file st @ data\<rparr> else st))"

text \<open>Without any reply to come the wait would not end. That does not happen: at least as many replies are to come as appends are
  outstanding, an invariant of the proofs below.\<close>

definition wait_for_reply :: "cell_store \<Rightarrow> bool \<times> cell_store" where
  "wait_for_reply st = (case cs_replies st of [] \<Rightarrow> (False, st) | r # rs \<Rightarrow> (r, st\<lparr>cs_replies := rs\<rparr>))"

section \<open>Writing a store\<close>

definition cs_create :: "u32 \<Rightarrow> u16 \<Rightarrow> outcome list \<Rightarrow> cell_store" where
  "cs_create bs compressor outcomes =
     \<lparr>cs_file = [], cs_outcomes = outcomes, cs_replies = [], cs_index = [],
      cs_trailer = trailer_clear\<lparr>blocksize := bs, tr_compression_type := compressor\<rparr>, cs_buffer = [], cs_fix = [], cs_var = [],
      cs_outstanding = 0, cs_offset = 0, cs_last_key = 0, cs_file_length = 0, cs_disk_usage = 0, cs_start_row = [],
      cs_end_row = END_ROW_MARKER, cs_split_row = [], cs_sizes = [], cs_uncompressed_blocksize = bs\<rparr>"

definition add_index_entry :: "bytes \<Rightarrow> u32 \<Rightarrow> cell_store \<Rightarrow> cell_store result" where
  "add_index_entry key offset st =
     rbind (bs_length (Some key)) (\<lambda>key_len. rbind (rdn key_len key) (\<lambda>(k, _).
     Inr (st\<lparr>cs_var := cs_var st @ k, cs_fix := cs_fix st @ le_split 4 offset,
       cs_trailer := (cs_trailer st)\<lparr>index_entries := index_entries (cs_trailer st) + 1\<rparr>\<rparr>)))"

text \<open>Waiting for a reply when too many are outstanding, then the append.\<close>

definition append_throttled :: "bytes \<Rightarrow> cell_store \<Rightarrow> bool \<times> cell_store" where
  "append_throttled z st =
     (let (ok, st) = (if cs_outstanding st \<ge> MAX_APPENDS_OUTSTANDING
          then (let (ok, st) = wait_for_reply st in (ok, if ok then st\<lparr>cs_outstanding := cs_outstanding st - 1\<rparr> else st))
          else (True, st)) in
      if \<not> ok then (False, st)
      else let (ok, st) = cs_append_async z st in
        (ok, if ok then st\<lparr>cs_outstanding := cs_outstanding st + 1, cs_offset := cs_offset st + of_nat (length z)\<rparr> else st))"

definition cs_flush :: "float_ops \<Rightarrow> block_codec \<Rightarrow> cell_store \<Rightarrow> (bool \<times> cell_store) result" where
  "cs_flush fo zc st =
     rbind (add_index_entry (drop (cs_last_key st) (cs_buffer st)) (cs_offset st) st) (\<lambda>st.
     let z = bc_deflate zc (cs_buffer st) (header_new DATA_BLOCK_MAGIC);
         st = st\<lparr>cs_sizes := cs_sizes st @ [(length (cs_buffer st), length z)], cs_buffer := []\<rparr>;
         st = st\<lparr>cs_uncompressed_blocksize := fo_blocksize fo (blocksize (cs_trailer st)) (cs_sizes st)\<rparr> in
     Inr (append_throttled z st))"

definition cs_add :: "float_ops \<Rightarrow> block_codec \<Rightarrow> bytes \<Rightarrow> bytes \<Rightarrow> cell_store \<Rightarrow> (bool \<times> cell_store) result" where
  "cs_add fo zc key value st =
     rbind (if unat (cs_uncompressed_blocksize st) < length (cs_buffer st) then cs_flush fo zc st else Inr (True, st)) (\<lambda>(ok, st).
     if \<not> ok then Inr (False, st)
     else
       rbind (bs_length (Some key)) (\<lambda>key_len. rbind (bs_length (Some value)) (\<lambda>value_len.
       rbind (rdn key_len key) (\<lambda>(k, _). rbind (rdn value_len value) (\<lambda>(v, _).
       Inr (True, st\<lparr>cs_last_key := length (cs_buffer st), cs_buffer := cs_buffer st @ k @ v,
         cs_trailer := (cs_trailer st)\<lparr>total_entries := total_entries (cs_trailer st) + 1\<rparr>\<rparr>))))))"

definition record_split_row :: "bytes \<Rightarrow> cell_store \<Rightarrow> cell_store result" where
  "record_split_row key st =
     rbind (bs_decode_length key) (\<lambda>(_, ptr).
     if 0 \<notin> set ptr then Inl UNDEFINED_BEHAVIOUR
     else let split_row = cstr_at ptr in
       Inr (if cs_start_row st < split_row \<and> split_row < cs_end_row st then st\<lparr>cs_split_row := split_row\<rparr> else st))"

definition get_split_row :: "cell_store \<Rightarrow> cstr" where
  "get_split_row st = (if cs_split_row st \<noteq> [] then Some (cs_split_row st) else None)"

text \<open>\<^verbatim>\<open>std::map\<close>: insertion, and the searches, which give the entries from the one found on.\<close>

fun ix_insert :: "bytes \<Rightarrow> u32 \<Rightarrow> index \<Rightarrow> index result" where
  "ix_insert k v [] = Inr [(k, v)]"
| "ix_insert k v ((k', v') # m) =
     rbind (bs_less k k') (\<lambda>lt. if lt then Inr ((k, v) # (k', v') # m)
       else rbind (bs_less k' k) (\<lambda>gt. if gt then rbind (ix_insert k v m) (\<lambda>m. Inr ((k', v') # m)) else Inr ((k', v') # m)))"

fun ix_lower_bound :: "bytes \<Rightarrow> index \<Rightarrow> index result" where
  "ix_lower_bound p [] = Inr []"
| "ix_lower_bound p ((k, v) # m) = rbind (bs_less k p) (\<lambda>lt. if lt then ix_lower_bound p m else Inr ((k, v) # m))"

fun ix_upper_bound :: "bytes \<Rightarrow> index \<Rightarrow> index result" where
  "ix_upper_bound p [] = Inr []"
| "ix_upper_bound p ((k, v) # m) = rbind (bs_less p k) (\<lambda>lt. if lt then Inr ((k, v) # m) else ix_upper_bound p m)"

text \<open>The loop that builds the index from the two buffers; \<open>mid\<close> is the iteration in which \<^verbatim>\<open>finalize\<close> records a split row.\<close>

fun index_loop :: "nat option \<Rightarrow> nat \<Rightarrow> nat \<Rightarrow> bytes \<Rightarrow> bytes \<Rightarrow> cell_store \<Rightarrow> cell_store result" where
  "index_loop mid i 0 var fixed st = Inr st"
| "index_loop mid i (Suc n) var fixed st =
     rbind (bs_next var) (\<lambda>(key, var). rbind (rdn 4 fixed) (\<lambda>(offset, fixed).
     rbind (ix_insert key (le_join offset) (cs_index st)) (\<lambda>m.
     rbind (if mid = Some i then record_split_row var (st\<lparr>cs_index := m\<rparr>) else Inr (st\<lparr>cs_index := m\<rparr>)) (\<lambda>st.
     index_loop mid (Suc i) n var fixed st))))"

text \<open>\<^verbatim>\<open>finalize\<close>; \<open>mem\<close> is the memory behind the variable index, which was cut to its exact length.\<close>

definition finalize_data :: "block_codec \<Rightarrow> cell_store \<Rightarrow> (bool \<times> cell_store) result" where
  "finalize_data zc st =
     (if cs_buffer st = [] then Inr (True, st)
      else rbind (add_index_entry (drop (cs_last_key st) (cs_buffer st)) (cs_offset st) st) (\<lambda>st.
        let z = bc_deflate zc (cs_buffer st) (header_new DATA_BLOCK_MAGIC);
            st = st\<lparr>cs_sizes := cs_sizes st @ [(length (cs_buffer st), length z)]\<rparr> in
        Inr (append_throttled z st)))"

definition finalize_index :: "float_ops \<Rightarrow> block_codec \<Rightarrow> timestamp \<Rightarrow> cell_store \<Rightarrow> bool \<times> cell_store" where
  "finalize_index fo zc ts st =
     (let st = st\<lparr>cs_trailer := (cs_trailer st)\<lparr>fix_index_offset := cs_offset st, tr_timestamp := ts,
            compression_ratio_i32 := fo_ratio fo (cs_sizes st), tr_version := 0\<rparr>\<rparr>;
          z = bc_deflate zc (cs_fix st) (header_new INDEX_FIXED_BLOCK_MAGIC);
          (ok, st) = cs_append_async z st in
      (ok, if ok then st\<lparr>cs_outstanding := cs_outstanding st + 1, cs_offset := cs_offset st + of_nat (length z)\<rparr> else st))"

definition finalize_trailer :: "block_codec \<Rightarrow> bytes \<Rightarrow> cell_store \<Rightarrow> (bool \<times> cell_store) result" where
  "finalize_trailer zc mem st =
     (let st = st\<lparr>cs_trailer := (cs_trailer st)\<lparr>var_index_offset := cs_offset st\<rparr>\<rparr>;
          z = bc_deflate zc (cs_var st) (header_new INDEX_VARIABLE_BLOCK_MAGIC);
          n = unat (index_entries (cs_trailer st)) in
      rbind (index_loop (Some (n div 2)) 0 n (cs_var st @ mem) (cs_fix st) st) (\<lambda>st.
      let st = st\<lparr>cs_trailer := (cs_trailer st)\<lparr>filter_offset := cs_offset st + of_nat (length z)\<rparr>\<rparr>;
          z = z @ trailer_serialize (cs_trailer st);
          (ok, st) = cs_append_sync z st in
      if \<not> ok then Inr (False, st)
      else
        let st = st\<lparr>cs_outstanding := cs_outstanding st + 1, cs_offset := cs_offset st + of_nat (length z)\<rparr>;
            (ok, st) = cs_call st in
        if \<not> ok then Inr (False, st)
        else
          let st = st\<lparr>cs_file_length := ucast (cs_offset st)\<rparr>;
              (ok, st) = cs_call st in
          if \<not> ok then Inr (False, st)
          else Inr (True, st\<lparr>cs_disk_usage := ucast (cs_file_length st)\<rparr>)))"

definition cs_finalize :: "float_ops \<Rightarrow> block_codec \<Rightarrow> bytes \<Rightarrow> timestamp \<Rightarrow> cell_store \<Rightarrow> (bool \<times> cell_store) result" where
  "cs_finalize fo zc mem ts st =
     rbind (finalize_data zc st) (\<lambda>(ok, st).
     if \<not> ok then Inr (False, st)
     else let (ok, st) = finalize_index fo zc ts st in
       if \<not> ok then Inr (False, st) else finalize_trailer zc mem st)"

section \<open>Opening a store\<close>

definition cs_open :: "cstr \<Rightarrow> cstr \<Rightarrow> cell_store \<Rightarrow> cell_store result" where
  "cs_open srow erow st =
     (let st = st\<lparr>cs_start_row := (case srow of None \<Rightarrow> [] | Some r \<Rightarrow> r),
            cs_end_row := (case erow of None \<Rightarrow> END_ROW_MARKER | Some r \<Rightarrow> r)\<rparr>;
          (ok, st) = cs_call st in
      if \<not> ok then Inl LOCAL_IO_ERROR
      else
        let st = st\<lparr>cs_file_length := of_nat (length (cs_file st))\<rparr> in
        if cs_file_length st < of_nat trailer_size then Inl LOCAL_IO_ERROR
        else
          let (ok, st) = cs_call st in
          if \<not> ok then Inl LOCAL_IO_ERROR
          else
            let (ok, st) = cs_call st in
            if \<not> ok then Inl LOCAL_IO_ERROR
            else
              rbind (trailer_deserialize (take trailer_size (drop (unat (cs_file_length st - of_nat trailer_size)) (cs_file st)))) (\<lambda>t.
              if tr_version t \<noteq> 0 then Inl LOCAL_IO_ERROR
              else if \<not> (fix_index_offset t < var_index_offset t \<and> ucast (var_index_offset t) < cs_file_length st) then Inl LOCAL_IO_ERROR
              else Inr (st\<lparr>cs_trailer := t\<rparr>)))"

text \<open>A handler of exceptions: undefined behaviour is not an exception.\<close>

definition caught :: "'a result \<Rightarrow> 'a option result" where
  "caught r = (case r of Inl e \<Rightarrow> if e = UNDEFINED_BEHAVIOUR then Inl e else Inr None | Inr x \<Rightarrow> Inr (Some x))"

definition inflate_index :: "block_codec \<Rightarrow> bytes \<Rightarrow> bytes \<Rightarrow> bytes result" where
  "inflate_index zc m input =
     rbind (bc_inflate zc input (header_new [])) (\<lambda>(data, h). if check_magic m h then Inr data else Inl BLOCK_COMPRESSOR_BAD_MAGIC)"

definition read_index :: "block_codec \<Rightarrow> cell_store \<Rightarrow> (bytes \<times> bytes) result" where
  "read_index zc st =
     (let t = cs_trailer st;
          amount = ucast (cs_file_length st - of_nat trailer_size - ucast (fix_index_offset t)) :: u32;
          buf = take (unat amount) (drop (unat (fix_index_offset t)) (cs_file st));
          n = unat (var_index_offset t - fix_index_offset t);
          vamount = unat (ucast (cs_file_length st - of_nat trailer_size - ucast (var_index_offset t)) :: u32) in
      if length buf \<noteq> unat amount then Inl DFSBROKER_IO_ERROR
      else if length buf < n then Inl UNDEFINED_BEHAVIOUR
      else rbind (inflate_index zc INDEX_FIXED_BLOCK_MAGIC (take n buf)) (\<lambda>fixed.
        if length buf < n + vamount then Inl UNDEFINED_BEHAVIOUR
        else rbind (inflate_index zc INDEX_VARIABLE_BLOCK_MAGIC (take vamount (drop n buf))) (\<lambda>var. Inr (fixed, var))))"

text \<open>The loop that moves half as fast as the iterator; iterators into the index are equal when as many entries follow.\<close>

fun mid_loop :: "nat \<Rightarrow> index \<Rightarrow> index \<Rightarrow> index \<Rightarrow> index result" where
  "mid_loop i [] mid stop = (if stop = [] then Inr mid else Inl UNDEFINED_BEHAVIOUR)"
| "mid_loop i (e # iter) mid stop =
     (if length (e # iter) = length stop then Inr mid
      else if i mod 2 = 0 then (case mid of [] \<Rightarrow> Inl UNDEFINED_BEHAVIOUR | _ # mid \<Rightarrow> mid_loop (Suc i) iter mid stop)
      else mid_loop (Suc i) iter mid stop)"

definition compute_disk_usage :: "cell_store \<Rightarrow> cell_store result" where
  "compute_disk_usage st =
     rbind (append_as_byte_string (cs_start_row st @ [0])) (\<lambda>bs. rbind (ix_upper_bound bs (cs_index st)) (\<lambda>iter.
     case iter of [] \<Rightarrow> Inl UNDEFINED_BEHAVIOUR
     | (_, start) # _ \<Rightarrow>
         rbind (append_as_byte_string (cs_end_row st @ [0])) (\<lambda>bs. rbind (ix_lower_bound bs (cs_index st)) (\<lambda>end_iter.
         let stop = (case end_iter of [] \<Rightarrow> ucast (cs_file_length st) | (_, off) # _ \<Rightarrow> off);
             st = st\<lparr>cs_disk_usage := stop - start\<rparr> in
         rbind (mid_loop 0 iter iter end_iter) (\<lambda>mid.
         case mid of [] \<Rightarrow> Inr st | (k, _) # _ \<Rightarrow> record_split_row k st)))))"

definition load_index :: "block_codec \<Rightarrow> cell_store \<Rightarrow> (bool \<times> cell_store) result" where
  "load_index zc st =
     (let (ok, st) = cs_call st in
      if \<not> ok then Inr (False, st)
      else rbind (caught (read_index zc st)) (\<lambda>r. case r of
          None \<Rightarrow> Inr (False, st)
        | Some (fixed, var) \<Rightarrow>
            rbind (index_loop None 0 (unat (index_entries (cs_trailer st))) var fixed (st\<lparr>cs_index := []\<rparr>)) (\<lambda>st.
            rbind (compute_disk_usage st) (\<lambda>st. Inr (True, st)))))"

section \<open>Scanning a store\<close>

text \<open>What a scanner refers to: the file, where its data blocks end, the codec, the block cache, and how far behind the requested end
  the buffered reader delivers data.\<close>

record scan_env =
  se_file :: bytes
  se_fix_index_offset :: u32
  se_inflate :: "bytes \<Rightarrow> block_header \<Rightarrow> (bytes \<times> block_header) result"
  se_cache :: "u32 \<Rightarrow> bytes option"
  se_slack :: nat

text \<open>\<open>ss_block\<close> is the memory from \<^verbatim>\<open>m_block.ptr\<close> to \<^verbatim>\<open>m_block.end\<close> when a block is loaded; \<open>ss_cur\<close> are the pointers to the current key and
  value, each as the memory from it to the end of the block.\<close>

record cs_scanner =
  ss_iter :: index
  ss_block :: "bytes option"
  ss_cur :: "bytes \<times> bytes"
  ss_check_for_range_end :: bool
  ss_end_inclusive :: bool
  ss_start_row :: bytes
  ss_end_row :: bytes
  ss_readahead :: bool
  ss_start_offset :: u32
  ss_end_offset :: u32

text \<open>The compressed length of the block at the iterator, and whether the end of the range may lie in it or the next.\<close>

definition block_extent :: "scan_env \<Rightarrow> cs_scanner \<Rightarrow> (u32 \<times> u32 \<times> bool) result" where
  "block_extent env s =
     (case ss_iter s of
        [] \<Rightarrow> Inl UNDEFINED_BEHAVIOUR
      | [(k, off)] \<Rightarrow> Inr (off, se_fix_index_offset env - off, ss_check_for_range_end s \<or> take 1 (ss_end_row s) \<noteq> [0xff])
      | (k, off) # (k', off') # _ \<Rightarrow>
          rbind (bs_str k') (\<lambda>p. if 0 \<notin> set p then Inl UNDEFINED_BEHAVIOUR
            else Inr (off, off' - off, ss_check_for_range_end s \<or> ss_end_row s \<le> cstr_at p)))"

definition inflate_data :: "scan_env \<Rightarrow> bytes \<Rightarrow> bytes result" where
  "inflate_data env input =
     rbind (se_inflate env input (header_new [])) (\<lambda>(data, h). if check_magic DATA_BLOCK_MAGIC h then Inr data else Inl BLOCK_COMPRESSOR_BAD_MAGIC)"

text \<open>At the end of the current block the scanner leaves it.\<close>

definition leave_block :: "cs_scanner \<Rightarrow> cs_scanner" where
  "leave_block s = (if ss_block s = Some [] then s\<lparr>ss_block := None, ss_iter := tl (ss_iter s)\<rparr> else s)"

text \<open>Both kinds of fetching give false when there is no next block; a short read leaves part of the buffer uninitialised.\<close>

definition fetch_next_block :: "scan_env \<Rightarrow> cs_scanner \<Rightarrow> (bool \<times> cs_scanner) result" where
  "fetch_next_block env s =
     (let s = leave_block s in
      if ss_block s = None \<and> ss_iter s \<noteq> [] then
        rbind (block_extent env s) (\<lambda>(off, zlength, check).
        let s = s\<lparr>ss_check_for_range_end := check\<rparr>; buf = take (unat zlength) (drop (unat off) (se_file env)) in
        rbind (case se_cache env off of
            Some data \<Rightarrow> Inr (Some data)
          | None \<Rightarrow> if length buf < unat zlength then Inl UNDEFINED_BEHAVIOUR else caught (inflate_data env buf)) (\<lambda>data.
        case data of None \<Rightarrow> Inr (False, s) | Some d \<Rightarrow> Inr (True, s\<lparr>ss_block := Some d\<rparr>)))
      else Inr (False, s))"

definition fetch_next_block_readahead :: "scan_env \<Rightarrow> cs_scanner \<Rightarrow> (bool \<times> cs_scanner) result" where
  "fetch_next_block_readahead env s =
     (let s = leave_block s in
      if ss_block s = None \<and> ss_iter s \<noteq> [] then
        rbind (block_extent env s) (\<lambda>(off, zlength, check).
        if off \<noteq> ss_start_offset s then Inl FAILED_EXPECTATION
        else
          let s = s\<lparr>ss_check_for_range_end := check\<rparr>;
              available = unat (ss_end_offset s) + se_slack env - unat (ss_start_offset s);
              buf = take (min (unat zlength) available) (drop (unat (ss_start_offset s)) (se_file env)) in
          if length buf < unat zlength then Inl UNDEFINED_BEHAVIOUR
          else rbind (inflate_data env buf) (\<lambda>d.
            Inr (True, s\<lparr>ss_start_offset := ss_start_offset s + zlength, ss_block := Some d\<rparr>)))
      else Inr (False, s))"

definition fetch :: "scan_env \<Rightarrow> cs_scanner \<Rightarrow> (bool \<times> cs_scanner) result" where
  "fetch env s = (if ss_readahead s then fetch_next_block_readahead env s else fetch_next_block env s)"

text \<open>Key and value at the start of the block, and the block behind the value.\<close>

definition set_current :: "cs_scanner \<Rightarrow> cs_scanner result" where
  "set_current s = (case ss_block s of None \<Rightarrow> Inl UNDEFINED_BEHAVIOUR
     | Some p \<Rightarrow> rbind (bs_next p) (\<lambda>(k, v). Inr (s\<lparr>ss_cur := (k, v)\<rparr>)))"

definition skip_current :: "cs_scanner \<Rightarrow> cs_scanner result" where
  "skip_current s = (if ss_block s = None then Inl UNDEFINED_BEHAVIOUR else rbind (bs_next (snd (ss_cur s))) (\<lambda>(_, p). Inr (s\<lparr>ss_block := Some p\<rparr>)))"

definition current_row :: "cs_scanner \<Rightarrow> bytes result" where
  "current_row s = rbind (bs_str (fst (ss_cur s))) (\<lambda>p. if 0 \<notin> set p then Inl UNDEFINED_BEHAVIOUR else Inr (cstr_at p))"

definition past_end :: "cs_scanner \<Rightarrow> bytes \<Rightarrow> bool" where
  "past_end s row \<longleftrightarrow> (if ss_end_inclusive s then ss_end_row s < row else ss_end_row s \<le> row)"

text \<open>The move to the next cell, in the next block if need be; false when there is none.\<close>

definition next_cell :: "scan_env \<Rightarrow> cs_scanner \<Rightarrow> (bool \<times> cs_scanner) result" where
  "next_cell env s =
     rbind (skip_current s) (\<lambda>s. rbind (if ss_block s = Some [] then fetch env s else Inr (True, s)) (\<lambda>(ok, s).
     if ok then rbind (set_current s) (\<lambda>s. Inr (True, s)) else Inr (False, s)))"

lemma bs_next_length: "bs_next p = Inr (k, v) \<Longrightarrow> k = p \<and> length v < length p"
  by (auto simp: bs_next_def rbind_eq_Inr_iff advance_def dest!: decode_vi32_ptr_suffix split: if_splits)

lemma rbind_cong [fundef_cong]: "m = m' \<Longrightarrow> (\<And>x. m' = Inr x \<Longrightarrow> f x = f' x) \<Longrightarrow> rbind m f = rbind m' f'"
  by (cases m') simp_all

lemma leave_block_iter: "length (ss_iter (leave_block s)) \<le> length (ss_iter s)"
  "ss_block s = Some [] \<Longrightarrow> ss_iter s \<noteq> [] \<Longrightarrow> length (ss_iter (leave_block s)) < length (ss_iter s)"
  by (auto simp: leave_block_def)

lemma fetch_iter: "fetch env s = Inr (ok, s') \<Longrightarrow> ss_iter s' = ss_iter (leave_block s) \<and> (ok \<longrightarrow> ss_iter s' \<noteq> [])"
  by (auto simp: fetch_def fetch_next_block_def fetch_next_block_readahead_def Let_def rbind_eq_Inr_iff split: if_splits option.splits)

lemma skip_current_progress:
  "skip_current s = Inr s1 \<Longrightarrow> ss_iter s1 = ss_iter s \<and> (\<exists>p. ss_block s1 = Some p \<and> length p < length (snd (ss_cur s)))"
  by (auto simp: skip_current_def rbind_eq_Inr_iff dest!: bs_next_length split: if_splits)

text \<open>Each move leaves fewer blocks, or less of the block, behind the current cell.\<close>

lemma next_cell_progress:
  assumes "next_cell env s = Inr (True, s')"
  shows "length (ss_iter s') < length (ss_iter s) \<or> ss_iter s' = ss_iter s \<and> length (snd (ss_cur s')) < length (snd (ss_cur s))"
proof -
  obtain s1 where 1: "skip_current s = Inr s1" "ss_iter s1 = ss_iter s" "\<exists>p. ss_block s1 = Some p \<and> length p < length (snd (ss_cur s))"
    using assms skip_current_progress by (auto simp: next_cell_def rbind_eq_Inr_iff)
  obtain s2 where 2: "(if ss_block s1 = Some [] then fetch env s1 else Inr (True, s1)) = Inr (True, s2)" "set_current s2 = Inr s'"
    using assms 1(1) by (auto simp: next_cell_def rbind_eq_Inr_iff split: if_splits)
  have s': "ss_iter s' = ss_iter s2" "\<exists>p. ss_block s2 = Some p \<and> length (snd (ss_cur s')) < length p"
    using 2(2) by (auto simp: set_current_def rbind_eq_Inr_iff dest!: bs_next_length split: option.splits)
  show ?thesis
  proof (cases "ss_block s1 = Some []")
    case True
    then have f: "ss_iter s2 = ss_iter (leave_block s1)" "ss_iter s2 \<noteq> []" using 2(1) fetch_iter[of env s1 True s2] by auto
    then have "ss_iter s1 \<noteq> []" by (auto simp: leave_block_def split: if_splits)
    then show ?thesis using leave_block_iter(2)[OF True] f(1) s'(1) 1(2) by simp
  next
    case False
    then show ?thesis using 2(1) s' 1 by auto
  qed
qed

text \<open>\<^verbatim>\<open>forward\<close>: moves until a cell of a selected family, a row delete or the end; a key that cannot be parsed ends the loop.\<close>

function css_forward :: "scan_env \<Rightarrow> (byte \<Rightarrow> bool) \<Rightarrow> cs_scanner \<Rightarrow> cs_scanner result" where
  "css_forward env family_mask s =
     (if ss_iter s = [] then Inr s
      else rbind (next_cell env s) (\<lambda>(ok, s').
        if \<not> ok then Inr s'
        else rbind (if ss_check_for_range_end s' then rbind (current_row s') (\<lambda>row. Inr (past_end s' row)) else Inr False) (\<lambda>stop.
          if stop then Inr (s'\<lparr>ss_iter := []\<rparr>)
          else rbind (key_load (fst (ss_cur s'))) (\<lambda>key. case key of
              None \<Rightarrow> Inr s'
            | Some k \<Rightarrow> if k_flag k = FLAG_DELETE_ROW \<or> family_mask (k_family k) then Inr s' else css_forward env family_mask s'))))"
  by pat_completeness auto
termination
proof (relation "inv_image (less_than <*lex*> less_than) (\<lambda>(env, m, s). (length (ss_iter s), length (snd (ss_cur s))))", goal_cases)
  case (2 env m s p ok s' stop key k)
  then show ?case using next_cell_progress[of env s s'] by auto
qed auto

declare css_forward.simps [simp del]

text \<open>The two loops of the constructor that look for the start row; false when the constructor returns from within.\<close>

function seek_inclusive :: "cs_scanner \<Rightarrow> (bool \<times> cs_scanner) result" where
  "seek_inclusive s =
     rbind (current_row s) (\<lambda>row.
     if row < ss_start_row s then
       rbind (skip_current s) (\<lambda>s1.
       if ss_block s1 = Some [] then Inr (False, s1\<lparr>ss_iter := []\<rparr>)
       else rbind (set_current s1) (\<lambda>s2. seek_inclusive s2))
     else Inr (True, s))"
  by pat_completeness auto
termination
proof (relation "measure (\<lambda>s. length (snd (ss_cur s)))", goal_cases)
  case (2 s row s1 s2)
  then show ?case
    by (auto simp: skip_current_def set_current_def rbind_eq_Inr_iff dest!: bs_next_length split: if_splits option.splits)
qed simp

function seek_exclusive :: "scan_env \<Rightarrow> cs_scanner \<Rightarrow> (bool \<times> cs_scanner) result" where
  "seek_exclusive env s =
     rbind (current_row s) (\<lambda>row.
     if row \<le> ss_start_row s then rbind (next_cell env s) (\<lambda>(ok, s'). if ok then seek_exclusive env s' else Inr (False, s'))
     else Inr (True, s))"
  by pat_completeness auto
termination
proof (relation "inv_image (less_than <*lex*> less_than) (\<lambda>(env, s). (length (ss_iter s), length (snd (ss_cur s))))", goal_cases)
  case (2 env s row p ok s')
  then show ?case using next_cell_progress[of env s s'] by auto
qed auto

declare seek_inclusive.simps [simp del] seek_exclusive.simps [simp del]

text \<open>The constructor, in the order of the code: the rows of the scan, the first block, the start of the range in it, the check of the
  end and of the column family.\<close>

record scan_rows =
  sr_start_row :: bytes
  sr_end_row :: bytes
  sr_row_limit_one :: bool

definition scan_end_offset :: "scan_env \<Rightarrow> bytes \<Rightarrow> index \<Rightarrow> u32 result" where
  "scan_end_offset env erow m =
     rbind (append_as_byte_string erow) (\<lambda>bs. rbind (ix_upper_bound bs m) (\<lambda>end_iter.
     Inr (case end_iter of (_ # (_, off) # _) \<Rightarrow> off | _ \<Rightarrow> se_fix_index_offset env)))"

definition seek_range :: "scan_env \<Rightarrow> (byte \<Rightarrow> bool) \<Rightarrow> bool \<Rightarrow> cs_scanner \<Rightarrow> cs_scanner result" where
  "seek_range env family_mask start_inclusive s =
     rbind (set_current s) (\<lambda>s.
     rbind (if start_inclusive then seek_inclusive s else seek_exclusive env s) (\<lambda>(ok, s).
     if \<not> ok then Inr s
     else rbind (current_row s) (\<lambda>row.
       if past_end s row then Inr (s\<lparr>ss_iter := []\<rparr>)
       else rbind (key_load (fst (ss_cur s))) (\<lambda>key. case key of
           None \<Rightarrow> Inr s
         | Some k \<Rightarrow> if k_flag k \<noteq> FLAG_DELETE_ROW \<and> \<not> family_mask (k_family k) then css_forward env family_mask s else Inr s))))"

definition css_new :: "scan_env \<Rightarrow> cell_store \<Rightarrow> (byte \<Rightarrow> bool) \<Rightarrow> scan_rows \<Rightarrow> cs_scanner result" where
  "css_new env st family_mask ctx =
     (let start_inclusive = (cs_start_row st < sr_start_row ctx);
          srow = (if start_inclusive then sr_start_row ctx else cs_start_row st);
          end_inclusive = (\<not> sr_end_row ctx < cs_end_row st);
          erow = (if end_inclusive then cs_end_row st else sr_end_row ctx);
          m = cs_index st in
      rbind (append_as_byte_string srow) (\<lambda>bs.
      rbind (if start_inclusive then ix_lower_bound bs m else ix_upper_bound bs m) (\<lambda>iter.
      let s = \<lparr>ss_iter = iter, ss_block = None, ss_cur = ([], []), ss_check_for_range_end = False, ss_end_inclusive = end_inclusive,
            ss_start_row = srow, ss_end_row = erow, ss_readahead = True, ss_start_offset = 0, ss_end_offset = 0\<rparr> in
      case iter of [] \<Rightarrow> Inr s
      | (_, off) # _ \<Rightarrow>
          rbind (if srow = erow \<or> sr_row_limit_one ctx then fetch_next_block env (s\<lparr>ss_readahead := False\<rparr>)
            else rbind (scan_end_offset env erow m) (\<lambda>stop.
              fetch_next_block_readahead env (s\<lparr>ss_start_offset := off, ss_end_offset := stop\<rparr>))) (\<lambda>(ok, s).
          if \<not> ok then Inr (s\<lparr>ss_iter := []\<rparr>) else seek_range env family_mask start_inclusive s))))"

text \<open>\<^verbatim>\<open>get\<close> returns the pointers; read as a cell they are its key and value.\<close>

definition cell_at :: "bytes \<times> bytes \<Rightarrow> cell option" where
  "cell_at kv = (case (key_load (fst kv), bs_decode_length (snd kv)) of
       (Inr (Some k), Inr (n, v)) \<Rightarrow> Some \<lparr>c_row = k_row k, c_family = k_family k, c_qualifier = k_qualifier k, c_flag = k_flag k,
         c_timestamp = k_timestamp k, c_value = take (unat n) v\<rparr>
     | _ \<Rightarrow> None)"

definition css_get :: "cs_scanner \<Rightarrow> cell option" where
  "css_get s = (if ss_iter s = [] then None else cell_at (ss_cur s))"

section \<open>Byte strings and cells in a block\<close>

lemma bs_length_run [simp]: "length d < 2 ^ 32 \<Longrightarrow> bs_length (Some (bs_of d @ r)) = Inr (length (bs_of d))"
  by (simp add: bs_length_def bs_of_def decode_vi32_ptr_run unat_len32)

lemma bs_next_run [simp]: "length d < 2 ^ 32 \<Longrightarrow> bs_next (bs_of d @ r) = Inr (bs_of d @ r, r)"
  by (simp add: bs_next_def bs_of_def decode_vi32_ptr_run unat_len32 advance_def)

lemma bs_str_run [simp]: "bs_str (bs_of d @ r) = Inr (d @ r)"
  by (simp add: bs_str_def bs_of_def decode_vi32_ptr_run)

lemma append_as_byte_string_eq: "append_as_byte_string v = Inr (bs_of v)"
  by (simp add: append_as_byte_string_def bs_of_def)

lemma bs_of_not_Nil [simp]: "bs_of d \<noteq> []"
proof
  assume "bs_of d = []"
  then have "bs_decode_length [] = Inr (of_nat (length d), d)" using bs_decode_length_run[of d "[]"] by simp
  then show False by (simp add: bs_decode_length_def decode_vi32_ptr_def decode_vi32_def decode_vint_def rbind_eq_Inr_iff need_def)
qed

definition stored_cell :: "cell \<Rightarrow> bool" where
  "stored_cell c \<longleftrightarrow> wf_cell c \<and> length (c_value c) < 2 ^ 32"

lemma length_packed: "wf_cell c \<Longrightarrow> length (packed c) < 2 ^ 32"
  by (simp add: wf_cell_def packed_def length_key_payload)

definition kv_bytes :: "cell \<Rightarrow> bytes" where
  "kv_bytes c = bs_of (packed c) @ bs_of (c_value c)"

definition block_bytes :: "cell list \<Rightarrow> bytes" where
  "block_bytes b = concat (map kv_bytes b)"

lemma block_bytes_simps [simp]: "block_bytes [] = []" "block_bytes (c # b) = bs_of (packed c) @ bs_of (c_value c) @ block_bytes b"
  "block_bytes (a @ b) = block_bytes a @ block_bytes b"
  by (simp_all add: block_bytes_def kv_bytes_def)

lemma block_bytes_Nil [simp]: "block_bytes b = [] \<longleftrightarrow> b = []"
  by (cases b) simp_all

lemma packed_row: "wf_cell c \<Longrightarrow> 0 \<in> set (packed c) \<and> cstr_at (packed c @ r) = c_row c"
  using cstr_at_append[of "c_row c"] by (simp add: packed_def key_payload_def wf_cell_def)

lemma key_load_packed:
  assumes "wf_cell c"
  shows "\<exists>k. key_load (bs_of (packed c) @ r) = Inr (Some k) \<and> k_row k = c_row c \<and> k_qualifier k = c_qualifier c \<and> k_timestamp k = c_timestamp c
    \<and> k_family k = c_family c \<and> k_flag k = c_flag c"
  using assms key_load_run[of "c_row c" "c_qualifier c" "c_flag c" "c_family c" "c_timestamp c" r] by (simp add: packed_def wf_cell_def)

lemma cell_at_stored: "stored_cell c \<Longrightarrow> cell_at (bs_of (packed c) @ r, bs_of (c_value c) @ r') = Some c"
  using key_load_packed[of c r] by (auto simp: cell_at_def stored_cell_def unat_len32)

section \<open>Writing\<close>

text \<open>What a codec promises: a block inflates to what was deflated and the header comes back with its magic; a deflated block is
  never empty, as it begins with the header.\<close>

locale lawful_codec =
  fixes deflate :: "bytes \<Rightarrow> block_header \<Rightarrow> bytes"
    and inflate :: "bytes \<Rightarrow> block_header \<Rightarrow> (bytes \<times> block_header) result"
  assumes inflate_deflate: "length m = 10 \<Longrightarrow> length input < 2 ^ 32 \<Longrightarrow>
      \<exists>h. inflate (deflate input (header_new m)) (header_new []) = Inr (input, h) \<and> magic h = m"
    and deflate_not_Nil: "length m = 10 \<Longrightarrow> deflate input (header_new m) \<noteq> []"
begin

lemma inflate_magic:
  assumes "length m = 10" "length input < 2 ^ 32"
  shows "rbind (inflate (deflate input (header_new m)) (header_new [])) (\<lambda>(data, h). if check_magic m h then Inr data else Inl e) = Inr input"
  using inflate_deflate[OF assms] assms(1) by (auto simp: check_magic_def)

end

interpretation none: lawful_codec "bc_deflate codec_none" "bc_inflate codec_none"
proof
  fix m input :: bytes
  assume m: "length m = 10"
  have "26 \<le> length (fst (deflate_none input (header_new m)))"
    using m by (simp add: deflate_none_def Let_def header_new_def header_length_def)
  then show "bc_deflate codec_none input (header_new m) \<noteq> []" by (auto simp: codec_none_def)
  assume "length input < 2 ^ 32"
  then show "\<exists>h. bc_inflate codec_none (bc_deflate codec_none input (header_new m)) (header_new []) = Inr (input, h) \<and> magic h = m"
    using inflate_deflate_none[of "header_new m" input "header_new []"] m
    by (auto simp: codec_none_def header_new_def deflate_none_def Let_def)
qed

section \<open>The file a store writes\<close>

definition zblock :: "block_codec \<Rightarrow> cell list \<Rightarrow> bytes" where
  "zblock zc b = bc_deflate zc (block_bytes b) (header_new DATA_BLOCK_MAGIC)"

definition data_bytes :: "block_codec \<Rightarrow> cell list list \<Rightarrow> bytes" where
  "data_bytes zc bss = concat (map (zblock zc) bss)"

definition last_keys :: "cell list list \<Rightarrow> bytes" where
  "last_keys bss = concat (map (\<lambda>b. bs_of (packed (last b))) bss)"

fun offsets :: "block_codec \<Rightarrow> nat \<Rightarrow> cell list list \<Rightarrow> u32 list" where
  "offsets zc o1 [] = []"
| "offsets zc o1 (b # bss) = of_nat o1 # offsets zc (o1 + length (zblock zc b)) bss"

lemma offsets_append: "offsets zc o1 (xs @ ys) = offsets zc o1 xs @ offsets zc (o1 + length (data_bytes zc xs)) ys"
  by (induction xs arbitrary: o1) (auto simp: data_bytes_def ac_simps)

lemma data_simps [simp]:
  "data_bytes zc [] = []" "data_bytes zc (b # bss) = zblock zc b @ data_bytes zc bss" "data_bytes zc (xs @ ys) = data_bytes zc xs @ data_bytes zc ys"
  "last_keys [] = []" "last_keys (b # bss) = bs_of (packed (last b)) @ last_keys bss" "last_keys (xs @ ys) = last_keys xs @ last_keys ys"
  by (simp_all add: data_bytes_def last_keys_def)

text \<open>The state after the blocks \<open>bss\<close> have been written: only the data and the two index buffers matter.\<close>

definition wrote :: "block_codec \<Rightarrow> cell list list \<Rightarrow> cell_store \<Rightarrow> bool" where
  "wrote zc bss st \<longleftrightarrow> cs_outcomes st = [] \<and> set (cs_replies st) \<subseteq> {True} \<and> unat (cs_outstanding st) \<le> length (cs_replies st) \<and> cs_file st = data_bytes zc bss \<and> cs_offset st = of_nat (length (data_bytes zc bss))
     \<and> cs_var st = last_keys bss \<and> cs_fix st = concat (map (le_split 4) (offsets zc 0 bss)) \<and> index_entries (cs_trailer st) = of_nat (length bss)
     \<and> cs_index st = [] \<and> (\<forall>b \<in> set bss. b \<noteq> [])"

lemma append_throttled_ok:
  assumes "cs_outcomes st = []" "set (cs_replies st) \<subseteq> {True}" "unat (cs_outstanding st) \<le> length (cs_replies st)"
  shows "\<exists>n rs. append_throttled z st = (True, st\<lparr>cs_file := cs_file st @ z, cs_offset := cs_offset st + of_nat (length z), cs_outstanding := n, cs_replies := rs\<rparr>)
    \<and> set rs \<subseteq> {True} \<and> unat n \<le> length rs"
proof (cases "cs_outstanding st < MAX_APPENDS_OUTSTANDING")
  case True
  then have t: "\<not> MAX_APPENDS_OUTSTANDING \<le> cs_outstanding st" by (simp add: not_le)
  have "unat (cs_outstanding st + 1) \<le> Suc (unat (cs_outstanding st))" by (simp add: unat_word_ariths)
  then show ?thesis using assms t
    by (intro exI[of _ "cs_outstanding st + 1"] exI[of _ "cs_replies st @ [True]"]) (auto simp: append_throttled_def cs_append_async_def)
next
  case False
  then have "3 \<le> unat (cs_outstanding st)" by (simp add: MAX_APPENDS_OUTSTANDING_def word_less_nat_alt)
  then obtain r where r: "cs_replies st = True # r" "set r \<subseteq> {True}" using assms(2,3) by (cases "cs_replies st") auto
  then show ?thesis using False assms
    by (intro exI[of _ "cs_outstanding st"] exI[of _ "r @ [True]"]) (auto simp: append_throttled_def cs_append_async_def wait_for_reply_def)
qed

lemma add_index_entry_run:
  assumes "wf_cell c"
  shows "add_index_entry (bs_of (packed c) @ r) off st = Inr (st\<lparr>cs_var := cs_var st @ bs_of (packed c), cs_fix := cs_fix st @ le_split 4 off,
    cs_trailer := (cs_trailer st)\<lparr>index_entries := index_entries (cs_trailer st) + 1\<rparr>\<rparr>)"
  using length_packed[OF assms] by (simp add: add_index_entry_def)

lemma block_last:
  assumes "b \<noteq> []"
  shows "drop (length (block_bytes (butlast b))) (block_bytes b) = bs_of (packed (last b)) @ bs_of (c_value (last b))"
proof -
  have "block_bytes b = block_bytes (butlast b @ [last b])" using assms by simp
  then show ?thesis by (simp only: block_bytes_simps) simp
qed

definition same_setup :: "cell_store \<Rightarrow> cell_store \<Rightarrow> bool" where
  "same_setup st st' \<longleftrightarrow> cs_start_row st' = cs_start_row st \<and> cs_end_row st' = cs_end_row st"

text \<open>Writing out the buffer.\<close>

lemma wrote_block:
  assumes w: "wrote zc bss st" and b: "b \<noteq> []" "\<forall>c \<in> set b. stored_cell c"
    and s: "cs_buffer st = block_bytes b" "cs_last_key st = length (block_bytes (butlast b))"
    and f: "\<And>st1. cs_outcomes (f st1) = cs_outcomes st1 \<and> cs_replies (f st1) = cs_replies st1 \<and> cs_file (f st1) = cs_file st1
      \<and> cs_offset (f st1) = cs_offset st1 \<and> cs_var (f st1) = cs_var st1 \<and> cs_fix (f st1) = cs_fix st1 \<and> cs_trailer (f st1) = cs_trailer st1
      \<and> cs_index (f st1) = cs_index st1 \<and> cs_outstanding (f st1) = cs_outstanding st1 \<and> same_setup st1 (f st1)"
  shows "\<exists>st'. rbind (add_index_entry (drop (cs_last_key st) (cs_buffer st)) (cs_offset st) st) (\<lambda>st.
      Inr (append_throttled (zblock zc b) (f st))) = Inr (True, st') \<and> wrote zc (bss @ [b]) st' \<and> same_setup st st'
      \<and> (\<forall>g. (\<forall>st1. cs_buffer (f st1) = g) \<longrightarrow> cs_buffer st' = g)"
proof -
  have c: "wf_cell (last b)" using b by (auto simp: stored_cell_def)
  let ?st = "f (st\<lparr>cs_var := cs_var st @ bs_of (packed (last b)), cs_fix := cs_fix st @ le_split 4 (cs_offset st),
    cs_trailer := (cs_trailer st)\<lparr>index_entries := index_entries (cs_trailer st) + 1\<rparr>\<rparr>)"
  note f' = f[of "st\<lparr>cs_var := cs_var st @ bs_of (packed (last b)), cs_fix := cs_fix st @ le_split 4 (cs_offset st),
    cs_trailer := (cs_trailer st)\<lparr>index_entries := index_entries (cs_trailer st) + 1\<rparr>\<rparr>"]
  have "drop (cs_last_key st) (cs_buffer st) = bs_of (packed (last b)) @ bs_of (c_value (last b))" using s block_last[OF b(1)] by simp
  then have a: "add_index_entry (drop (cs_last_key st) (cs_buffer st)) (cs_offset st) st
      = Inr (st\<lparr>cs_var := cs_var st @ bs_of (packed (last b)), cs_fix := cs_fix st @ le_split 4 (cs_offset st),
        cs_trailer := (cs_trailer st)\<lparr>index_entries := index_entries (cs_trailer st) + 1\<rparr>\<rparr>)"
    using add_index_entry_run[OF c] by simp
  have o: "cs_outcomes ?st = []" "set (cs_replies ?st) \<subseteq> {True}" "unat (cs_outstanding ?st) \<le> length (cs_replies ?st)" using f' w by (simp_all add: wrote_def)
  obtain n rs where t: "append_throttled (zblock zc b) ?st = (True, ?st\<lparr>cs_file := cs_file ?st @ zblock zc b,
      cs_offset := cs_offset ?st + of_nat (length (zblock zc b)), cs_outstanding := n, cs_replies := rs\<rparr>)" "set rs \<subseteq> {True}" "unat n \<le> length rs"
    using append_throttled_ok[OF o] by blast
  show ?thesis
    unfolding a using t f' w b(1)
    by (auto simp: wrote_def offsets_append same_setup_def)
qed

definition filling :: "block_codec \<Rightarrow> cell list list \<Rightarrow> cell list \<Rightarrow> cell_store \<Rightarrow> bool" where
  "filling zc bss b st \<longleftrightarrow> wrote zc bss st \<and> cs_buffer st = block_bytes b \<and> (b \<noteq> [] \<longrightarrow> cs_last_key st = length (block_bytes (butlast b)))
     \<and> (\<forall>c \<in> set b. stored_cell c)"

lemma cs_flush_ok:
  assumes "filling zc bss b st" "b \<noteq> []"
  shows "\<exists>st'. cs_flush fo zc st = Inr (True, st') \<and> filling zc (bss @ [b]) [] st' \<and> same_setup st st'"
proof -
  let ?z = "zblock zc b"
  let ?f = "\<lambda>st. st\<lparr>cs_sizes := cs_sizes st @ [(length (block_bytes b), length ?z)], cs_buffer := [],
    cs_uncompressed_blocksize := fo_blocksize fo (blocksize (cs_trailer st)) (cs_sizes st @ [(length (block_bytes b), length ?z)])\<rparr>"
  have a: "wrote zc bss st" "\<forall>c \<in> set b. stored_cell c" "cs_buffer st = block_bytes b" "cs_last_key st = length (block_bytes (butlast b))"
    using assms by (simp_all add: filling_def)
  obtain st' where r: "rbind (add_index_entry (drop (cs_last_key st) (cs_buffer st)) (cs_offset st) st) (\<lambda>st. Inr (append_throttled ?z (?f st))) = Inr (True, st')"
    and s: "wrote zc (bss @ [b]) st'" "cs_buffer st' = []" "same_setup st st'"
    using wrote_block[OF a(1) assms(2) a(2,3,4), of ?f] by (auto simp: same_setup_def)
  have "cs_flush fo zc st = rbind (add_index_entry (drop (cs_last_key st) (cs_buffer st)) (cs_offset st) st) (\<lambda>st. Inr (append_throttled ?z (?f st)))"
  proof -
    have "cs_buffer st1 = block_bytes b" if "add_index_entry k off st = Inr st1" for k off st1
      using that a(3) by (auto simp: add_index_entry_def rbind_eq_Inr_iff)
    then show ?thesis unfolding cs_flush_def by (intro rbind_cong[OF refl]) (simp add: zblock_def Let_def)
  qed
  then show ?thesis using r s by (auto simp: filling_def)
qed

lemma cs_add_ok:
  assumes "filling zc bss b st" "stored_cell c"
  shows "\<exists>st' bss' b'. cs_add fo zc (bs_of (packed c)) (bs_of (c_value c)) st = Inr (True, st') \<and> filling zc bss' b' st' \<and> b' \<noteq> []
    \<and> concat bss' @ b' = concat bss @ b @ [c] \<and> same_setup st st'"
proof -
  have add: "\<exists>st'. cs_add fo zc (bs_of (packed c)) (bs_of (c_value c)) st = Inr (True, st') \<and> filling zc bss1 (b1 @ [c]) st' \<and> same_setup st st'"
    if r: "(if unat (cs_uncompressed_blocksize st) < length (cs_buffer st) then cs_flush fo zc st else Inr (True, st)) = Inr (True, st1)"
      and s: "filling zc bss1 b1 st1" "same_setup st st1" for bss1 b1 st1
  proof -
    have n: "length (packed c) < 2 ^ 32" "length (c_value c) < 2 ^ 32" using assms(2) length_packed by (simp_all add: stored_cell_def)
    note bs = bs_length_run[OF n(1), of "[]"] bs_length_run[OF n(2), of "[]"]
    have "cs_add fo zc (bs_of (packed c)) (bs_of (c_value c)) st = Inr (True, st1\<lparr>cs_last_key := length (cs_buffer st1),
        cs_buffer := cs_buffer st1 @ bs_of (packed c) @ bs_of (c_value c),
        cs_trailer := (cs_trailer st1)\<lparr>total_entries := total_entries (cs_trailer st1) + 1\<rparr>\<rparr>)"
      using bs by (simp add: cs_add_def r rdn_def)
    then show ?thesis using s assms(2) by (auto simp: filling_def wrote_def same_setup_def)
  qed
  show ?thesis
  proof (cases "unat (cs_uncompressed_blocksize st) < length (cs_buffer st)")
    case True
    then have "b \<noteq> []" using assms(1) by (auto simp: filling_def)
    then obtain st1 where f: "cs_flush fo zc st = Inr (True, st1)" "filling zc (bss @ [b]) [] st1" "same_setup st st1"
      using cs_flush_ok[OF assms(1), of fo] by blast
    then show ?thesis using add[of st1 "bss @ [b]" "[]"] True by (intro exI[of _ "bss @ [b]"] exI[of _ "[c]"] ex_comm[THEN iffD1]) fastforce
  next
    case False
    then show ?thesis using add[of st bss b] assms(1) by (fastforce simp: same_setup_def)
  qed
qed

text \<open>A compaction adds the cells it reads from its scanner.\<close>

fun cs_add_all :: "float_ops \<Rightarrow> block_codec \<Rightarrow> cell list \<Rightarrow> cell_store \<Rightarrow> (bool \<times> cell_store) result" where
  "cs_add_all fo zc [] st = Inr (True, st)"
| "cs_add_all fo zc (c # cs) st =
     rbind (cs_add fo zc (bs_of (packed c)) (bs_of (c_value c)) st) (\<lambda>(ok, st). if ok then cs_add_all fo zc cs st else Inr (False, st))"

lemma cs_add_all_ok:
  "filling zc bss b st \<Longrightarrow> \<forall>c \<in> set cs. stored_cell c \<Longrightarrow> \<exists>st' bss' b'. cs_add_all fo zc cs st = Inr (True, st') \<and> filling zc bss' b' st'
    \<and> concat bss' @ b' = concat bss @ b @ cs \<and> same_setup st st'"
proof (induction cs arbitrary: bss b st)
  case Nil
  then show ?case by (auto simp: same_setup_def)
next
  case (Cons c cs)
  obtain st1 bss1 b1 where 1: "cs_add fo zc (bs_of (packed c)) (bs_of (c_value c)) st = Inr (True, st1)" "filling zc bss1 b1 st1"
      "concat bss1 @ b1 = concat bss @ b @ [c]" "same_setup st st1"
    using cs_add_ok[OF Cons(2)] Cons(3) by fastforce
  obtain st2 bss2 b2 where 2: "cs_add_all fo zc cs st1 = Inr (True, st2)" "filling zc bss2 b2 st2" "concat bss2 @ b2 = concat bss1 @ b1 @ cs" "same_setup st1 st2"
    using Cons(1)[OF 1(2)] Cons(3) by fastforce
  have "concat bss2 @ b2 = (concat bss1 @ b1) @ cs" using 2(3) by simp
  then have "concat bss2 @ b2 = concat bss @ b @ c # cs" unfolding 1(3) by simp
  then show ?case using 1(1,4) 2 by (intro exI[of _ st2] exI[of _ bss2] exI[of _ b2]) (auto simp: same_setup_def)
qed

lemma finalize_data_ok:
  assumes "filling zc bss b st"
  shows "\<exists>st'. finalize_data zc st = Inr (True, st') \<and> wrote zc (if b = [] then bss else bss @ [b]) st' \<and> same_setup st st'"
proof (cases "b = []")
  case True
  then show ?thesis using assms by (simp add: finalize_data_def filling_def same_setup_def)
next
  case False
  let ?z = "zblock zc b"
  let ?f = "\<lambda>st. st\<lparr>cs_sizes := cs_sizes st @ [(length (block_bytes b), length ?z)]\<rparr>"
  have a: "wrote zc bss st" "\<forall>c \<in> set b. stored_cell c" "cs_buffer st = block_bytes b" "cs_last_key st = length (block_bytes (butlast b))"
    using assms False by (simp_all add: filling_def)
  obtain st' where r: "rbind (add_index_entry (drop (cs_last_key st) (cs_buffer st)) (cs_offset st) st) (\<lambda>st. Inr (append_throttled ?z (?f st))) = Inr (True, st')"
    and s: "wrote zc (bss @ [b]) st'" "same_setup st st'"
    using wrote_block[OF a(1) False a(2,3,4), of ?f] by (auto simp: same_setup_def)
  have "finalize_data zc st = rbind (add_index_entry (drop (cs_last_key st) (cs_buffer st)) (cs_offset st) st) (\<lambda>st. Inr (append_throttled ?z (?f st)))"
  proof -
    have "cs_buffer st1 = block_bytes b" if "add_index_entry k off st = Inr st1" for k off st1
      using that a(3) by (auto simp: add_index_entry_def rbind_eq_Inr_iff)
    then show ?thesis using False a(3) unfolding finalize_data_def
      by (simp, intro rbind_cong[OF refl]) (simp add: zblock_def Let_def)
  qed
  then show ?thesis using r s False by auto
qed

section \<open>The index\<close>

definition in_order :: "cell list \<Rightarrow> bool" where
  "in_order cs \<longleftrightarrow> sorted_wrt (\<lambda>a b. packed a < packed b) cs"

text \<open>The index of some blocks: memory from the last key of each block on, with the offset of the block.\<close>

fun entries :: "cell list list \<Rightarrow> u32 list \<Rightarrow> bytes \<Rightarrow> index" where
  "entries (b # bss) (off # offs) mem = (last_keys (b # bss) @ mem, off) # entries bss offs mem"
| "entries bss offs mem = []"

definition keys_below :: "index \<Rightarrow> bytes \<Rightarrow> bool" where
  "keys_below m d \<longleftrightarrow> (\<forall>(k, v) \<in> set m. \<exists>e r. k = bs_of e @ r \<and> length e < 2 ^ 32 \<and> e < d)"

lemma ix_insert_end: "keys_below m d \<Longrightarrow> length d < 2 ^ 32 \<Longrightarrow> ix_insert (bs_of d @ r) v m = Inr (m @ [(bs_of d @ r, v)])"
proof (induction m)
  case (Cons e m)
  then obtain k v' d' r' where e: "e = (k, v')" "k = bs_of d' @ r'" "length d' < 2 ^ 32" "d' < d" by (auto simp: keys_below_def)
  moreover have "keys_below m d" using Cons(2) by (simp add: keys_below_def)
  ultimately show ?case using Cons(1,3) less_not_sym[OF e(4)] by (simp add: bs_less_eq)
qed simp

definition readable_string :: "bytes \<Rightarrow> bool" where
  "readable_string mem \<longleftrightarrow> (\<exists>n p. bs_decode_length mem = Inr (n, p) \<and> 0 \<in> set p)"

lemma record_split_row_ok: "readable_string mem \<Longrightarrow> \<exists>x. record_split_row mem st = Inr (st\<lparr>cs_split_row := x\<rparr>)"
  unfolding readable_string_def record_split_row_def Let_def by (cases st) auto

lemma readable_key: "wf_cell c \<Longrightarrow> readable_string (bs_of (packed c) @ r)"
  using packed_row[of c "[]"] by (auto simp: readable_string_def)

lemma last_blocks:
  assumes "in_order (concat (b # bss))" "\<forall>b' \<in> set (b # bss). b' \<noteq> []" "b' \<in> set bss"
  shows "packed (last b) < packed (last b')"
proof -
  have "last b' \<in> set b'" using assms(2,3) by simp
  then have "last b' \<in> set (concat bss)" using assms(3) by (auto simp del: last_in_set)
  moreover have "last b \<in> set b" using assms(2) by simp
  ultimately show ?thesis using assms(1) by (auto simp: in_order_def sorted_wrt_append)
qed

lemma index_loop_run:
  assumes "\<forall>b \<in> set bss. b \<noteq> []" "\<forall>c \<in> set (concat bss). stored_cell c" "in_order (concat bss)" "length offs = length bss"
    and "\<And>b. b \<in> set bss \<Longrightarrow> keys_below (cs_index st) (packed (last b))"
    and "\<And>j. mid = Some j \<Longrightarrow> i + length bss = Suc j \<Longrightarrow> readable_string mem"
  shows "\<exists>x. index_loop mid i (length bss) (last_keys bss @ mem) (concat (map (le_split 4) offs)) st
    = Inr (st\<lparr>cs_index := cs_index st @ entries bss offs mem, cs_split_row := x\<rparr>) \<and> (mid = None \<longrightarrow> x = cs_split_row st)"
  using assms
proof (induction bss arbitrary: offs i st)
  case Nil
  then show ?case by (intro exI[of _ "cs_split_row st"]) simp
next
  case (Cons b bss)
  obtain off offs' where o: "offs = off # offs'" using Cons.prems(4) by (cases offs) auto
  have wf: "wf_cell (last b)" using Cons.prems(1,2) by (auto simp: stored_cell_def)
  have n: "length (packed (last b)) < 2 ^ 32" using length_packed[OF wf] .
  let ?k = "bs_of (packed (last b)) @ last_keys bss @ mem"
  let ?m = "cs_index st @ [(?k, off)]"
  have ins: "ix_insert ?k off (cs_index st) = Inr ?m" using ix_insert_end[OF Cons.prems(5)[of b] n] by simp
  have r: "readable_string (last_keys bss @ mem)" if "mid = Some i"
  proof (cases bss)
    case Nil
    then show ?thesis using Cons.prems(6)[OF that] by simp
  next
    case (Cons b' bss')
    then have "wf_cell (last b')" using Cons.prems(1,2) by (auto simp: stored_cell_def)
    then show ?thesis using readable_key Cons by simp
  qed
  obtain x1 where x1: "(if mid = Some i then record_split_row (last_keys bss @ mem) (st\<lparr>cs_index := ?m\<rparr>) else Inr (st\<lparr>cs_index := ?m\<rparr>))
      = Inr (st\<lparr>cs_index := ?m, cs_split_row := x1\<rparr>)" "mid = None \<longrightarrow> x1 = cs_split_row st"
    using record_split_row_ok[OF r, of "st\<lparr>cs_index := ?m\<rparr>"] by (cases "mid = Some i"; cases st) auto
  let ?st = "st\<lparr>cs_index := ?m, cs_split_row := x1\<rparr>"
  have "\<exists>x. index_loop mid (Suc i) (length bss) (last_keys bss @ mem) (concat (map (le_split 4) offs')) ?st
      = Inr (?st\<lparr>cs_index := cs_index ?st @ entries bss offs' mem, cs_split_row := x\<rparr>) \<and> (mid = None \<longrightarrow> x = cs_split_row ?st)"
  proof (rule Cons.IH)
    show "keys_below (cs_index ?st) (packed (last b'))" if "b' \<in> set bss" for b'
      using Cons.prems(5)[of b'] last_blocks[OF Cons.prems(3,1) that] that n by (auto simp: keys_below_def)
    show "\<And>j. mid = Some j \<Longrightarrow> Suc i + length bss = Suc j \<Longrightarrow> readable_string mem" using Cons.prems(6) by simp
  qed (use Cons.prems o in \<open>auto simp: in_order_def sorted_wrt_append\<close>)
  then obtain x where x: "index_loop mid (Suc i) (length bss) (last_keys bss @ mem) (concat (map (le_split 4) offs')) ?st
      = Inr (?st\<lparr>cs_index := cs_index ?st @ entries bss offs' mem, cs_split_row := x\<rparr>)" "mid = None \<longrightarrow> x = cs_split_row ?st" by blast
  have "index_loop mid i (Suc (length bss)) ?k (concat (map (le_split 4) offs)) st
      = index_loop mid (Suc i) (length bss) (last_keys bss @ mem) (concat (map (le_split 4) offs')) ?st"
    using n ins x1(1) by (simp add: o le_join_split)
  then show ?case using x x1(2) o by (intro exI[of _ x]) simp
qed

section \<open>Finalizing\<close>

definition fix_bytes :: "block_codec \<Rightarrow> cell list list \<Rightarrow> bytes" where
  "fix_bytes zc bss = bc_deflate zc (concat (map (le_split 4) (offsets zc 0 bss))) (header_new INDEX_FIXED_BLOCK_MAGIC)"

definition var_bytes :: "block_codec \<Rightarrow> cell list list \<Rightarrow> bytes" where
  "var_bytes zc bss = bc_deflate zc (last_keys bss) (header_new INDEX_VARIABLE_BLOCK_MAGIC)"

lemma length_offsets [simp]: "length (offsets zc o1 bss) = length bss"
  by (induction bss arbitrary: o1) simp_all

lemma length_trailer_serialize [simp]: "length (trailer_serialize t) = 48"
  by (simp add: trailer_serialize_def)

text \<open>A store file with the blocks \<open>bss\<close> and a trailer that describes it.\<close>

definition store_file :: "block_codec \<Rightarrow> cell list list \<Rightarrow> trailer \<Rightarrow> bytes" where
  "store_file zc bss t = data_bytes zc bss @ fix_bytes zc bss @ var_bytes zc bss @ trailer_serialize t"

definition describes :: "block_codec \<Rightarrow> cell list list \<Rightarrow> trailer \<Rightarrow> bool" where
  "describes zc bss t \<longleftrightarrow> fix_index_offset t = of_nat (length (data_bytes zc bss))
     \<and> var_index_offset t = of_nat (length (data_bytes zc bss) + length (fix_bytes zc bss))
     \<and> index_entries t = of_nat (length bss) \<and> tr_version t = 0"

text \<open>The file and the decompressed parts stay below four gigabytes.\<close>

definition store_fits :: "block_codec \<Rightarrow> cell list list \<Rightarrow> bool" where
  "store_fits zc bss \<longleftrightarrow> length (data_bytes zc bss) + length (fix_bytes zc bss) + length (var_bytes zc bss) + 48 < 2 ^ 32
     \<and> (\<forall>b \<in> set bss. length (block_bytes b) < 2 ^ 32) \<and> length (last_keys bss) < 2 ^ 32 \<and> 4 * length bss < 2 ^ 32"

lemma finalize_index_ok:
  assumes "wrote zc bss st"
  shows "\<exists>st'. finalize_index fo zc ts st = (True, st') \<and> cs_outcomes st' = [] \<and> cs_file st' = data_bytes zc bss @ fix_bytes zc bss
    \<and> cs_offset st' = of_nat (length (data_bytes zc bss) + length (fix_bytes zc bss)) \<and> cs_var st' = cs_var st \<and> cs_fix st' = cs_fix st
    \<and> cs_index st' = [] \<and> fix_index_offset (cs_trailer st') = of_nat (length (data_bytes zc bss)) \<and> index_entries (cs_trailer st') = of_nat (length bss)
    \<and> tr_version (cs_trailer st') = 0 \<and> same_setup st st'"
  using assms by (auto simp: finalize_index_def cs_append_async_def wrote_def fix_bytes_def same_setup_def Let_def)

lemma cs_finalize_ok:
  assumes f: "filling zc bss b st" and bss': "bss' = (if b = [] then bss else bss @ [b])" and o: "in_order (concat bss')" "\<forall>c \<in> set (concat bss'). stored_cell c"
    and fits: "length bss' < 2 ^ 32" and mem: "length bss' = 1 \<or> length bss' = 2 \<Longrightarrow> readable_string mem"
  shows "\<exists>st' t. cs_finalize fo zc mem ts st = Inr (True, st') \<and> cs_file st' = store_file zc bss' t \<and> describes zc bss' t \<and> cs_trailer st' = t
    \<and> cs_index st' = entries bss' (offsets zc 0 bss') mem \<and> same_setup st st'"
proof -
  obtain st1 where 1: "finalize_data zc st = Inr (True, st1)" "wrote zc bss' st1" "same_setup st st1" using finalize_data_ok[OF f] bss' by auto
  obtain st2 where 2: "finalize_index fo zc ts st1 = (True, st2)" "cs_outcomes st2 = []" "cs_file st2 = data_bytes zc bss' @ fix_bytes zc bss'"
      "cs_offset st2 = of_nat (length (data_bytes zc bss') + length (fix_bytes zc bss'))" "cs_var st2 = cs_var st1" "cs_fix st2 = cs_fix st1" "cs_index st2 = []"
      "fix_index_offset (cs_trailer st2) = of_nat (length (data_bytes zc bss'))" "index_entries (cs_trailer st2) = of_nat (length bss')"
      "tr_version (cs_trailer st2) = 0" "same_setup st1 st2"
    using finalize_index_ok[OF 1(2)] by blast
  have n: "unat (of_nat (length bss') :: u32) = length bss'" using fits by (intro unat_of_nat_small) simp
  let ?n = "length bss'"
  let ?st3 = "st2\<lparr>cs_trailer := (cs_trailer st2)\<lparr>var_index_offset := cs_offset st2\<rparr>\<rparr>"
  have "\<exists>x. index_loop (Some (?n div 2)) 0 ?n (last_keys bss' @ mem) (concat (map (le_split 4) (offsets zc 0 bss'))) ?st3
      = Inr (?st3\<lparr>cs_index := cs_index ?st3 @ entries bss' (offsets zc 0 bss') mem, cs_split_row := x\<rparr>)
      \<and> (Some (?n div 2) = None \<longrightarrow> x = cs_split_row ?st3)"
  proof (rule index_loop_run)
    show "\<forall>b \<in> set bss'. b \<noteq> []" using 1(2) by (simp add: wrote_def)
    show "readable_string mem" if "Some (?n div 2) = Some j" "0 + ?n = Suc j" for j
    proof (rule mem)
      show "?n = 1 \<or> ?n = 2" using that by simp linarith
    qed
  qed (use o 2(7) in \<open>auto simp: keys_below_def\<close>)
  then obtain x where x: "index_loop (Some (?n div 2)) 0 ?n (last_keys bss' @ mem) (concat (map (le_split 4) (offsets zc 0 bss'))) ?st3
      = Inr (?st3\<lparr>cs_index := entries bss' (offsets zc 0 bss') mem, cs_split_row := x\<rparr>)" using 2(7) by auto
  have v: "cs_var st2 = last_keys bss'" "cs_fix st2 = concat (map (le_split 4) (offsets zc 0 bss'))" using 1(2) 2(5,6) by (simp_all add: wrote_def)
  show ?thesis using 1(1,3) 2 x n v
    by (simp add: cs_finalize_def finalize_trailer_def Let_def cs_append_sync_def cs_call_def store_file_def describes_def var_bytes_def same_setup_def)
qed

section \<open>Reading the store back\<close>

lemma decode_i16_more: "2 \<le> unat r \<Longrightarrow> decode_i16 (encode_i16 v @ rest, r) = Inr (v, rest, r - 2)"
  using i16.dec_enc [of v "encode_i16 v" r rest] by simp

lemma trailer_roundtrip: "trailer_deserialize (trailer_serialize t) = Inr t"
  using decode_i16_more[of 2 "tr_version t" "[]"]
  by (simp add: trailer_deserialize_def trailer_serialize_def trailer_size_def dbind_def dret_def decode_runs decode_i16_more)

lemma length_zblock: "lawful_codec (bc_deflate zc) (bc_inflate zc) \<Longrightarrow> zblock zc b \<noteq> []"
  unfolding zblock_def by (rule lawful_codec.deflate_not_Nil) (simp_all add: DATA_BLOCK_MAGIC_def)

lemma length_index_blocks:
  assumes "lawful_codec (bc_deflate zc) (bc_inflate zc)"
  shows "fix_bytes zc bss \<noteq> []" "var_bytes zc bss \<noteq> []"
proof -
  have "length INDEX_FIXED_BLOCK_MAGIC = 10" "length INDEX_VARIABLE_BLOCK_MAGIC = 10"
    by (simp_all add: INDEX_FIXED_BLOCK_MAGIC_def INDEX_VARIABLE_BLOCK_MAGIC_def)
  then show "fix_bytes zc bss \<noteq> []" "var_bytes zc bss \<noteq> []"
    unfolding fix_bytes_def var_bytes_def using lawful_codec.deflate_not_Nil[OF assms] by blast+
qed

text \<open>The offsets and lengths of the file, as the code computes them.\<close>

lemma store_file_extent:
  assumes l: "lawful_codec (bc_deflate zc) (bc_inflate zc)" and d: "describes zc bss t" and fits: "store_fits zc bss"
  defines "len \<equiv> of_nat (length (store_file zc bss t)) :: u64"
  shows "\<not> len < of_nat trailer_size" "unat (len - of_nat trailer_size) = length (data_bytes zc bss) + length (fix_bytes zc bss) + length (var_bytes zc bss)"
    "fix_index_offset t < var_index_offset t" "ucast (var_index_offset t) < len" "unat (fix_index_offset t) = length (data_bytes zc bss)"
    "unat (var_index_offset t) = length (data_bytes zc bss) + length (fix_bytes zc bss)"
    "unat (var_index_offset t - fix_index_offset t) = length (fix_bytes zc bss)"
    "unat (ucast (len - of_nat trailer_size - ucast (fix_index_offset t)) :: u32) = length (fix_bytes zc bss) + length (var_bytes zc bss)"
    "unat (ucast (len - of_nat trailer_size - ucast (var_index_offset t)) :: u32) = length (var_bytes zc bss)"
proof -
  let ?a = "length (data_bytes zc bss)" and ?b = "length (fix_bytes zc bss)" and ?c = "length (var_bytes zc bss)"
  have n: "length (store_file zc bss t) = ?a + ?b + ?c + 48" by (simp add: store_file_def)
  have small: "?a + ?b + ?c + 48 < 2 ^ 32" "0 < ?b" "0 < ?c" using fits length_index_blocks[OF l, of bss] by (simp_all add: store_fits_def)
  have u: "unat len = ?a + ?b + ?c + 48" unfolding len_def n using small by (intro unat_of_nat_small) simp
  have w: "unat (of_nat trailer_size :: u64) = 48" by (simp add: trailer_size_def)
  show "\<not> len < of_nat trailer_size" using u w by (simp add: word_less_nat_alt)
  show 1: "unat (len - of_nat trailer_size) = ?a + ?b + ?c" using u w by (subst unat_sub) (simp_all add: word_le_nat_alt)
  have "unat (of_nat ?a :: u32) = ?a" using small by (intro unat_of_nat_small) simp
  moreover have "unat (of_nat (?a + ?b) :: u32) = ?a + ?b" using small by (intro unat_of_nat_small) simp
  ultimately show 2: "unat (fix_index_offset t) = ?a" and 3: "unat (var_index_offset t) = ?a + ?b" using d by (auto simp: describes_def)
  show 4: "fix_index_offset t < var_index_offset t" using 2 3 small by (simp add: word_less_nat_alt)
  show "unat (var_index_offset t - fix_index_offset t) = ?b" using 2 3 4 by (subst unat_sub) (simp_all add: order_less_imp_le)
  have up: "unat (ucast x :: u64) = unat x" for x :: u32
    using unat_lt2p[of x] by (simp add: unsigned_ucast_eq take_bit_eq_mod)
  show "ucast (var_index_offset t) < len" using 3 u small by (simp add: word_less_nat_alt up)
  have "unat (len - of_nat trailer_size - ucast x) = ?a + ?b + ?c - unat x" if "unat x \<le> ?a + ?b" for x :: u32
    using that 1 by (subst unat_sub) (simp_all add: word_le_nat_alt up)
  then have down: "unat (ucast (len - of_nat trailer_size - ucast x) :: u32) = ?a + ?b + ?c - unat x" if "unat x \<le> ?a + ?b" for x :: u32
    using that small by (simp add: unsigned_ucast_eq take_bit_eq_mod)
  show "unat (ucast (len - of_nat trailer_size - ucast (fix_index_offset t)) :: u32) = ?b + ?c" using down 2 by simp
  show "unat (ucast (len - of_nat trailer_size - ucast (var_index_offset t)) :: u32) = ?c" using down 3 by simp
qed

lemma cs_open_ok:
  assumes l: "lawful_codec (bc_deflate zc) (bc_inflate zc)" and f: "cs_file st = store_file zc bss t" "cs_outcomes st = []"
    and d: "describes zc bss t" and fits: "store_fits zc bss"
  shows "cs_open srow erow st = Inr (st\<lparr>cs_start_row := (case srow of None \<Rightarrow> [] | Some r \<Rightarrow> r),
    cs_end_row := (case erow of None \<Rightarrow> END_ROW_MARKER | Some r \<Rightarrow> r), cs_file_length := of_nat (length (store_file zc bss t)), cs_trailer := t\<rparr>)"
proof -
  let ?n = "length (data_bytes zc bss) + length (fix_bytes zc bss) + length (var_bytes zc bss)"
  note e = store_file_extent[OF l d fits]
  have "drop ?n (store_file zc bss t) = trailer_serialize t" by (simp add: store_file_def)
  then have "trailer_deserialize (take trailer_size (drop (unat (of_nat (length (store_file zc bss t)) - of_nat trailer_size :: u64)) (store_file zc bss t))) = Inr t"
    unfolding e(2) by (simp add: trailer_size_def trailer_roundtrip)
  then show ?thesis using e(1,3,4) f d by (simp add: cs_open_def Let_def cs_call_def describes_def)
qed

lemma read_index_ok:
  assumes l: "lawful_codec (bc_deflate zc) (bc_inflate zc)" and f: "cs_file st = store_file zc bss t" "cs_file_length st = of_nat (length (store_file zc bss t))" "cs_trailer st = t"
    and d: "describes zc bss t" and fits: "store_fits zc bss"
  shows "read_index zc st = Inr (concat (map (le_split 4) (offsets zc 0 bss)), last_keys bss)"
proof -
  note e = store_file_extent[OF l d fits]
  have "length INDEX_FIXED_BLOCK_MAGIC = 10" "length INDEX_VARIABLE_BLOCK_MAGIC = 10"
    by (simp_all add: INDEX_FIXED_BLOCK_MAGIC_def INDEX_VARIABLE_BLOCK_MAGIC_def)
  moreover have "length (concat (map (le_split 4) (offsets zc 0 bss))) < 2 ^ 32" "length (last_keys bss) < 2 ^ 32"
    using fits by (simp_all add: store_fits_def length_concat comp_def sum_list_triv)
  ultimately have "inflate_index zc INDEX_FIXED_BLOCK_MAGIC (fix_bytes zc bss) = Inr (concat (map (le_split 4) (offsets zc 0 bss)))"
    "inflate_index zc INDEX_VARIABLE_BLOCK_MAGIC (var_bytes zc bss) = Inr (last_keys bss)"
    unfolding inflate_index_def fix_bytes_def var_bytes_def by (simp_all add: lawful_codec.inflate_magic[OF l])
  moreover have "take (length (fix_bytes zc bss) + length (var_bytes zc bss)) (drop (length (data_bytes zc bss)) (store_file zc bss t)) = fix_bytes zc bss @ var_bytes zc bss"
    by (simp add: store_file_def)
  ultimately show ?thesis using f by (simp add: read_index_def Let_def e del: length_take length_drop)
qed
section \<open>Searches in the index\<close>

lemma entries_drop: "length offs = length bss \<Longrightarrow> drop k (entries bss offs mem) = entries (drop k bss) (drop k offs) mem"
proof (induction bss offs mem arbitrary: k rule: entries.induct)
  case (1 b bss off offs mem)
  then show ?case by (cases k) simp_all
qed auto

lemma length_entries: "length offs = length bss \<Longrightarrow> length (entries bss offs mem) = length bss"
  by (induction bss offs mem rule: entries.induct) auto

definition keyed :: "cell list list \<Rightarrow> bool" where
  "keyed bss \<longleftrightarrow> (\<forall>b \<in> set bss. b \<noteq> []) \<and> (\<forall>c \<in> set (concat bss). stored_cell c) \<and> in_order (concat bss)"

lemma keyed_last: "keyed bss \<Longrightarrow> b \<in> set bss \<Longrightarrow> stored_cell (last b) \<and> wf_cell (last b) \<and> length (packed (last b)) < 2 ^ 32"
  using last_in_set[of b] length_packed[of "last b"] by (auto simp: keyed_def stored_cell_def)

lemma keyed_Cons: "keyed (b # bss) \<Longrightarrow> keyed bss"
  by (simp add: keyed_def in_order_def sorted_wrt_append)

lemma ix_upper_bound_entries:
  assumes "keyed bss" "length offs = length bss" "length d < 2 ^ 32"
  shows "ix_upper_bound (bs_of d) (entries bss offs mem)
    = Inr (drop (length (takeWhile (\<lambda>b. packed (last b) \<le> d) bss)) (entries bss offs mem))"
  using assms
proof (induction bss arbitrary: offs)
  case (Cons b bss)
  obtain off offs' where o: "offs = off # offs'" using Cons.prems(2) by (cases offs) auto
  have n: "length (packed (last b)) < 2 ^ 32" using keyed_last[OF Cons.prems(1)] by simp
  show ?case using Cons.IH[of offs'] keyed_Cons[OF Cons.prems(1)] Cons.prems(2,3) bs_less_eq[OF Cons.prems(3) n, of "[]"] by (auto simp: o not_less)
qed simp

lemma ix_lower_bound_entries:
  assumes "keyed bss" "length offs = length bss" "length d < 2 ^ 32"
  shows "ix_lower_bound (bs_of d) (entries bss offs mem)
    = Inr (drop (length (takeWhile (\<lambda>b. packed (last b) < d) bss)) (entries bss offs mem))"
  using assms
proof (induction bss arbitrary: offs)
  case (Cons b bss)
  obtain off offs' where o: "offs = off # offs'" using Cons.prems(2) by (cases offs) auto
  have n: "length (packed (last b)) < 2 ^ 32" using keyed_last[OF Cons.prems(1)] by simp
  show ?case using Cons.IH[of offs'] keyed_Cons[OF Cons.prems(1)] Cons.prems(2,3) bs_less_eq[OF n Cons.prems(3), of _ "[]"] by (auto simp: o)
qed simp

text \<open>Rows and keys compare alike.\<close>

lemma row_less: "0 \<notin> set (r :: bytes) \<Longrightarrow> 0 \<notin> set s \<Longrightarrow> (r @ 0 # x < s) = (r < s)"
proof (induction r arbitrary: s)
  case Nil
  then show ?case by (cases s) (auto simp: Nil_less_conv word_gt_0)
next
  case (Cons a r)
  then show ?case by (cases s) auto
qed

lemma packed_vs_row: "wf_cell c \<Longrightarrow> 0 \<notin> set r \<Longrightarrow> (packed c < r) = (c_row c < r)" "wf_cell c \<Longrightarrow> 0 \<notin> set r \<Longrightarrow> (packed c \<le> r) = (c_row c < r)"
proof -
  assume a: "wf_cell c" "0 \<notin> set r"
  then show "(packed c < r) = (c_row c < r)" by (simp add: packed_def key_payload_def row_less wf_cell_def)
  moreover have "packed c \<noteq> r" using packed_row[OF a(1), of "[]"] a(2) by auto
  ultimately show "(packed c \<le> r) = (c_row c < r)" by (auto simp: le_less)
qed

lemma packed_vs_row_zero: 
  assumes "wf_cell c" "0 \<notin> set r"
  shows "(packed c < r @ [0]) = (c_row c < r)" "(packed c \<le> r @ [0]) = (c_row c < r)"
proof -
  have z: "0 \<notin> set (c_row c)" using assms by (simp add: wf_cell_def)
  show "(packed c < r @ [0]) = (c_row c < r)" unfolding packed_def key_payload_def less_append_zero[OF z assms(2)] by simp
  have "(r @ [0] < packed c) = (r < c_row c \<or> r = c_row c)"
    unfolding packed_def key_payload_def less_append_zero[OF assms(2) z] by (simp add: Nil_less_conv)
  then show "(packed c \<le> r @ [0]) = (c_row c < r)" by (metis not_less less_le)
qed

text \<open>The rows of a block do not exceed the row of its last key, nor do those of the blocks before.\<close>

lemma row_mono:
  assumes "wf_cell a" "wf_cell b" "packed a < packed b"
  shows "c_row a \<le> c_row b"
proof -
  have "0 \<notin> set (c_row a)" "0 \<notin> set (c_row b)" using assms(1,2) by (simp_all add: wf_cell_def)
  from assms(3)[unfolded packed_def key_payload_def less_append_zero[OF this]] show ?thesis by (metis le_less)
qed

lemma rows_sorted: "in_order cs \<Longrightarrow> \<forall>c \<in> set cs. stored_cell c \<Longrightarrow> sorted (map c_row cs)"
  by (induction cs) (auto simp: in_order_def stored_cell_def intro: row_mono)

lemma block_rows:
  assumes "keyed bss" "b \<in> set bss" "c \<in> set b"
  shows "c_row c \<le> c_row (last b)"
proof -
  obtain xs ys where "bss = xs @ b # ys" using split_list[OF assms(2)] by blast
  then have "in_order b" "\<forall>c \<in> set b. stored_cell c" using assms(1) by (simp_all add: keyed_def in_order_def sorted_wrt_append)
  then have "sorted (map c_row b)" by (rule rows_sorted)
  then show ?thesis using assms(3) by (cases b rule: rev_cases) (auto simp: sorted_append)
qed

lemma mid_loop_ok:
  assumes "k \<le> l" "l \<le> length m" "j \<le> k"
  shows "\<exists>j' \<le> l. mid_loop i (drop k m) (drop j m) (drop l m) = Inr (drop j' m)"
  using assms
proof (induction "l - k" arbitrary: i j k)
  case 0
  then have "k = l" by simp
  then show ?case using 0 by (cases "drop l m") (auto intro: exI[of _ j])
next
  case (Suc d)
  then have k: "k < l" "k < length m" by simp_all
  then obtain e where e: "drop k m = e # drop (Suc k) m" by (metis Cons_nth_drop_Suc)
  have j: "drop j m = m ! j # drop (Suc j) m" using Suc k by (simp add: Cons_nth_drop_Suc)
  have n: "length (e # drop (Suc k) m) \<noteq> length (drop l m)" using k Suc.prems by (simp add: e[symmetric])
  show ?case
  proof (cases "i mod 2 = 0")
    case True
    then show ?thesis using Suc.hyps(1)[of "Suc k" "Suc j" "Suc i"] Suc.hyps(2) Suc.prems k n by (simp add: e j)
  next
    case False
    then show ?thesis using Suc.hyps(1)[of "Suc k" j "Suc i"] Suc.hyps(2) Suc.prems k n by (simp add: e)
  qed
qed

lemma compute_disk_usage_ok:
  assumes k: "keyed bss" "length offs = length bss" and m: "cs_index st = entries bss offs mem"
    and r: "0 \<notin> set (cs_start_row st)" "0 \<notin> set (cs_end_row st)" "cs_start_row st \<le> cs_end_row st" "length (cs_start_row st) < 2 ^ 31" "length (cs_end_row st) < 2 ^ 31"
    and c: "\<exists>c \<in> set (concat bss). cs_start_row st \<le> c_row c"
  shows "\<exists>n x. compute_disk_usage st = Inr (st\<lparr>cs_disk_usage := n, cs_split_row := x\<rparr>)"
proof -
  let ?P = "\<lambda>b. packed (last b) \<le> cs_start_row st @ [0]" and ?Q = "\<lambda>b. packed (last b) < cs_end_row st @ [0]"
  let ?k = "length (takeWhile ?P bss)" and ?l = "length (takeWhile ?Q bss)"
  have P: "?P b = (c_row (last b) < cs_start_row st)" "?Q b = (c_row (last b) < cs_end_row st)" if "b \<in> set bss" for b
    using keyed_last[OF k(1) that] packed_vs_row_zero r by blast+
  have "length (takeWhile ?P xs) \<le> length (takeWhile ?Q xs)" if "set xs \<subseteq> set bss" for xs
    using that P r(3) by (induction xs) auto
  then have kl: "?k \<le> ?l" by simp
  have l: "?l \<le> length bss" by (rule length_takeWhile_le)
  have "?k \<noteq> length bss"
  proof
    assume "?k = length bss"
    then have all: "\<forall>b \<in> set bss. c_row (last b) < cs_start_row st" using P takeWhile_eq_take[of ?P bss] by (simp add: takeWhile_eq_all_conv)
    obtain b c where b: "b \<in> set bss" "c \<in> set b" "cs_start_row st \<le> c_row c" using c by auto
    then show False using all block_rows[OF k(1) b(1,2)] by auto
  qed
  then have kn: "?k < length bss" using length_takeWhile_le[of ?P bss] by linarith
  let ?m = "entries bss offs mem"
  have lm: "length ?m = length bss" using k(2) by (rule length_entries)
  have ub: "ix_upper_bound (bs_of (cs_start_row st @ [0])) ?m = Inr (drop ?k ?m)" using k r(4) by (intro ix_upper_bound_entries) simp_all
  have lb: "ix_lower_bound (bs_of (cs_end_row st @ [0])) ?m = Inr (drop ?l ?m)" using k r(5) by (intro ix_lower_bound_entries) simp_all
  obtain k1 start rest where e: "drop ?k ?m = (k1, start) # rest" using kn lm by (cases "drop ?k ?m") auto
  obtain j where j: "mid_loop 0 (drop ?k ?m) (drop ?k ?m) (drop ?l ?m) = Inr (drop j ?m)" using mid_loop_ok[OF kl, of ?m ?k 0] l lm by auto
  have "\<exists>x. (case drop j ?m of [] \<Rightarrow> Inr st' | (k, _) # _ \<Rightarrow> record_split_row k st') = Inr (st'\<lparr>cs_split_row := x\<rparr>)" for st'
  proof (cases "j < length bss")
    case True
    then have d: "drop j bss = bss ! j # drop (Suc j) bss" "drop j offs = offs ! j # drop (Suc j) offs" using k(2) by (simp_all add: Cons_nth_drop_Suc)
    have "wf_cell (last (bss ! j))" using keyed_last[OF k(1)] True by simp
    then show ?thesis using record_split_row_ok[OF readable_key] by (simp add: entries_drop[OF k(2)] d)
  next
    case False
    then show ?thesis by (cases st') (auto simp: lm)
  qed
  then show ?thesis using ub lb e j by (simp add: compute_disk_usage_def append_as_byte_string_eq m Let_def) (metis cell_store.select_convs)
qed

lemma load_index_ok:
  assumes l: "lawful_codec (bc_deflate zc) (bc_inflate zc)" and f: "cs_file st = store_file zc bss t" "cs_file_length st = of_nat (length (store_file zc bss t))" "cs_trailer st = t" "cs_outcomes st = []"
    and d: "describes zc bss t" and fits: "store_fits zc bss" and k: "keyed bss"
    and r: "0 \<notin> set (cs_start_row st)" "0 \<notin> set (cs_end_row st)" "cs_start_row st \<le> cs_end_row st" "length (cs_start_row st) < 2 ^ 31" "length (cs_end_row st) < 2 ^ 31"
    and c: "\<exists>c \<in> set (concat bss). cs_start_row st \<le> c_row c"
  shows "\<exists>n x. load_index zc st = Inr (True, st\<lparr>cs_index := entries bss (offsets zc 0 bss) [], cs_disk_usage := n, cs_split_row := x\<rparr>)"
proof -
  have n: "unat (index_entries t) = length bss" using d fits unat_of_nat_small[of "length bss", where ?'a = 32] by (simp add: describes_def store_fits_def)
  have i: "index_loop None 0 (length bss) (last_keys bss) (concat (map (le_split 4) (offsets zc 0 bss))) (st\<lparr>cs_index := []\<rparr>)
      = Inr (st\<lparr>cs_index := entries bss (offsets zc 0 bss) []\<rparr>)"
    using k index_loop_run[of bss "offsets zc 0 bss" "st\<lparr>cs_index := []\<rparr>" None 0 "[]"] by (cases st) (auto simp: keyed_def keys_below_def)
  let ?st = "st\<lparr>cs_index := entries bss (offsets zc 0 bss) []\<rparr>"
  obtain u x where "compute_disk_usage ?st = Inr (?st\<lparr>cs_disk_usage := u, cs_split_row := x\<rparr>)"
    using compute_disk_usage_ok[OF k, of "offsets zc 0 bss" ?st "[]"] r c by auto
  then show ?thesis using f n i by (intro exI[of _ u] exI[of _ x]) (simp add: load_index_def cs_call_def read_index_ok[OF l f(1-3) d fits] caught_def)
qed

section \<open>Reading blocks\<close>

text \<open>A scanner's environment for the store with the blocks \<open>bss\<close>: blocks in the cache are the blocks of the store.\<close>

definition store_env :: "block_codec \<Rightarrow> cell list list \<Rightarrow> scan_env \<Rightarrow> bool" where
  "store_env zc bss env \<longleftrightarrow> lawful_codec (bc_deflate zc) (bc_inflate zc) \<and> keyed bss \<and> store_fits zc bss
     \<and> (\<exists>rest. se_file env = data_bytes zc bss @ rest) \<and> se_fix_index_offset env = of_nat (length (data_bytes zc bss)) \<and> se_inflate env = bc_inflate zc
     \<and> (\<forall>k < length bss. se_cache env (offsets zc 0 bss ! k) \<in> {None, Some (block_bytes (bss ! k))})"

definition extent :: "block_codec \<Rightarrow> cell list list \<Rightarrow> nat \<Rightarrow> nat" where
  "extent zc bss k = length (data_bytes zc (take k bss))"

lemma nth_offsets: "k < length bss \<Longrightarrow> offsets zc o1 bss ! k = of_nat (o1 + extent zc bss k)"
proof (induction bss arbitrary: o1 k)
  case (Cons b bss)
  then show ?case by (cases k) (simp_all add: extent_def ac_simps)
qed simp

lemma extent_Suc: "k < length bss \<Longrightarrow> extent zc bss (Suc k) = extent zc bss k + length (zblock zc (bss ! k))"
  by (simp add: extent_def take_Suc_conv_app_nth)

lemma extent_le: "extent zc bss k \<le> length (data_bytes zc bss)"
proof -
  have "data_bytes zc bss = data_bytes zc (take k bss) @ data_bytes zc (drop k bss)" by (metis append_take_drop_id data_simps(3))
  then show ?thesis by (simp add: extent_def)
qed

lemma extent_mono: "j \<le> k \<Longrightarrow> extent zc bss j \<le> extent zc bss k"
proof -
  assume "j \<le> k"
  then have "take j bss = take j (take k bss)" by (simp add: min_def)
  then show ?thesis using extent_le[of zc "take k bss" j] by (simp add: extent_def)
qed

lemma block_in_file:
  assumes "k < length bss"
  shows "take (length (zblock zc (bss ! k))) (drop (extent zc bss k) (data_bytes zc bss @ rest)) = zblock zc (bss ! k)"
proof -
  have "data_bytes zc bss = data_bytes zc (take k bss) @ zblock zc (bss ! k) @ data_bytes zc (drop (Suc k) bss)"
    using id_take_nth_drop[OF assms] by (metis data_simps(2,3))
  then show ?thesis by (simp add: extent_def)
qed


lemma extent_words:
  assumes e: "store_env zc bss env" and k: "k < length bss"
  shows "unat (offsets zc 0 bss ! k) = extent zc bss k" "unat (of_nat (length (zblock zc (bss ! k))) :: u32) = length (zblock zc (bss ! k))"
    "(of_nat (extent zc bss (Suc k)) :: u32) - of_nat (extent zc bss k) = of_nat (length (zblock zc (bss ! k)))" 
proof -
  have "extent zc bss (Suc k) < 2 ^ 32" using e extent_le[of zc bss "Suc k"] by (simp add: store_env_def store_fits_def)
  then have s: "extent zc bss k < 2 ^ 32" "length (zblock zc (bss ! k)) < 2 ^ 32" using extent_Suc[OF k, of zc] by simp_all
  show "unat (offsets zc 0 bss ! k) = extent zc bss k" using s(1) by (simp add: nth_offsets[OF k] unat_of_nat_small)
  show "unat (of_nat (length (zblock zc (bss ! k))) :: u32) = length (zblock zc (bss ! k))" using s(2) by (intro unat_of_nat_small) simp
  show "(of_nat (extent zc bss (Suc k)) :: u32) - of_nat (extent zc bss k) = of_nat (length (zblock zc (bss ! k)))" by (simp add: extent_Suc[OF k])
qed

definition ends_ahead :: "cell list list \<Rightarrow> nat \<Rightarrow> bytes \<Rightarrow> bool" where
  "ends_ahead bss k erow \<longleftrightarrow> (if Suc k < length bss then erow \<le> c_row (last (bss ! Suc k)) else take 1 erow \<noteq> [0xff])"

lemma block_extent_run:
  assumes e: "store_env zc bss env" and k: "k < length bss" and s: "ss_iter s = drop k (entries bss (offsets zc 0 bss) mem)"
  shows "block_extent env s = Inr (offsets zc 0 bss ! k, of_nat (length (zblock zc (bss ! k))), ss_check_for_range_end s \<or> ends_ahead bss k (ss_end_row s))"
proof -
  have d: "drop j bss = bss ! j # drop (Suc j) bss" "drop j (offsets zc 0 bss) = offsets zc 0 bss ! j # drop (Suc j) (offsets zc 0 bss)" if "j < length bss" for j
    using that by (simp_all add: Cons_nth_drop_Suc)
  note x = extent_words[OF e k]
  show ?thesis
  proof (cases "Suc k < length bss")
    case True
    have "wf_cell (last (bss ! Suc k))" using e True keyed_last[of bss "bss ! Suc k"] by (simp add: store_env_def)
    then show ?thesis using s True x(3) packed_row[of "last (bss ! Suc k)"]
      by (simp add: block_extent_def entries_drop d[OF k] d[OF True] ends_ahead_def nth_offsets)
  next
    case False
    then have "Suc k = length bss" using k by simp
    then have "extent zc bss (Suc k) = length (data_bytes zc bss)" by (simp add: extent_def)
    then show ?thesis using s False x(3) e k by (simp add: block_extent_def entries_drop d[OF k] ends_ahead_def nth_offsets store_env_def)
  qed
qed

lemma inflate_data_run:
  assumes e: "store_env zc bss env" and k: "k < length bss"
  shows "inflate_data env (zblock zc (bss ! k)) = Inr (block_bytes (bss ! k))"
proof -
  have "length (block_bytes (bss ! k)) < 2 ^ 32" "lawful_codec (bc_deflate zc) (bc_inflate zc)" using e k by (simp_all add: store_env_def store_fits_def)
  moreover have "length DATA_BLOCK_MAGIC = 10" by (simp add: DATA_BLOCK_MAGIC_def)
  ultimately show ?thesis using e unfolding inflate_data_def zblock_def by (simp add: lawful_codec.inflate_magic store_env_def)
qed

lemma fetch_run:
  assumes e: "store_env zc bss env" and k: "k < length bss" and s: "ss_iter (leave_block s) = drop k (entries bss (offsets zc 0 bss) mem)" "ss_block (leave_block s) = None"
    and r: "ss_readahead s \<Longrightarrow> ss_start_offset s = offsets zc 0 bss ! k \<and> extent zc bss (Suc k) \<le> unat (ss_end_offset s) + se_slack env"
  shows "fetch env s = Inr (True, (leave_block s)\<lparr>ss_check_for_range_end := ss_check_for_range_end s \<or> ends_ahead bss k (ss_end_row s),
    ss_block := Some (block_bytes (bss ! k)), ss_start_offset := (if ss_readahead s then of_nat (extent zc bss (Suc k)) else ss_start_offset s)\<rparr>)"
proof -
  note x = extent_words[OF e k]
  let ?s = "leave_block s"
  have f: "ss_check_for_range_end ?s = ss_check_for_range_end s" "ss_end_row ?s = ss_end_row s" "ss_readahead ?s = ss_readahead s"
    "ss_start_offset ?s = ss_start_offset s" "ss_end_offset ?s = ss_end_offset s" by (simp_all add: leave_block_def)
  have ne: "ss_iter ?s \<noteq> []" using s(1) k length_entries[of "offsets zc 0 bss" bss mem] by simp
  obtain rest where rest: "se_file env = data_bytes zc bss @ rest" using e by (auto simp: store_env_def)
  have b: "take (length (zblock zc (bss ! k))) (drop (extent zc bss k) (se_file env)) = zblock zc (bss ! k)" using block_in_file[OF k] rest by simp
  have ex: "block_extent env ?s = Inr (offsets zc 0 bss ! k, of_nat (length (zblock zc (bss ! k))), ss_check_for_range_end s \<or> ends_ahead bss k (ss_end_row s))"
    using block_extent_run[OF e k s(1)] f by simp
  note inf = inflate_data_run[OF e k]
  show ?thesis
  proof (cases "ss_readahead s")
    case True
    have m: "min (length (zblock zc (bss ! k))) (unat (ss_end_offset s) + se_slack env - extent zc bss k) = length (zblock zc (bss ! k))"
      using r[OF True] extent_Suc[OF k, of zc] by linarith
    have "offsets zc 0 bss ! k + of_nat (length (zblock zc (bss ! k))) = of_nat (extent zc bss (Suc k))" using x(3) by (simp add: nth_offsets[OF k] extent_Suc[OF k])
    then show ?thesis using True r[OF True] s(2) ne ex x m b inf f
      by (simp add: fetch_def fetch_next_block_readahead_def Let_def del: length_take length_drop)
  next
    case False
    have "se_cache env (offsets zc 0 bss ! k) = None \<or> se_cache env (offsets zc 0 bss ! k) = Some (block_bytes (bss ! k))" using e k by (auto simp: store_env_def)
    then show ?thesis using False s(2) ne ex x b inf f
      by (auto simp: fetch_def fetch_next_block_def Let_def caught_def simp del: length_take length_drop)
  qed
qed

section \<open>Moving through the cells\<close>

text \<open>The scanner is at the first of the cells \<open>cs\<close>, in the block \<open>k\<close>; when the flag is not set the block holds no cell behind the end.\<close>

definition scanning :: "block_codec \<Rightarrow> cell list list \<Rightarrow> bytes \<Rightarrow> nat \<Rightarrow> cs_scanner \<Rightarrow> cell list \<Rightarrow> bool" where
  "scanning zc bss mem k s cs \<longleftrightarrow> k < length bss \<and> ss_iter s = drop k (entries bss (offsets zc 0 bss) mem)
     \<and> (\<exists>pre c post. bss ! k = pre @ c # post \<and> cs = c # post @ concat (drop (Suc k) bss) \<and> ss_block s = Some (block_bytes (c # post))
          \<and> ss_cur s = (block_bytes (c # post), bs_of (c_value c) @ block_bytes post))
     \<and> (\<not> ss_check_for_range_end s \<longrightarrow> (\<forall>c \<in> set (bss ! k). \<not> past_end s (c_row c)))
     \<and> (ss_readahead s \<longrightarrow> ss_start_offset s = of_nat (extent zc bss (Suc k)))"

definition at_cells :: "block_codec \<Rightarrow> cell list list \<Rightarrow> bytes \<Rightarrow> cs_scanner \<Rightarrow> cell list \<Rightarrow> bool" where
  "at_cells zc bss mem s cs \<longleftrightarrow> (\<exists>k. scanning zc bss mem k s cs)"

text \<open>The end of the data the reader delivers, and the rows that begin like the end marker.\<close>

definition covers :: "block_codec \<Rightarrow> cell list list \<Rightarrow> scan_env \<Rightarrow> cs_scanner \<Rightarrow> bool" where
  "covers zc bss env s \<longleftrightarrow>
     (ss_readahead s \<longrightarrow> (\<forall>k. Suc k < length bss \<longrightarrow> \<not> past_end s (c_row (last (bss ! k))) \<longrightarrow> extent zc bss (Suc (Suc k)) \<le> unat (ss_end_offset s) + se_slack env))
     \<and> (take 1 (ss_end_row s) = [0xff] \<longrightarrow> (\<forall>c \<in> set (concat bss). \<not> past_end s (c_row c)))"

definition settings :: "cs_scanner \<Rightarrow> cs_scanner \<Rightarrow> bool" where
  "settings s s' \<longleftrightarrow> ss_end_inclusive s' = ss_end_inclusive s \<and> ss_start_row s' = ss_start_row s \<and> ss_end_row s' = ss_end_row s \<and> ss_readahead s' = ss_readahead s
     \<and> ss_end_offset s' = ss_end_offset s"

lemma settings_same: "settings s s' \<Longrightarrow> past_end s' = past_end s" "settings s s' \<Longrightarrow> covers zc bss env s' = covers zc bss env s"
  by (auto simp: settings_def past_end_def covers_def fun_eq_iff)

lemma settings_trans: "settings s s' \<Longrightarrow> settings s' s'' \<Longrightarrow> settings s s''"
  by (simp add: settings_def)

lemma stored_nth:
  assumes "store_env zc bss env" "k < length bss" "c \<in> set (bss ! k)"
  shows "stored_cell c"
proof -
  have "c \<in> set (concat bss)" using assms(2,3) by auto
  then show ?thesis using assms(1) unfolding store_env_def keyed_def by blast
qed

lemma at_cells_cell:
  assumes "store_env zc bss env" "at_cells zc bss mem s (c # cs)"
  shows "stored_cell c" "current_row s = Inr (c_row c)" "cell_at (ss_cur s) = Some c" "ss_iter s \<noteq> []"
    "\<exists>k. key_load (fst (ss_cur s)) = Inr (Some k) \<and> k_family k = c_family c \<and> k_flag k = c_flag c"
    "\<not> ss_check_for_range_end s \<Longrightarrow> \<not> past_end s (c_row c)"
proof -
  obtain k pre post where k: "k < length bss" "bss ! k = pre @ c # post" "ss_cur s = (block_bytes (c # post), bs_of (c_value c) @ block_bytes post)"
      "ss_iter s = drop k (entries bss (offsets zc 0 bss) mem)" "\<not> ss_check_for_range_end s \<longrightarrow> (\<forall>c \<in> set (bss ! k). \<not> past_end s (c_row c))"
    using assms(2) by (auto simp: at_cells_def scanning_def)
  show st: "stored_cell c" using stored_nth[OF assms(1) k(1)] k(2) by simp
  have wf: "wf_cell c" using st by (simp add: stored_cell_def)
  show "current_row s = Inr (c_row c)" using k(3) packed_row[OF wf, of "bs_of (c_value c) @ block_bytes post"] by (simp add: current_row_def)
  show "cell_at (ss_cur s) = Some c" using k(3) cell_at_stored[OF st] by simp
  show "ss_iter s \<noteq> []" using k(1,4) length_entries[of "offsets zc 0 bss" bss mem] by simp
  show "\<exists>k. key_load (fst (ss_cur s)) = Inr (Some k) \<and> k_family k = c_family c \<and> k_flag k = c_flag c"
    using key_load_packed[OF wf, of "bs_of (c_value c) @ block_bytes post"] k(3) by auto
  show "\<not> ss_check_for_range_end s \<Longrightarrow> \<not> past_end s (c_row c)" using k(2,5) by auto
qed

lemma last_rows:
  assumes ky: "keyed bss" and "j < k" "k < length bss"
  shows "c_row (last (bss ! j)) \<le> c_row (last (bss ! k))"
proof -
  have d: "drop j bss = bss ! j # drop (Suc j) bss" using assms by (simp add: Cons_nth_drop_Suc)
  have "concat bss = concat (take j bss) @ concat (drop j bss)" by (metis append_take_drop_id concat_append)
  then have "in_order (concat (drop j bss))" using ky by (simp add: keyed_def in_order_def sorted_wrt_append)
  moreover have "\<forall>b \<in> set (drop j bss). b \<noteq> []" using ky by (auto simp: keyed_def dest: in_set_dropD)
  moreover have "bss ! k \<in> set (drop (Suc j) bss)" using assms nth_mem[of "k - Suc j" "drop (Suc j) bss"] by simp
  ultimately have "packed (last (bss ! j)) < packed (last (bss ! k))" using last_blocks d by metis
  then show ?thesis using row_mono keyed_last[OF ky] assms by simp
qed

text \<open>A block just fetched.\<close>

lemma set_current_run:
  assumes "ss_block s = Some (block_bytes (c # post))" "stored_cell c"
  shows "set_current s = Inr (s\<lparr>ss_cur := (block_bytes (c # post), bs_of (c_value c) @ block_bytes post)\<rparr>)"
  using assms length_packed[of c] by (simp add: set_current_def stored_cell_def)

lemma ends_ahead_block:
  assumes e: "store_env zc bss env" and k: "k < length bss" and r: "covers zc bss env s" and n: "\<not> ends_ahead bss k (ss_end_row s)" and c: "c \<in> set (bss ! k)"
  shows "\<not> past_end s (c_row c)"
proof (cases "Suc k < length bss")
  case True
  have ky: "keyed bss" using e by (simp add: store_env_def)
  have "c_row (last (bss ! k)) \<le> c_row (last (bss ! Suc k))" using last_rows[OF ky _ True] by simp
  then have "c_row c < ss_end_row s" using block_rows[OF ky _ c] k n True by (simp add: ends_ahead_def) 
  then show ?thesis by (auto simp: past_end_def)
next
  case False
  then show ?thesis using r n c k by (auto simp: ends_ahead_def covers_def)
qed

lemma fetched:
  assumes e: "store_env zc bss env" and k: "k < length bss" and s: "ss_iter (leave_block s) = drop k (entries bss (offsets zc 0 bss) mem)" "ss_block (leave_block s) = None"
    and r: "ss_readahead s \<Longrightarrow> ss_start_offset s = offsets zc 0 bss ! k \<and> extent zc bss (Suc k) \<le> unat (ss_end_offset s) + se_slack env"
    and v: "covers zc bss env s"
  shows "\<exists>s' s''. fetch env s = Inr (True, s') \<and> set_current s' = Inr s'' \<and> scanning zc bss mem k s'' (concat (drop k bss)) \<and> settings s s''"
proof -
  obtain c post where b: "bss ! k = c # post" using e k by (cases "bss ! k") (auto simp: store_env_def keyed_def dest: nth_mem)
  have st: "stored_cell c" using stored_nth[OF e k] b by simp
  let ?s = "(leave_block s)\<lparr>ss_check_for_range_end := ss_check_for_range_end s \<or> ends_ahead bss k (ss_end_row s),
    ss_block := Some (block_bytes (bss ! k)), ss_start_offset := (if ss_readahead s then of_nat (extent zc bss (Suc k)) else ss_start_offset s)\<rparr>"
  have f: "fetch env s = Inr (True, ?s)" using fetch_run[OF e k s r] by simp
  have p: "past_end (leave_block s) = past_end s" by (simp add: fun_eq_iff past_end_def leave_block_def)
  have c: "set_current ?s = Inr (?s\<lparr>ss_cur := (block_bytes (c # post), bs_of (c_value c) @ block_bytes post)\<rparr>)"
    using b by (intro set_current_run[OF _ st]) simp
  have "drop k bss = (c # post) # drop (Suc k) bss" using k b by (metis Cons_nth_drop_Suc)
  then have "scanning zc bss mem k (?s\<lparr>ss_cur := (block_bytes (c # post), bs_of (c_value c) @ block_bytes post)\<rparr>) (concat (drop k bss))"
    using k s b ends_ahead_block[OF e k v] by (auto simp: scanning_def past_end_def leave_block_def)
  moreover have "settings s (?s\<lparr>ss_cur := (block_bytes (c # post), bs_of (c_value c) @ block_bytes post)\<rparr>)" by (simp add: settings_def leave_block_def)
  ultimately show ?thesis using f c by blast
qed

lemma next_cell_run:
  assumes e: "store_env zc bss env" and a: "at_cells zc bss mem s (c # cs)" and v: "covers zc bss env s" and p: "ss_readahead s \<Longrightarrow> \<not> past_end s (c_row c)"
  shows "(case cs of [] \<Rightarrow> \<exists>s'. next_cell env s = Inr (False, s') \<and> ss_iter s' = []
      | c' # cs' \<Rightarrow> \<exists>s'. next_cell env s = Inr (True, s') \<and> at_cells zc bss mem s' cs \<and> settings s s')"
proof -
  obtain k pre post where k: "k < length bss" "bss ! k = pre @ c # post" "cs = post @ concat (drop (Suc k) bss)"
      "ss_cur s = (block_bytes (c # post), bs_of (c_value c) @ block_bytes post)" "ss_iter s = drop k (entries bss (offsets zc 0 bss) mem)"
      "ss_block s = Some (block_bytes (c # post))" "\<not> ss_check_for_range_end s \<longrightarrow> (\<forall>c \<in> set (bss ! k). \<not> past_end s (c_row c))"
      "ss_readahead s \<longrightarrow> ss_start_offset s = of_nat (extent zc bss (Suc k))"
    using a by (auto simp: at_cells_def scanning_def)
  have st: "stored_cell c" using at_cells_cell(1)[OF e a] .
  have sk: "skip_current s = Inr (s\<lparr>ss_block := Some (block_bytes post)\<rparr>)" using k(4,6) st by (simp add: skip_current_def stored_cell_def)
  show ?thesis
  proof (cases post)
    case (Cons c' post')
    have st': "stored_cell c'" using stored_nth[OF e k(1)] k(2) Cons by simp
    let ?s = "s\<lparr>ss_block := Some (block_bytes post), ss_cur := (block_bytes (c' # post'), bs_of (c_value c') @ block_bytes post')\<rparr>"
    have "set_current (s\<lparr>ss_block := Some (block_bytes post)\<rparr>) = Inr ?s" using Cons set_current_run[OF _ st', of "s\<lparr>ss_block := Some (block_bytes post)\<rparr>"] by simp
    then have "next_cell env s = Inr (True, ?s)" using sk Cons by (simp add: next_cell_def)
    moreover have "bss ! k = (pre @ [c]) @ c' # post'" using k(2) Cons by simp
    then have "scanning zc bss mem k ?s cs" unfolding scanning_def using k Cons by (auto simp: past_end_def)
    ultimately show ?thesis using Cons k(3) by (auto simp: at_cells_def settings_def)
  next
    case Nil
    let ?s = "s\<lparr>ss_block := Some []\<rparr>"
    have nx: "next_cell env s = rbind (fetch env ?s) (\<lambda>(ok, s). if ok then rbind (set_current s) (\<lambda>s. Inr (True, s)) else Inr (False, s))"
      using sk Nil by (simp add: next_cell_def)
    have lv: "leave_block ?s = s\<lparr>ss_block := None, ss_iter := drop (Suc k) (entries bss (offsets zc 0 bss) mem)\<rparr>"
      using k(5) by (simp add: leave_block_def tl_drop drop_Suc)
    show ?thesis
    proof (cases "Suc k < length bss")
      case True
      have l: "c = last (bss ! k)" using k(2) Nil by simp
      have r: "ss_start_offset ?s = offsets zc 0 bss ! Suc k \<and> extent zc bss (Suc (Suc k)) \<le> unat (ss_end_offset ?s) + se_slack env" if "ss_readahead ?s"
        using that k(8) v p l True by (simp add: covers_def nth_offsets)
      have "covers zc bss env ?s" using v settings_same(2)[of s ?s] by (simp add: settings_def)
      then obtain s' s'' where f: "fetch env ?s = Inr (True, s')" "set_current s' = Inr s''" "scanning zc bss mem (Suc k) s'' (concat (drop (Suc k) bss))" "settings ?s s''"
        using fetched[where mem = mem, OF e True _ _ r] lv by auto
      have n: "concat (drop (Suc k) bss) \<noteq> []" using f(3) by (auto simp: scanning_def simp del: concat_eq_Nil_conv)
      have "next_cell env s = Inr (True, s'') \<and> at_cells zc bss mem s'' cs \<and> settings s s''" using nx f k(3) Nil by (auto simp: at_cells_def settings_def)
      moreover have "cs \<noteq> []" using n k(3) Nil by simp
      ultimately show ?thesis by (cases cs) auto
    next
      case False
      then have "fetch env ?s = Inr (False, leave_block ?s)" using lv length_entries[of "offsets zc 0 bss" bss mem]
        by (simp add: fetch_def fetch_next_block_def fetch_next_block_readahead_def)
      then show ?thesis using nx lv False k(3) Nil length_entries[of "offsets zc 0 bss" bss mem] by simp
    qed
  qed
qed

section \<open>Scans\<close>

definition selected :: "(byte \<Rightarrow> bool) \<Rightarrow> cell \<Rightarrow> bool" where
  "selected family_mask c \<longleftrightarrow> c_flag c = FLAG_DELETE_ROW \<or> family_mask (c_family c)"

lemma css_forward_run:
  assumes e: "store_env zc bss env"
  shows "at_cells zc bss mem s (c # cs) \<Longrightarrow> covers zc bss env s \<Longrightarrow> \<not> past_end s (c_row c) \<Longrightarrow>
    \<exists>s'. css_forward env m s = Inr s' \<and>
      (case dropWhile (\<lambda>c. \<not> past_end s (c_row c) \<and> \<not> selected m c) cs of [] \<Rightarrow> ss_iter s' = []
       | c' # cs' \<Rightarrow> if past_end s (c_row c') then ss_iter s' = [] else at_cells zc bss mem s' (c' # cs') \<and> settings s s')"
proof (induction cs arbitrary: s c)
  case Nil
  then obtain s' where "next_cell env s = Inr (False, s')" "ss_iter s' = []" using next_cell_run[OF e Nil] by auto
  then show ?case using at_cells_cell(4)[OF e Nil(1)] by (simp add: css_forward.simps)
next
  case (Cons c' cs)
  obtain s1 where n: "next_cell env s = Inr (True, s1)" "at_cells zc bss mem s1 (c' # cs)" "settings s s1" using next_cell_run[OF e Cons.prems] by auto
  note a = at_cells_cell[OF e n(2)] and i = at_cells_cell(4)[OF e Cons.prems(1)]
  obtain k where k: "key_load (fst (ss_cur s1)) = Inr (Some k)" "k_family k = c_family c'" "k_flag k = c_flag c'" using a(5) by blast
  have p: "past_end s1 = past_end s" using settings_same(1)[OF n(3)] .
  have chk: "(if ss_check_for_range_end s1 then rbind (current_row s1) (\<lambda>row. Inr (past_end s1 row)) else Inr False) = Inr (past_end s (c_row c'))"
    using a(2,6) p by auto
  have f: "css_forward env m s = (if past_end s (c_row c') then Inr (s1\<lparr>ss_iter := []\<rparr>) else if selected m c' then Inr s1 else css_forward env m s1)"
    unfolding css_forward.simps[of env m s] n(1) using i chk k by (simp add: selected_def)
  show ?case
  proof (cases "past_end s (c_row c') \<or> selected m c'")
    case True
    then show ?thesis using f n by auto
  next
    case False
    have "\<exists>s'. css_forward env m s1 = Inr s' \<and>
      (case dropWhile (\<lambda>c. \<not> past_end s1 (c_row c) \<and> \<not> selected m c) cs of [] \<Rightarrow> ss_iter s' = []
       | c' # cs' \<Rightarrow> if past_end s1 (c_row c') then ss_iter s' = [] else at_cells zc bss mem s' (c' # cs') \<and> settings s1 s')"
      using False p Cons.prems(2) settings_same(2)[OF n(3)] by (intro Cons.IH[OF n(2)]) auto
    then obtain s' where "css_forward env m s1 = Inr s'" "(case dropWhile (\<lambda>c. \<not> past_end s (c_row c) \<and> \<not> selected m c) cs of [] \<Rightarrow> ss_iter s' = []
       | c' # cs' \<Rightarrow> if past_end s (c_row c') then ss_iter s' = [] else at_cells zc bss mem s' (c' # cs') \<and> settings s1 s')" unfolding p by blast
    then show ?thesis using f False settings_trans[OF n(3), of s']
      by (cases "dropWhile (\<lambda>c. \<not> past_end s (c_row c) \<and> \<not> selected m c) cs") (auto simp del: dropWhile_eq_Nil_conv)
  qed
qed

text \<open>A client takes the current cell and moves on.\<close>

fun css_collect :: "scan_env \<Rightarrow> (byte \<Rightarrow> bool) \<Rightarrow> nat \<Rightarrow> cs_scanner \<Rightarrow> cell list result" where
  "css_collect env m 0 s = Inr []"
| "css_collect env m (Suc n) s =
     (case css_get s of None \<Rightarrow> Inr []
      | Some c \<Rightarrow> rbind (css_forward env m s) (\<lambda>s. rbind (css_collect env m n s) (\<lambda>cs. Inr (c # cs))))"

lemma dropWhile_until:
  "filter (selected m) (takeWhile (\<lambda>c. \<not> past_end s (c_row c)) cs) =
    (case dropWhile (\<lambda>c. \<not> past_end s (c_row c) \<and> \<not> selected m c) cs of [] \<Rightarrow> []
     | c' # cs' \<Rightarrow> if past_end s (c_row c') then [] else c' # filter (selected m) (takeWhile (\<lambda>c. \<not> past_end s (c_row c)) cs'))"
  by (induction cs) auto

lemma css_collect_run:
  assumes e: "store_env zc bss env"
  shows "at_cells zc bss mem s (c # cs) \<Longrightarrow> covers zc bss env s \<Longrightarrow> \<not> past_end s (c_row c) \<Longrightarrow>
    css_collect env m n s = Inr (take n (c # filter (selected m) (takeWhile (\<lambda>c. \<not> past_end s (c_row c)) cs)))"
proof (induction n arbitrary: s c cs)
  case (Suc n)
  note a = at_cells_cell[OF e Suc.prems(1)]
  have g: "css_get s = Some c" using a(3,4) by (simp add: css_get_def)
  let ?d = "dropWhile (\<lambda>c. \<not> past_end s (c_row c) \<and> \<not> selected m c) cs"
  obtain s' where s': "css_forward env m s = Inr s'" "case ?d of [] \<Rightarrow> ss_iter s' = []
       | c' # cs' \<Rightarrow> if past_end s (c_row c') then ss_iter s' = [] else at_cells zc bss mem s' (c' # cs') \<and> settings s s'"
    using css_forward_run[OF e Suc.prems] by blast
  have "css_collect env m n s' = Inr (take n (filter (selected m) (takeWhile (\<lambda>c. \<not> past_end s (c_row c)) cs)))"
  proof (cases "?d = [] \<or> past_end s (c_row (hd ?d))")
    case True
    then have "ss_iter s' = []" using s'(2) by (cases ?d) auto
    then have "css_collect env m n s' = Inr []" by (cases n) (simp_all add: css_get_def)
    then show ?thesis using True by (cases ?d) (simp_all add: dropWhile_until del: dropWhile_eq_Nil_conv)
  next
    case False
    then obtain c' cs' where d: "?d = c' # cs'" "\<not> past_end s (c_row c')" by (cases ?d) auto
    then have s: "at_cells zc bss mem s' (c' # cs')" "settings s s'" using s'(2) by auto
    then have "css_collect env m n s' = Inr (take n (c' # filter (selected m) (takeWhile (\<lambda>c. \<not> past_end s (c_row c)) cs')))"
      using Suc.IH[OF s(1)] Suc.prems(2) settings_same[OF s(2)] d(2) by simp
    then show ?thesis using d by (subst dropWhile_until) simp_all
  qed
  then show ?case using g s'(1) by simp
qed simp

lemma seek_inclusive_run:
  assumes e: "store_env zc bss env"
  shows "bss ! k = pre @ c # post \<Longrightarrow> scanning zc bss mem k s (c # post @ concat (drop (Suc k) bss)) \<Longrightarrow> ss_start_row s \<le> c_row (last (c # post)) \<Longrightarrow>
    \<exists>s'. seek_inclusive s = Inr (True, s') \<and> scanning zc bss mem k s' (dropWhile (\<lambda>c. c_row c < ss_start_row s) (c # post @ concat (drop (Suc k) bss))) \<and> settings s s'"
proof (induction post arbitrary: pre c s)
  case Nil
  then have "at_cells zc bss mem s (c # concat (drop (Suc k) bss))" by (auto simp: at_cells_def)
  then have "current_row s = Inr (c_row c)" by (rule at_cells_cell(2)[OF e])
  then show ?case using Nil by (auto simp: seek_inclusive.simps[of s] settings_def)
next
  case (Cons c' post)
  have a: "at_cells zc bss mem s (c # (c' # post) @ concat (drop (Suc k) bss))" using Cons.prems(2) by (auto simp: at_cells_def)
  note cr = at_cells_cell(2)[OF e a]
  show ?case
  proof (cases "c_row c < ss_start_row s")
    case False
    then show ?thesis using cr Cons.prems(2) by (auto simp: seek_inclusive.simps[of s] settings_def)
  next
    case True
    have k: "k < length bss" "ss_cur s = (block_bytes (c # c' # post), bs_of (c_value c) @ block_bytes (c' # post))" "ss_block s \<noteq> None"
      using Cons.prems(2) by (auto simp: scanning_def)
    have st: "stored_cell c" "stored_cell c'" using stored_nth[OF e k(1)] Cons.prems(1) by simp_all
    let ?s1 = "s\<lparr>ss_block := Some (block_bytes (c' # post))\<rparr>"
    let ?s2 = "?s1\<lparr>ss_cur := (block_bytes (c' # post), bs_of (c_value c') @ block_bytes post)\<rparr>"
    have "skip_current s = Inr ?s1" using k st(1) by (simp add: skip_current_def stored_cell_def)
    moreover have "set_current ?s1 = Inr ?s2" by (rule set_current_run[OF _ st(2)]) simp
    ultimately have f: "seek_inclusive s = seek_inclusive ?s2" using True cr by (simp add: seek_inclusive.simps[of s])
    have b: "bss ! k = (pre @ [c]) @ c' # post" using Cons.prems(1) by simp
    then have "scanning zc bss mem k ?s2 (c' # post @ concat (drop (Suc k) bss))"
      using Cons.prems(2) unfolding scanning_def by (auto simp: past_end_def)
    then have "\<exists>s'. seek_inclusive ?s2 = Inr (True, s') \<and> scanning zc bss mem k s' (dropWhile (\<lambda>c. c_row c < ss_start_row ?s2) (c' # post @ concat (drop (Suc k) bss))) \<and> settings ?s2 s'"
      using Cons.prems(3) by (intro Cons.IH[OF b]) auto
    then show ?thesis using f True by (auto simp: settings_def)
  qed
qed

lemma seek_exclusive_run:
  assumes e: "store_env zc bss env"
  shows "at_cells zc bss mem s (c # cs) \<Longrightarrow> covers zc bss env s \<Longrightarrow> (ss_readahead s \<Longrightarrow> ss_start_row s < ss_end_row s) \<Longrightarrow>
    \<exists>s'. case dropWhile (\<lambda>c. c_row c \<le> ss_start_row s) (c # cs) of [] \<Rightarrow> seek_exclusive env s = Inr (False, s') \<and> ss_iter s' = []
       | c' # cs' \<Rightarrow> seek_exclusive env s = Inr (True, s') \<and> at_cells zc bss mem s' (c' # cs') \<and> settings s s'"
proof (induction cs arbitrary: s c)
  case Nil
  note cr = at_cells_cell(2)[OF e Nil(1)]
  have "ss_readahead s \<Longrightarrow> c_row c \<le> ss_start_row s \<Longrightarrow> \<not> past_end s (c_row c)" using Nil(3) by (auto simp: past_end_def)
  then show ?case using next_cell_run[OF e Nil(1,2)] cr Nil(1) by (auto simp: seek_exclusive.simps[of env s] settings_def)
next
  case (Cons c' cs)
  note cr = at_cells_cell(2)[OF e Cons.prems(1)]
  show ?case
  proof (cases "c_row c \<le> ss_start_row s")
    case True
    then have "ss_readahead s \<Longrightarrow> \<not> past_end s (c_row c)" using Cons.prems(3) by (auto simp: past_end_def)
    then obtain s1 where n: "next_cell env s = Inr (True, s1)" "at_cells zc bss mem s1 (c' # cs)" "settings s s1" using next_cell_run[OF e Cons.prems(1,2)] by auto
    then have f: "seek_exclusive env s = seek_exclusive env s1" using True cr by (simp add: seek_exclusive.simps[of env s])
    have v: "covers zc bss env s1" "ss_start_row s1 = ss_start_row s" "ss_readahead s1 \<Longrightarrow> ss_start_row s1 < ss_end_row s1"
      using Cons.prems(2,3) settings_same(2)[OF n(3)] n(3) by (auto simp: settings_def)
    obtain s' where "case dropWhile (\<lambda>c. c_row c \<le> ss_start_row s1) (c' # cs) of [] \<Rightarrow> seek_exclusive env s1 = Inr (False, s') \<and> ss_iter s' = []
       | c' # cs' \<Rightarrow> seek_exclusive env s1 = Inr (True, s') \<and> at_cells zc bss mem s' (c' # cs') \<and> settings s1 s'"
      using Cons.IH[OF n(2) v(1,3)] by blast
    then show ?thesis using f True v(2) settings_trans[OF n(3), of s']
      by (intro exI[of _ s'], cases "dropWhile (\<lambda>c. c_row c \<le> ss_start_row s) (c' # cs)") (simp_all del: dropWhile_eq_Nil_conv dropWhile.simps(2) add: dropWhile.simps(2)[of _ c])
  next
    case False
    then show ?thesis using cr Cons.prems(1) by (auto simp: seek_exclusive.simps[of env s] settings_def)
  qed
qed

text \<open>What a scan returns: the cells whose rows lie in the range and whose families are selected, and the row deletes.\<close>

definition before_start :: "bool \<Rightarrow> bytes \<Rightarrow> cell \<Rightarrow> bool" where
  "before_start incl srow c \<longleftrightarrow> (if incl then c_row c < srow else c_row c \<le> srow)"

lemma takeWhile_rows: "sorted (map c_row cs) \<Longrightarrow> takeWhile (\<lambda>c. \<not> past_end s (c_row c)) cs = filter (\<lambda>c. \<not> past_end s (c_row c)) cs"
proof (induction cs)
  case (Cons c cs)
  have "\<forall>x \<in> set cs. past_end s (c_row x)" if "past_end s (c_row c)"
    using that Cons.prems by (auto simp: past_end_def intro: less_le_trans order_trans split: if_splits)
  then show ?case using Cons by simp
qed simp

lemma dropWhile_rows: "sorted (map c_row cs) \<Longrightarrow> dropWhile (before_start incl srow) cs = filter (\<lambda>c. \<not> before_start incl srow c) cs"
proof (induction cs)
  case (Cons c cs)
  then show ?case by (auto simp: before_start_def intro!: filter_True[symmetric] split: if_splits)
qed simp

lemma drop_take_filter:
  assumes "sorted (map c_row cs)"
  shows "filter P (takeWhile (\<lambda>c. \<not> past_end s (c_row c)) (dropWhile (before_start incl srow) cs))
    = filter (\<lambda>c. \<not> before_start incl srow c \<and> \<not> past_end s (c_row c) \<and> P c) cs"
proof -
  have "sorted (map c_row (dropWhile (before_start incl srow) cs))" unfolding dropWhile_rows[OF assms] using assms by (rule sorted_filter)
  then show ?thesis by (simp add: takeWhile_rows dropWhile_rows[OF assms] conj_commute conj_left_commute)
qed

lemma css_collect_after:
  assumes e: "store_env zc bss env" and a: "at_cells zc bss mem s (c # cs)" "covers zc bss env s" "\<not> past_end s (c_row c)"
  shows "\<exists>s'. css_forward env m s = Inr s' \<and> (\<forall>n. css_collect env m n s' = Inr (take n (filter (selected m) (takeWhile (\<lambda>c. \<not> past_end s (c_row c)) cs))))"
proof -
  obtain s' where s': "css_forward env m s = Inr s'" using css_forward_run[OF e a] by blast
  have "css_get s = Some c" using at_cells_cell(3,4)[OF e a(1)] by (simp add: css_get_def)
  then have "css_collect env m n s' = Inr (take n (filter (selected m) (takeWhile (\<lambda>c. \<not> past_end s (c_row c)) cs)))" for n
    using css_collect_run[OF e a, of m "Suc n"] s' by (auto simp: rbind_eq_Inr_iff)
  then show ?thesis using s' by blast
qed

lemma scanning_not_Nil: "scanning zc bss mem k s cs \<Longrightarrow> cs \<noteq> []"
  unfolding scanning_def by blast

lemma seek_run:
  assumes e: "store_env zc bss env" and k: "scanning zc bss mem k s (concat (drop k bss))"
    and v: "covers zc bss env s" and r: "ss_readahead s \<longrightarrow> ss_start_row s < ss_end_row s"
    and i: "incl \<longrightarrow> ss_start_row s \<le> c_row (last (bss ! k))"
    and d: "d = dropWhile (before_start incl (ss_start_row s)) (concat (drop k bss))"
  shows "\<exists>s2. d = [] \<and> (if incl then seek_inclusive s else seek_exclusive env s) = Inr (False, s2) \<and> ss_iter s2 = []
    \<or> d \<noteq> [] \<and> (if incl then seek_inclusive s else seek_exclusive env s) = Inr (True, s2) \<and> at_cells zc bss mem s2 d \<and> settings s s2"
proof (cases incl)
  case True
  have kl: "k < length bss" using k by (simp add: scanning_def)
  obtain b post where b: "bss ! k = b # post" using e kl by (cases "bss ! k") (auto simp: store_env_def keyed_def dest: nth_mem)
  then have c: "concat (drop k bss) = b # post @ concat (drop (Suc k) bss)" using kl by (simp flip: Cons_nth_drop_Suc)
  have w: "(\<lambda>c. c_row c < ss_start_row s) = before_start incl (ss_start_row s)" using True by (simp add: before_start_def fun_eq_iff)
  obtain s' where s': "seek_inclusive s = Inr (True, s')" "scanning zc bss mem k s' d" "settings s s'"
    using seek_inclusive_run[OF e, of k "[]" b post mem s] k i True b unfolding c w d by auto
  then show ?thesis using True scanning_not_Nil[OF s'(2)] at_cells_def by (intro exI[of _ s']) auto
next
  case False
  have b: "(\<lambda>c. c_row c \<le> ss_start_row s) = before_start incl (ss_start_row s)" using False by (simp add: before_start_def fun_eq_iff)
  obtain c cs where cs: "concat (drop k bss) = c # cs" using scanning_not_Nil[OF k] by (meson neq_Nil_conv)
  have "at_cells zc bss mem s (c # cs)" using k cs at_cells_def by metis
  then obtain s' where s': "case d of [] \<Rightarrow> seek_exclusive env s = Inr (False, s') \<and> ss_iter s' = []
     | c' # cs' \<Rightarrow> seek_exclusive env s = Inr (True, s') \<and> at_cells zc bss mem s' (c' # cs') \<and> settings s s'"
    using seek_exclusive_run[OF e _ v] r unfolding b cs d by blast
  show ?thesis by (cases d; use s' False in auto)
qed

lemma seek_range_run:
  assumes e: "store_env zc bss env" and k: "scanning zc bss mem k s (concat (drop k bss))" and s: "set_current s1 = Inr s"
    and v: "covers zc bss env s" and r: "ss_readahead s \<longrightarrow> ss_start_row s < ss_end_row s"
    and i: "incl \<longrightarrow> ss_start_row s \<le> c_row (last (bss ! k))"
    and d: "d = dropWhile (before_start incl (ss_start_row s)) (concat (drop k bss))"
  shows "\<exists>s'. seek_range env m incl s1 = Inr s' \<and> (\<forall>n. css_collect env m n s' = Inr (take n (filter (selected m) (takeWhile (\<lambda>c. \<not> past_end s (c_row c)) d))))"
proof -
  have stop: "css_collect env m n x = Inr []" if "ss_iter x = []" for n x
    by (cases n; use that in \<open>simp add: css_get_def\<close>)
  obtain s2 where s2: "d = [] \<and> (if incl then seek_inclusive s else seek_exclusive env s) = Inr (False, s2) \<and> ss_iter s2 = []
    \<or> d \<noteq> [] \<and> (if incl then seek_inclusive s else seek_exclusive env s) = Inr (True, s2) \<and> at_cells zc bss mem s2 d \<and> settings s s2"
    using seek_run[OF e k v r i d] by (elim exE) (rule that)
  show ?thesis
  proof (cases d)
    case Nil
    then have "seek_range env m incl s1 = Inr s2" using s2 s by (simp add: seek_range_def)
    then show ?thesis using Nil s2 stop by simp
  next
    case (Cons c' cs')
    have a: "at_cells zc bss mem s2 (c' # cs')" and st: "settings s s2" using s2 Cons by simp_all
    note c' = at_cells_cell[OF e a] and p = settings_same(1)[OF st]
    have v2: "covers zc bss env s2" using settings_same(2)[OF st] v by simp
    obtain key where key: "key_load (fst (ss_cur s2)) = Inr (Some key)" "k_family key = c_family c'" "k_flag key = c_flag c'" using c'(5) by blast
    have q: "seek_range env m incl s1 = (if past_end s (c_row c') then Inr (s2\<lparr>ss_iter := []\<rparr>) else if selected m c' then Inr s2 else css_forward env m s2)"
      using s2 Cons s c'(2) p key by (simp add: seek_range_def selected_def)
    consider "past_end s (c_row c')" | "\<not> past_end s (c_row c')" "selected m c'" | "\<not> past_end s (c_row c')" "\<not> selected m c'" by blast
    then show ?thesis
    proof cases
      case 1
      then show ?thesis using q Cons stop by simp
    next
      case 2
      then show ?thesis using q Cons css_collect_run[OF e a v2] p by simp
    next
      case 3
      then show ?thesis using q Cons css_collect_after[OF e a v2, of m] p by simp
    qed
  qed
qed

text \<open>The block in which a scan starts and the end of the data it reads ahead.\<close>

definition scan_wants :: "cell_store \<Rightarrow> (byte \<Rightarrow> bool) \<Rightarrow> scan_rows \<Rightarrow> cell \<Rightarrow> bool" where
  "scan_wants st m ctx c \<longleftrightarrow>
     (if cs_start_row st < sr_start_row ctx then sr_start_row ctx \<le> c_row c else cs_start_row st < c_row c)
     \<and> (if sr_end_row ctx < cs_end_row st then c_row c < sr_end_row ctx else c_row c \<le> cs_end_row st) \<and> selected m c"

definition first_from :: "cell list list \<Rightarrow> bytes \<Rightarrow> nat" where
  "first_from bss row = length (takeWhile (\<lambda>b. c_row (last b) < row) bss)"

lemma bounds_first:
  assumes "keyed bss" "length offs = length bss" "0 \<notin> set row" "length row < 2 ^ 32"
  shows "ix_lower_bound (bs_of row) (entries bss offs mem) = Inr (drop (first_from bss row) (entries bss offs mem))"
    "ix_upper_bound (bs_of row) (entries bss offs mem) = Inr (drop (first_from bss row) (entries bss offs mem))"
proof -
  have "takeWhile (\<lambda>b. packed (last b) < row) bss = takeWhile (\<lambda>b. c_row (last b) < row) bss"
    "takeWhile (\<lambda>b. packed (last b) \<le> row) bss = takeWhile (\<lambda>b. c_row (last b) < row) bss"
    using keyed_last[OF assms(1)] packed_vs_row[OF _ assms(3)] by (auto intro!: takeWhile_cong)
  then show "ix_lower_bound (bs_of row) (entries bss offs mem) = Inr (drop (first_from bss row) (entries bss offs mem))"
    "ix_upper_bound (bs_of row) (entries bss offs mem) = Inr (drop (first_from bss row) (entries bss offs mem))"
    using ix_lower_bound_entries[OF assms(1,2,4)] ix_upper_bound_entries[OF assms(1,2,4)] by (simp_all add: first_from_def)
qed

lemma first_from_facts:
  "first_from bss row \<le> length bss"
  "k < first_from bss row \<Longrightarrow> c_row (last (bss ! k)) < row"
  "first_from bss row < length bss \<Longrightarrow> row \<le> c_row (last (bss ! first_from bss row))"
  "row \<le> row' \<Longrightarrow> first_from bss row \<le> first_from bss row'"
proof -
  show "first_from bss row \<le> length bss" by (simp add: first_from_def length_takeWhile_le)
  show "c_row (last (bss ! k)) < row" if "k < first_from bss row"
    using that nth_mem[of k "takeWhile (\<lambda>b. c_row (last b) < row) bss"] set_takeWhileD[of "bss ! k"] by (metis first_from_def takeWhile_nth)
  show "row \<le> c_row (last (bss ! first_from bss row))" if "first_from bss row < length bss"
    using nth_length_takeWhile[of "\<lambda>b. c_row (last b) < row" bss] that by (simp add: first_from_def not_less)
  show "first_from bss row \<le> first_from bss row'" if "row \<le> row'"
    using that unfolding first_from_def by (induction bss) auto
qed

lemma scan_end_offset_run:
  assumes e: "store_env zc bss env" and r: "0 \<notin> set row" "length row < 2 ^ 32"
  shows "\<exists>stop. scan_end_offset env row (entries bss (offsets zc 0 bss) mem) = Inr stop
    \<and> unat stop = (if Suc (first_from bss row) < length bss then extent zc bss (Suc (first_from bss row)) else length (data_bytes zc bss))"
proof -
  let ?E = "first_from bss row" and ?m = "entries bss (offsets zc 0 bss) mem"
  have ky: "keyed bss" using e by (simp add: store_env_def)
  have n: "length (data_bytes zc bss) < 2 ^ 32" using e by (simp add: store_env_def store_fits_def)
  have f: "unat (se_fix_index_offset env) = length (data_bytes zc bss)" using e n by (simp add: store_env_def unat_of_nat_small)
  have ub: "scan_end_offset env row ?m = Inr (case drop ?E ?m of (_ # (_, off) # _) \<Rightarrow> off | _ \<Rightarrow> se_fix_index_offset env)"
    using bounds_first(2)[OF ky _ r] by (simp add: scan_end_offset_def append_as_byte_string_eq)
  show ?thesis
  proof (cases "Suc ?E < length bss")
    case True
    have d: "drop j bss = bss ! j # drop (Suc j) bss" "drop j (offsets zc 0 bss) = offsets zc 0 bss ! j # drop (Suc j) (offsets zc 0 bss)" if "j < length bss" for j
      using that by (simp_all add: Cons_nth_drop_Suc)
    have "scan_end_offset env row ?m = Inr (offsets zc 0 bss ! Suc ?E)" unfolding ub using True by (simp add: entries_drop d)
    then show ?thesis using True extent_words(1)[OF e True] by simp
  next
    case False
    then have l: "length (drop ?E ?m) \<le> 1" using length_entries[of "offsets zc 0 bss" bss mem] by simp
    have "scan_end_offset env row ?m = Inr (se_fix_index_offset env)"
      unfolding ub by (cases "drop ?E ?m" rule: remdups_adj.cases; use l in \<open>simp del: length_drop\<close>)
    then show ?thesis using False f by simp
  qed
qed

lemma covers_scan:
  assumes e: "store_env zc bss env" and stop: "ss_readahead s \<Longrightarrow> unat (ss_end_offset s)
      = (if Suc (first_from bss (ss_end_row s)) < length bss then extent zc bss (Suc (first_from bss (ss_end_row s))) else length (data_bytes zc bss))"
    and i: "ss_readahead s \<Longrightarrow> ss_end_inclusive s \<Longrightarrow> (\<forall>c \<in> set (concat bss). c_row c \<noteq> ss_end_row s) \<or> length (data_bytes zc bss) \<le> se_slack env"
    and f: "take 1 (ss_end_row s) = [0xff] \<Longrightarrow> \<forall>c \<in> set (concat bss). \<not> past_end s (c_row c)"
  shows "covers zc bss env s"
proof -
  let ?E = "first_from bss (ss_end_row s)"
  have "extent zc bss (Suc (Suc k)) \<le> unat (ss_end_offset s) + se_slack env" if k: "Suc k < length bss" "\<not> past_end s (c_row (last (bss ! k)))" "ss_readahead s" for k
  proof (cases "length (data_bytes zc bss) \<le> se_slack env \<or> Suc ?E \<ge> length bss")
    case True
    then show ?thesis using extent_le[of zc bss "Suc (Suc k)"] stop k(3) by auto
  next
    case False
    have "last (bss ! k) \<in> set (bss ! k)" "bss ! k \<in> set bss" using e k(1) by (auto simp: store_env_def keyed_def)
    then have row: "c_row (last (bss ! k)) < ss_end_row s" using k(2,3) i False by (fastforce simp: past_end_def split: if_splits)
    have "k < ?E"
    proof (rule ccontr)
      assume "\<not> k < ?E"
      then have "c_row (last (bss ! ?E)) \<le> c_row (last (bss ! k))" using last_rows[of bss ?E k] e k(1) by (cases "?E = k") (auto simp: store_env_def)
      then show False using first_from_facts(3)[of bss "ss_end_row s"] False row by auto
    qed
    then show ?thesis using extent_mono[of "Suc (Suc k)" "Suc ?E" zc bss] stop k(3) False by simp
  qed
  then show ?thesis using f by (simp add: covers_def)
qed

lemma cells_before:
  assumes ky: "keyed bss" and k: "k = first_from bss srow"
  shows "dropWhile (before_start incl srow) (concat bss) = dropWhile (before_start incl srow) (concat (drop k bss))"
proof -
  have "before_start incl srow c" if bt: "b \<in> set (take k bss)" and ct: "c \<in> set b" for b c
  proof -
    obtain j where j: "j < k" "j < length bss" "b = bss ! j" using bt by (auto simp: in_set_conv_nth)
    then have "c_row (last b) < srow" using first_from_facts(2) k by blast
    then show ?thesis using block_rows[OF ky _ ct] j by (auto simp: before_start_def)
  qed
  then have "\<forall>c \<in> set (concat (take k bss)). before_start incl srow c" by auto
  moreover have "concat bss = concat (take k bss) @ concat (drop k bss)" by (metis append_take_drop_id concat_append)
  ultimately show ?thesis by (simp add: dropWhile_append)
qed

lemma css_new_run:
  assumes e: "store_env zc bss env" and m: "cs_index st = entries bss (offsets zc 0 bss) mem"
    and srow: "srow = (if cs_start_row st < sr_start_row ctx then sr_start_row ctx else cs_start_row st)" "0 \<notin> set srow" "length srow < 2 ^ 32"
    and erow: "erow = (if sr_end_row ctx < cs_end_row st then sr_end_row ctx else cs_end_row st)" "0 \<notin> set erow" "length erow < 2 ^ 32"
    and le: "srow \<le> erow"
    and i: "srow \<noteq> erow \<Longrightarrow> \<not> sr_row_limit_one ctx \<Longrightarrow> \<not> sr_end_row ctx < cs_end_row st \<Longrightarrow>
      (\<forall>c \<in> set (concat bss). c_row c \<noteq> erow) \<or> length (data_bytes zc bss) \<le> se_slack env"
    and f: "take 1 erow = [0xff] \<Longrightarrow> \<forall>c \<in> set (concat bss). c_row c < erow"
  shows "\<exists>s. css_new env st fm ctx = Inr s \<and> (\<forall>n. css_collect env fm n s = Inr (take n (filter (scan_wants st fm ctx) (concat bss))))"
proof -
  let ?m = "entries bss (offsets zc 0 bss) mem" and ?k = "first_from bss srow" and ?incl = "cs_start_row st < sr_start_row ctx"
  have ky: "keyed bss" using e by (simp add: store_env_def)
  have sorted: "sorted (map c_row (concat bss))" using ky rows_sorted by (simp add: keyed_def)
  let ?s = "\<lparr>ss_iter = drop ?k ?m, ss_block = None, ss_cur = ([], []), ss_check_for_range_end = False, ss_end_inclusive = (\<not> sr_end_row ctx < cs_end_row st),
            ss_start_row = srow, ss_end_row = erow, ss_readahead = True, ss_start_offset = 0, ss_end_offset = 0\<rparr>"
  let ?ra = "\<not> (srow = erow \<or> sr_row_limit_one ctx)"
  have wants: "scan_wants st fm ctx = (\<lambda>c. \<not> before_start ?incl srow c \<and> \<not> past_end ?s (c_row c) \<and> selected fm c)"
    by (auto simp: fun_eq_iff scan_wants_def before_start_def past_end_def srow(1) erow(1))
  have iter: "(if ?incl then ix_lower_bound (bs_of srow) ?m else ix_upper_bound (bs_of srow) ?m) = Inr (drop ?k ?m)"
    using bounds_first[OF ky _ srow(2,3)] by simp
  obtain stop where stop: "scan_end_offset env erow ?m = Inr stop"
    "unat stop = (if Suc (first_from bss erow) < length bss then extent zc bss (Suc (first_from bss erow)) else length (data_bytes zc bss))"
    using scan_end_offset_run[OF e erow(2,3)] by blast
  have er: "(if \<not> sr_end_row ctx < cs_end_row st then cs_end_row st else sr_end_row ctx) = erow" by (simp add: erow(1))
  have new_eq: "css_new env st fm ctx = (case drop ?k ?m of [] \<Rightarrow> Inr ?s
      | (_, off) # _ \<Rightarrow>
          rbind (if srow = erow \<or> sr_row_limit_one ctx then fetch_next_block env (?s\<lparr>ss_readahead := False\<rparr>)
            else rbind (scan_end_offset env erow ?m) (\<lambda>stop.
              fetch_next_block_readahead env (?s\<lparr>ss_start_offset := off, ss_end_offset := stop\<rparr>))) (\<lambda>(ok, s).
          if \<not> ok then Inr (s\<lparr>ss_iter := []\<rparr>) else seek_range env fm ?incl s))"
    unfolding css_new_def Let_def er srow(1)[symmetric] append_as_byte_string_eq m rbind_simps iter ..
  show ?thesis
  proof (cases "?k < length bss")
    case False
    then have "drop ?k ?m = []" using length_entries[of "offsets zc 0 bss" bss mem] by simp
    then have n: "css_new env st fm ctx = Inr ?s" unfolding new_eq by simp
    have "css_collect env fm n ?s = Inr []" for n by (cases n; use \<open>drop ?k ?m = []\<close> in \<open>simp add: css_get_def\<close>)
    moreover have "filter (scan_wants st fm ctx) (concat bss) = []"
      unfolding wants drop_take_filter[OF sorted, symmetric] cells_before[OF ky refl] using False by simp
    ultimately show ?thesis using n by simp
  next
    case True
    let ?off = "offsets zc 0 bss ! ?k"
    let ?s1 = "?s\<lparr>ss_readahead := ?ra, ss_start_offset := (if ?ra then ?off else 0), ss_end_offset := (if ?ra then stop else 0)\<rparr>"
    have d: "drop ?k bss = bss ! ?k # drop (Suc ?k) bss" "drop ?k (offsets zc 0 bss) = ?off # drop (Suc ?k) (offsets zc 0 bss)"
      using True by (simp_all add: Cons_nth_drop_Suc)
    have hd: "\<exists>key rest. drop ?k ?m = (key, ?off) # rest" by (simp add: entries_drop d)
    have new: "css_new env st fm ctx = rbind (fetch env ?s1) (\<lambda>(ok, s). if \<not> ok then Inr (s\<lparr>ss_iter := []\<rparr>) else seek_range env fm ?incl s)"
      unfolding new_eq using hd stop(1) by (auto simp: fetch_def)
    have lv: "leave_block ?s1 = ?s1" by (simp add: leave_block_def)
    have ne: "\<not> past_end ?s1 row" if "row < erow" for row using that by (auto simp: past_end_def)
    have v: "covers zc bss env ?s1"
    proof (rule covers_scan[OF e])
      show "\<forall>c \<in> set (concat bss). \<not> past_end ?s1 (c_row c)" if "take 1 (ss_end_row ?s1) = [0xff]" using ne f that by (auto simp del: set_concat)
    qed (use stop(2) i in simp_all)
    have r: "ss_start_offset ?s1 = offsets zc 0 bss ! ?k \<and> extent zc bss (Suc ?k) \<le> unat (ss_end_offset ?s1) + se_slack env" if "ss_readahead ?s1"
      using that stop(2) extent_mono[of "Suc ?k" "Suc (first_from bss erow)" zc bss] first_from_facts(4)[OF le, of bss] extent_le[of zc bss "Suc ?k"] by auto
    obtain s' s'' where f: "fetch env ?s1 = Inr (True, s')" "set_current s' = Inr s''" "scanning zc bss mem ?k s'' (concat (drop ?k bss))" "settings ?s1 s''"
      using fetched[where mem = mem, OF e True _ _ r v] lv by auto
    have "ss_readahead s'' \<longrightarrow> ss_start_row s'' < ss_end_row s''" using f(4) le by (auto simp: settings_def)
    moreover have "?incl \<longrightarrow> ss_start_row s'' \<le> c_row (last (bss ! ?k))" using f(4) first_from_facts(3)[OF True] by (simp add: settings_def)
    moreover have "covers zc bss env s''" using settings_same(2)[OF f(4)] v by simp
    ultimately obtain s3 where s3: "seek_range env fm ?incl s' = Inr s3" "\<forall>n. css_collect env fm n s3 = Inr (take n (filter (selected fm)
        (takeWhile (\<lambda>c. \<not> past_end s'' (c_row c)) (dropWhile (before_start ?incl (ss_start_row s'')) (concat (drop ?k bss))))))"
      using seek_range_run[OF e f(3,2) _ _ _ refl] by blast
    have "past_end s'' = past_end ?s" "ss_start_row s'' = srow" using f(4) by (auto simp: settings_def past_end_def fun_eq_iff)
    then have "css_collect env fm n s3 = Inr (take n (filter (scan_wants st fm ctx) (concat bss)))" for n
      unfolding wants drop_take_filter[OF sorted, symmetric] cells_before[OF ky refl] using s3(2) by simp
    then show ?thesis using new f(1) s3(1) by auto
  qed
qed

section \<open>Properties\<close>

text \<open>A compaction: the cells are added to a new store, which is finalized.\<close>

definition write_store :: "float_ops \<Rightarrow> block_codec \<Rightarrow> bytes \<Rightarrow> timestamp \<Rightarrow> cell list \<Rightarrow> cell_store \<Rightarrow> (bool \<times> cell_store) result" where
  "write_store fo zc mem ts cs st =
     rbind (cs_add_all fo zc cs st) (\<lambda>(ok, st). if ok then cs_finalize fo zc mem ts st else Inr (False, st))"

lemma filling_new: "filling zc [] [] (cs_create bs ct [])"
  by (simp add: filling_def wrote_def cs_create_def trailer_clear_def)

lemma block_bytes_concat: "length (block_bytes (concat bss)) = (\<Sum>b\<leftarrow>bss. length (block_bytes b))"
  by (induction bss) simp_all

lemma block_sizes:
  assumes "\<forall>b \<in> set bss. b \<noteq> []"
  shows "length (last_keys bss) \<le> length (block_bytes (concat bss))" "4 * length bss \<le> length (block_bytes (concat bss))"
    "b \<in> set bss \<Longrightarrow> length (block_bytes b) \<le> length (block_bytes (concat bss))"
proof -
  have l: "length (bs_of (packed (last b))) \<le> length (block_bytes b) \<and> 4 \<le> length (bs_of (packed (last b)))" if "b \<noteq> []" for b
  proof -
    have "length (block_bytes b) = length (block_bytes (butlast b @ [last b]))" using that by simp
    moreover have "4 \<le> length (packed (last b))" by (simp add: packed_def length_key_payload)
    ultimately show ?thesis by (simp add: bs_of_def del: append_butlast_last_id)
  qed
  show "length (last_keys bss) \<le> length (block_bytes (concat bss))" using assms
  proof (induction bss)
    case (Cons b bss)
    then show ?case using l[of b] by simp
  qed simp
  show "4 * length bss \<le> length (block_bytes (concat bss))" using assms
  proof (induction bss)
    case (Cons b bss)
    then show ?case using l[of b] by simp
  qed simp
  show "length (block_bytes b) \<le> length (block_bytes (concat bss))" if "b \<in> set bss"
    unfolding block_bytes_concat using that by (intro member_le_sum_list) auto
qed

lemma store_fits_sizes:
  assumes "\<forall>b \<in> set bss. b \<noteq> []" "length (block_bytes (concat bss)) < 2 ^ 32" "length (store_file zc bss t) < 2 ^ 32"
  shows "store_fits zc bss"
  using assms(2,3) block_sizes[OF assms(1)] le_less_trans[OF block_sizes(3)[OF assms(1)] assms(2)]
  by (simp add: store_fits_def store_file_def)

lemma write_store_ok:
  assumes cs: "in_order cs" "\<forall>c \<in> set cs. stored_cell c" "length (block_bytes cs) < 2 ^ 32" and mem: "readable_string mem"
  shows "\<exists>bss st t. write_store fo zc mem ts cs (cs_create bs ct []) = Inr (True, st) \<and> concat bss = cs \<and> keyed bss \<and> cs_file st = store_file zc bss t \<and> describes zc bss t
    \<and> cs_trailer st = t \<and> cs_index st = entries bss (offsets zc 0 bss) mem \<and> cs_start_row st = [] \<and> cs_end_row st = END_ROW_MARKER
    \<and> (length (cs_file st) < 2 ^ 32 \<longrightarrow> store_fits zc bss)"
proof -
  obtain st1 bss b where a: "cs_add_all fo zc cs (cs_create bs ct []) = Inr (True, st1)" "filling zc bss b st1" "concat bss @ b = cs" "same_setup (cs_create bs ct []) st1"
    using cs_add_all_ok[OF filling_new cs(2)] by fastforce
  let ?bss = "if b = [] then bss else bss @ [b]"
  have c: "concat ?bss = cs" using a(3) by auto
  have ne: "\<forall>b \<in> set ?bss. b \<noteq> []" using a(2) by (auto simp: filling_def wrote_def)
  have ky: "keyed ?bss" unfolding keyed_def c using ne cs by blast
  note sizes = block_sizes[OF ne, unfolded c]
  obtain st t where f: "cs_finalize fo zc mem ts st1 = Inr (True, st)" "cs_file st = store_file zc ?bss t" "describes zc ?bss t" "cs_trailer st = t"
      "cs_index st = entries ?bss (offsets zc 0 ?bss) mem" "same_setup st1 st"
    using cs_finalize_ok[OF a(2) refl, of mem fo ts] c cs mem sizes(2) by auto
  have "store_fits zc ?bss" if "length (cs_file st) < 2 ^ 32"
    using that store_fits_sizes[OF ne, of zc t] cs(3) f(2) c by simp
  moreover have "write_store fo zc mem ts cs (cs_create bs ct []) = Inr (True, st)" using a(1) f(1) by (simp add: write_store_def)
  moreover have "cs_start_row st = []" "cs_end_row st = END_ROW_MARKER" using a(4) f(6) by (simp_all add: same_setup_def cs_create_def)
  ultimately show ?thesis using c ky f by (intro exI[of _ ?bss] exI[of _ st] exI[of _ t]) blast
qed

text \<open>The store is opened for the rows of a range, and some cell is not before the range.\<close>

definition opens_for :: "bytes \<Rightarrow> bytes \<Rightarrow> cell list \<Rightarrow> bool" where
  "opens_for srow erow cs \<longleftrightarrow> 0 \<notin> set srow \<and> 0 \<notin> set erow \<and> srow \<le> erow \<and> length srow < 2 ^ 31 \<and> length erow < 2 ^ 31 \<and> (\<exists>c \<in> set cs. srow \<le> c_row c)"

text \<open>A scanner of the store: it reads the file of the store, and what the cache holds is what inflating the file gives.\<close>

definition reads_store :: "block_codec \<Rightarrow> cell_store \<Rightarrow> scan_env \<Rightarrow> bool" where
  "reads_store zc st env \<longleftrightarrow> se_file env = cs_file st \<and> se_fix_index_offset env = fix_index_offset (cs_trailer st) \<and> se_inflate env = bc_inflate zc
     \<and> (\<forall>off d n d'. se_cache env off = Some d \<longrightarrow> inflate_data env (take n (drop (unat off) (se_file env))) = Inr d' \<longrightarrow> d' = d)"

text \<open>The rows of a scan. A range that begins like the end marker holds no row behind its end, and when the scan reads ahead for a
  range with its end row included, either there is no cell in that row or the reader delivers the blocks behind the requested end.\<close>

definition scan_rows_ok :: "cell_store \<Rightarrow> scan_rows \<Rightarrow> cell list \<Rightarrow> nat \<Rightarrow> bool" where
  "scan_rows_ok st ctx cs slack \<longleftrightarrow>
     (let srow = (if cs_start_row st < sr_start_row ctx then sr_start_row ctx else cs_start_row st);
          erow = (if sr_end_row ctx < cs_end_row st then sr_end_row ctx else cs_end_row st) in
      0 \<notin> set srow \<and> 0 \<notin> set erow \<and> length srow < 2 ^ 32 \<and> length erow < 2 ^ 32 \<and> srow \<le> erow
      \<and> (take 1 erow \<noteq> [0xff] \<or> (\<forall>c \<in> set cs. c_row c < erow))
      \<and> (srow = erow \<or> sr_row_limit_one ctx \<or> sr_end_row ctx < cs_end_row st \<or> (\<forall>c \<in> set cs. c_row c \<noteq> erow) \<or> length (cs_file st) \<le> slack))"

lemma reads_store_env:
  assumes l: "lawful_codec (bc_deflate zc) (bc_inflate zc)" and ky: "keyed bss" and fits: "store_fits zc bss" and d: "describes zc bss t"
    and f: "cs_file st = store_file zc bss t" "cs_trailer st = t" and r: "reads_store zc st env"
  shows "store_env zc bss env"
proof -
  have e: "store_env zc bss (env\<lparr>se_cache := \<lambda>_. None\<rparr>)" using l ky fits d f r by (simp add: store_env_def reads_store_def describes_def store_file_def)
  have "se_cache env (offsets zc 0 bss ! k) \<in> {None, Some (block_bytes (bss ! k))}" if k: "k < length bss" for k
  proof (cases "se_cache env (offsets zc 0 bss ! k)")
    case (Some d)
    have "se_file env = data_bytes zc bss @ fix_bytes zc bss @ var_bytes zc bss @ trailer_serialize t" using r f by (simp add: reads_store_def store_file_def)
    then have "take (length (zblock zc (bss ! k))) (drop (unat (offsets zc 0 bss ! k)) (se_file env)) = zblock zc (bss ! k)"
      unfolding extent_words(1)[OF e k] using block_in_file[OF k] by metis
    moreover have "inflate_data env (zblock zc (bss ! k)) = Inr (block_bytes (bss ! k))" using inflate_data_run[OF e k] by (simp add: inflate_data_def)
    ultimately show ?thesis using r Some unfolding reads_store_def by (metis insertCI)
  qed simp
  then show ?thesis using e by (simp add: store_env_def)
qed


definition sample_cell :: "byte \<Rightarrow> cell" where
  "sample_cell r = \<lparr>c_row = [r], c_family = 1, c_qualifier = [], c_flag = FLAG_INSERT, c_timestamp = 1, c_value = [r]\<rparr>"

definition sample_floats :: float_ops where
  "sample_floats = \<lparr>fo_blocksize = \<lambda>_ _. 0, fo_ratio = \<lambda>_. 0\<rparr>"

definition sample_cells :: "cell list" where
  "sample_cells = map sample_cell [97, 98, 99]"

lemma sample_facts: "in_order sample_cells" "\<forall>c \<in> set sample_cells. stored_cell c" "length (block_bytes sample_cells) < 2 ^ 32" "readable_string [0, 0]"
proof -
  show "in_order sample_cells" unfolding in_order_def by code_simp
  show "\<forall>c \<in> set sample_cells. stored_cell c" unfolding stored_cell_def by (simp add: sample_cells_def sample_cell_def wf_cell_def FLAG_INSERT_def FLAG_DELETE_ROW_def)
  have "length (block_bytes sample_cells) = 48" by code_simp
  then show "length (block_bytes sample_cells) < 2 ^ 32" by simp
  have "bs_decode_length [0, 0] = Inr (0, [0])" by code_simp
  then show "readable_string [0, 0]" by (simp add: readable_string_def)
qed

text \<open>Without compression a file takes at most a header for each block in addition to the cells, the offsets and the last keys.\<close>

lemma length_deflate_none: "length m = 10 \<Longrightarrow> length (bc_deflate codec_none input (header_new m)) \<le> 26 + length input"
  by (simp add: codec_none_def deflate_none_def Let_def header_new_def header_length_def)

lemma length_store_none:
  assumes "\<forall>b \<in> set bss. b \<noteq> []"
  shows "length (store_file codec_none bss t) \<le> 100 + 30 * length bss + 2 * length (block_bytes (concat bss))"
proof -
  have m: "length DATA_BLOCK_MAGIC = 10" "length INDEX_FIXED_BLOCK_MAGIC = 10" "length INDEX_VARIABLE_BLOCK_MAGIC = 10"
    by (simp_all add: DATA_BLOCK_MAGIC_def INDEX_FIXED_BLOCK_MAGIC_def INDEX_VARIABLE_BLOCK_MAGIC_def)
  have "length (data_bytes codec_none bss) \<le> 26 * length bss + length (block_bytes (concat bss))"
  proof (induction bss)
    case (Cons b bss)
    then show ?case using length_deflate_none[OF m(1), of "block_bytes b"] by (simp add: zblock_def)
  qed simp
  moreover have "length (concat (map (le_split 4) (offsets codec_none 0 bss))) = 4 * length bss" by (simp add: length_concat comp_def sum_list_triv)
  ultimately show ?thesis
    using block_sizes(1)[OF assms] length_deflate_none[OF m(2), of "concat (map (le_split 4) (offsets codec_none 0 bss))"] length_deflate_none[OF m(3), of "last_keys bss"]
    by (simp add: store_file_def fix_bytes_def var_bytes_def)
qed

lemma sample_written:
  assumes "write_store sample_floats codec_none [0, 0] timestamp_clear sample_cells (cs_create 0 0 []) = Inr (True, st)"
  shows "length (cs_file st) < 2 ^ 32"
proof -
  obtain bss t where b: "concat bss = sample_cells" "keyed bss" "cs_file st = store_file codec_none bss t"
    using write_store_ok[OF sample_facts, of sample_floats codec_none timestamp_clear 0 0] assms by auto
  have n: "\<forall>b \<in> set bss. b \<noteq> []" using b(2) by (simp add: keyed_def)
  have "length (block_bytes sample_cells) = 48" by code_simp
  then show ?thesis using length_store_none[OF n, of t] block_sizes(2)[OF n] b by simp
qed


text \<open>A store whose cells fit into the buffer: they are only appended to it.\<close>

lemma cs_add_all_buffered:
  assumes "\<forall>c \<in> set cs. stored_cell c" "length (cs_buffer st @ block_bytes cs) \<le> unat (cs_uncompressed_blocksize st)"
  shows "cs_add_all fo zc cs st = Inr (True, if cs = [] then st else st\<lparr>cs_last_key := length (cs_buffer st @ block_bytes (butlast cs)),
    cs_buffer := cs_buffer st @ block_bytes cs, cs_trailer := (cs_trailer st)\<lparr>total_entries := total_entries (cs_trailer st) + of_nat (length cs)\<rparr>\<rparr>)"
  using assms
proof (induction cs arbitrary: st)
  case (Cons c cs)
  have n: "length (packed c) < 2 ^ 32" "length (c_value c) < 2 ^ 32" using Cons.prems(1) length_packed by (simp_all add: stored_cell_def)
  let ?st = "st\<lparr>cs_last_key := length (cs_buffer st), cs_buffer := cs_buffer st @ bs_of (packed c) @ bs_of (c_value c),
    cs_trailer := (cs_trailer st)\<lparr>total_entries := total_entries (cs_trailer st) + 1\<rparr>\<rparr>"
  have a: "cs_add fo zc (bs_of (packed c)) (bs_of (c_value c)) st = Inr (True, ?st)"
    using Cons.prems(2) bs_length_run[OF n(1), of "[]"] bs_length_run[OF n(2), of "[]"] by (simp add: cs_add_def rdn_def)
  have "cs_add_all fo zc cs ?st = Inr (True, if cs = [] then ?st else ?st\<lparr>cs_last_key := length (cs_buffer ?st @ block_bytes (butlast cs)),
    cs_buffer := cs_buffer ?st @ block_bytes cs, cs_trailer := (cs_trailer ?st)\<lparr>total_entries := total_entries (cs_trailer ?st) + of_nat (length cs)\<rparr>\<rparr>)"
    using Cons.prems by (intro Cons.IH) auto
  then show ?case using a by (cases "cs = []") (simp_all add: ac_simps)
qed simp

lemma no_outcomes: "cs_outcomes st = [] \<Longrightarrow> st\<lparr>cs_outcomes := []\<rparr> = st"
  by (cases st) simp

lemma one_block:
  assumes cs: "cs \<noteq> []" "\<forall>c \<in> set cs. stored_cell c" "length (block_bytes cs) \<le> unat bs"
  shows "\<exists>st. cs_add_all fo zc cs (cs_create bs ct outcomes) = Inr (True, st) \<and> cs_outcomes st = outcomes
    \<and> filling zc [] cs (st\<lparr>cs_outcomes := []\<rparr>) \<and> cs_buffer st = block_bytes cs \<and> cs_outstanding st = 0"
proof -
  let ?st = "cs_create bs ct outcomes"
  have "length (cs_buffer ?st @ block_bytes cs) \<le> unat (cs_uncompressed_blocksize ?st)" using cs(3) by (simp add: cs_create_def)
  note a = cs_add_all_buffered[OF cs(2) this, of fo zc]
  show ?thesis unfolding a using cs(1,2) by (simp add: cs_create_def filling_def wrote_def trailer_clear_def)
qed

text \<open>C15. Finalizing a store of a single block leaves the buffers of the store: after the only entry of the variable index has been
  read, its key is the one recorded as split row, at the end of a buffer that was cut to its exact length.\<close>

theorem finalize_overread:
  assumes "cs \<noteq> []" and "\<forall>c \<in> set cs. stored_cell c" and "length (block_bytes cs) \<le> unat bs"
  shows "write_store fo zc [] ts cs (cs_create bs ct []) = Inl UNDEFINED_BEHAVIOUR"
proof -
  obtain st1 where 1: "cs_add_all fo zc cs (cs_create bs ct []) = Inr (True, st1)" "filling zc [] cs st1"
    using one_block[OF assms, of fo zc ct "[]"] no_outcomes by metis
  obtain st2 where 2: "finalize_data zc st1 = Inr (True, st2)" "wrote zc [cs] st2" using finalize_data_ok[OF 1(2)] assms(1) by auto
  obtain st3 where 3: "finalize_index fo zc ts st2 = (True, st3)" "cs_var st3 = cs_var st2" "cs_fix st3 = cs_fix st2" "cs_index st3 = []" "index_entries (cs_trailer st3) = 1"
    using finalize_index_ok[OF 2(2), of fo ts] by auto
  have "wf_cell (last cs)" using assms(1,2) by (auto simp: stored_cell_def)
  then have n: "length (packed (last cs)) < 2 ^ 32" by (rule length_packed)
  have v: "cs_var st3 = bs_of (packed (last cs))" "cs_fix st3 = le_split 4 (0 :: u32)" using 2(2) 3(2,3) by (simp_all add: wrote_def)
  have u: "record_split_row [] st = Inl UNDEFINED_BEHAVIOUR" for st
  proof -
    have "bs_decode_length [] = Inl UNDEFINED_BEHAVIOUR" by code_simp
    then show ?thesis by (simp add: record_split_row_def)
  qed
  have r: "rdn 4 (le_split 4 (0 :: u32)) = Inr (le_split 4 (0 :: u32), [])" by (simp add: rdn_def)
  have "index_loop (Some 0) 0 1 (cs_var st3 @ []) (cs_fix st3) st = Inl UNDEFINED_BEHAVIOUR" if "cs_index st = []" for st
    using bs_next_run[OF n, of "[]"] that u r by (simp add: v)
  then show ?thesis using 1(1) 2(1) 3 by (simp add: write_store_def cs_finalize_def finalize_trailer_def)
qed

theorem finalize_overread_witness:
  "write_store sample_floats codec_none [] timestamp_clear [sample_cell 97] (cs_create 16 0 []) = Inl UNDEFINED_BEHAVIOUR"
proof -
  have "length (block_bytes [sample_cell 97]) = 16" by code_simp
  then show ?thesis using sample_facts(2) by (intro finalize_overread) (simp_all add: sample_cells_def)
qed

text \<open>C11. A store reports success although a block is lost: the file system accepts the append of the only block and fails it
  later; the reply is never waited for, and the file holds the index and the trailer but not the cells.\<close>

theorem lost_block_unnoticed:
  assumes "cs \<noteq> []" and "\<forall>c \<in> set cs. stored_cell c" and "length (block_bytes cs) \<le> unat bs" and "readable_string mem"
  shows "\<exists>st. write_store fo zc mem ts cs (cs_create bs ct [Lost]) = Inr (True, st)
    \<and> cs_file st = fix_bytes zc [cs] @ var_bytes zc [cs] @ trailer_serialize (cs_trailer st)"
proof -
  obtain st1 where 1: "cs_add_all fo zc cs (cs_create bs ct [Lost]) = Inr (True, st1)" "cs_outcomes st1 = [Lost]" "filling zc [] cs (st1\<lparr>cs_outcomes := []\<rparr>)"
      "cs_buffer st1 = block_bytes cs" "cs_outstanding st1 = 0"
    using one_block[OF assms(1-3), of fo zc ct "[Lost]"] by blast
  then have f: "cs_file st1 = []" "cs_offset st1 = 0" "cs_var st1 = []" "cs_fix st1 = []" "index_entries (cs_trailer st1) = 0" "cs_index st1 = []" "cs_replies st1 = cs_replies st1"
    "cs_last_key st1 = length (block_bytes (butlast cs))" using assms(1) by (simp_all add: filling_def wrote_def)
  have wf: "wf_cell (last cs)" using assms(1,2) by (auto simp: stored_cell_def)
  have n: "length (packed (last cs)) < 2 ^ 32" using wf by (rule length_packed)
  have "drop (cs_last_key st1) (cs_buffer st1) = bs_of (packed (last cs)) @ bs_of (c_value (last cs))" using f(8) 1(4) block_last[OF assms(1)] by simp
  then have a: "add_index_entry (drop (cs_last_key st1) (cs_buffer st1)) (cs_offset st1) st1
      = Inr (st1\<lparr>cs_var := bs_of (packed (last cs)), cs_fix := le_split 4 (0 :: u32), cs_trailer := (cs_trailer st1)\<lparr>index_entries := 1\<rparr>\<rparr>)"
    using add_index_entry_run[OF wf] f by simp
  have d: "finalize_data zc st1 = Inr (True, st1\<lparr>cs_var := bs_of (packed (last cs)), cs_fix := le_split 4 (0 :: u32), cs_trailer := (cs_trailer st1)\<lparr>index_entries := 1\<rparr>,
      cs_sizes := cs_sizes st1 @ [(length (block_bytes cs), length (zblock zc cs))], cs_outcomes := [], cs_replies := cs_replies st1 @ [False], cs_outstanding := 1,
      cs_offset := of_nat (length (zblock zc cs))\<rparr>)"
    unfolding finalize_data_def a using 1 f assms(1)
    by (simp add: zblock_def append_throttled_def MAX_APPENDS_OUTSTANDING_def cs_append_async_def Let_def)
  have split: "\<exists>x. record_split_row mem st = Inr (st\<lparr>cs_split_row := x\<rparr>)" for st by (rule record_split_row_ok[OF assms(4)])
  have r: "rdn 4 (le_split 4 (0 :: u32)) = Inr (le_split 4 (0 :: u32), [])" by (simp add: rdn_def)
  have loop: "\<exists>x. index_loop (Some 0) 0 (Suc 0) (bs_of (packed (last cs)) @ mem) (le_split 4 (0 :: u32)) st
      = Inr (st\<lparr>cs_index := [(bs_of (packed (last cs)) @ mem, 0)], cs_split_row := x\<rparr>)" if "cs_index st = []" for st
    using bs_next_run[OF n, of mem] that split[of "st\<lparr>cs_index := [(bs_of (packed (last cs)) @ mem, 0)]\<rparr>"] r by (auto simp: le_join_split)
  let ?st2 = "st1\<lparr>cs_var := bs_of (packed (last cs)), cs_fix := le_split 4 (0 :: u32), cs_trailer := (cs_trailer st1)\<lparr>index_entries := 1\<rparr>,
      cs_sizes := cs_sizes st1 @ [(length (block_bytes cs), length (zblock zc cs))], cs_outcomes := [], cs_replies := cs_replies st1 @ [False], cs_outstanding := 1,
      cs_offset := of_nat (length (zblock zc cs))\<rparr>"
  obtain st3 where 3: "finalize_index fo zc ts ?st2 = (True, st3)" "cs_file st3 = fix_bytes zc [cs]" "cs_outcomes st3 = []" "cs_var st3 = bs_of (packed (last cs))"
      "cs_fix st3 = le_split 4 (0 :: u32)" "index_entries (cs_trailer st3) = 1" "cs_index st3 = []"
    using f by (simp add: finalize_index_def cs_append_async_def fix_bytes_def Let_def)
  let ?st3 = "st3\<lparr>cs_trailer := (cs_trailer st3)\<lparr>var_index_offset := cs_offset st3\<rparr>\<rparr>"
  obtain x where x: "index_loop (Some 0) 0 (Suc 0) (bs_of (packed (last cs)) @ mem) (le_split 4 (0 :: u32)) ?st3
      = Inr (?st3\<lparr>cs_index := [(bs_of (packed (last cs)) @ mem, 0)], cs_split_row := x\<rparr>)" using loop[of ?st3] 3(7) by auto
  show ?thesis using 1(1) d 3 x
    by (simp add: write_store_def cs_finalize_def finalize_trailer_def Let_def cs_append_sync_def cs_call_def var_bytes_def)
qed

theorem lost_block_unnoticed_witness:
  "\<exists>st. write_store sample_floats codec_none [0, 0] timestamp_clear [sample_cell 97] (cs_create 16 0 [Lost]) = Inr (True, st)
    \<and> cs_file st = fix_bytes codec_none [[sample_cell 97]] @ var_bytes codec_none [[sample_cell 97]] @ trailer_serialize (cs_trailer st)"
proof -
  have "length (block_bytes [sample_cell 97]) = 16" by code_simp
  then show ?thesis using sample_facts(2,4) by (intro lost_block_unnoticed) (simp_all add: sample_cells_def)
qed

text \<open>C16. Loading the index of a store for a range that begins behind all its rows reads through the end of the index: the search
  for the start row finds no block, and its offset is taken all the same.\<close>

theorem load_index_past_rows:
  assumes "lawful_codec (bc_deflate zc) (bc_inflate zc)" and "in_order cs" and "\<forall>c \<in> set cs. stored_cell c" and "length (block_bytes cs) < 2 ^ 32"
    and "readable_string mem" and "write_store fo zc mem ts cs (cs_create bs ct []) = Inr (True, st)" and "length (cs_file st) < 2 ^ 32"
    and "cs_file st0 = cs_file st" and "cs_outcomes st0 = []" and "0 \<notin> set srow" and "length srow < 2 ^ 31" and "\<forall>c \<in> set cs. c_row c < srow"
  shows "\<exists>st1. cs_open (Some srow) erow st0 = Inr st1 \<and> load_index zc st1 = Inl UNDEFINED_BEHAVIOUR"
proof -
  obtain bss t where w: "concat bss = cs" "keyed bss" "cs_file st = store_file zc bss t" "describes zc bss t" "store_fits zc bss"
    using write_store_ok[OF assms(2-5), of fo zc ts bs ct] assms(6,7) by auto
  let ?st1 = "st0\<lparr>cs_start_row := srow, cs_end_row := (case erow of None \<Rightarrow> END_ROW_MARKER | Some r \<Rightarrow> r), cs_file_length := of_nat (length (store_file zc bss t)), cs_trailer := t\<rparr>"
  have 1: "cs_open (Some srow) erow st0 = Inr ?st1" using cs_open_ok[OF assms(1) _ assms(9) w(4,5)] assms(8) w(3) by simp
  have n: "unat (index_entries t) = length bss" using w(4,5) unat_of_nat_small[of "length bss", where ?'a = 32] by (simp add: describes_def store_fits_def)
  let ?m = "entries bss (offsets zc 0 bss) []"
  have i: "index_loop None 0 (length bss) (last_keys bss) (concat (map (le_split 4) (offsets zc 0 bss))) (?st1\<lparr>cs_index := []\<rparr>) = Inr (?st1\<lparr>cs_index := ?m\<rparr>)"
    using w(2) index_loop_run[of bss "offsets zc 0 bss" "?st1\<lparr>cs_index := []\<rparr>" None 0 "[]"] by (cases st0) (auto simp: keyed_def keys_below_def)
  have "packed (last b) \<le> srow @ [0]" if b: "b \<in> set bss" for b
  proof -
    have "last b \<in> set b" using w(2) b by (simp add: keyed_def)
    then have "last b \<in> set (concat bss)" using b by (auto simp del: last_in_set)
    then show ?thesis using packed_vs_row_zero(2)[of "last b" srow] keyed_last[OF w(2) b] assms(10,12) w(1) by simp
  qed
  then have tw: "takeWhile (\<lambda>b. packed (last b) \<le> srow @ [0]) bss = bss" by (simp add: takeWhile_eq_all_conv)
  have ub: "ix_upper_bound (bs_of (srow @ [0])) ?m = Inr (drop (length (takeWhile (\<lambda>b. packed (last b) \<le> srow @ [0]) bss)) ?m)"
    using w(2) assms(11) by (intro ix_upper_bound_entries) simp_all
  have "ix_upper_bound (bs_of (srow @ [0])) ?m = Inr []" using ub[unfolded tw] length_entries[of "offsets zc 0 bss" bss "[]"] by simp
  then have "compute_disk_usage (?st1\<lparr>cs_index := ?m\<rparr>) = Inl UNDEFINED_BEHAVIOUR" by (simp add: compute_disk_usage_def append_as_byte_string_eq)
  moreover have "read_index zc ?st1 = Inr (concat (map (le_split 4) (offsets zc 0 bss)), last_keys bss)"
    using assms(8) w(3) by (intro read_index_ok[OF assms(1) _ _ _ w(4,5)]) simp_all
  ultimately have "load_index zc ?st1 = Inl UNDEFINED_BEHAVIOUR" using n i assms(9) by (simp add: load_index_def cs_call_def caught_def)
  then show ?thesis using 1 by blast
qed

theorem load_index_past_rows_witness:
  "\<exists>st st1. write_store sample_floats codec_none [0, 0] timestamp_clear sample_cells (cs_create 0 0 []) = Inr (True, st)
    \<and> cs_open (Some [100]) None ((cs_create 0 0 [])\<lparr>cs_file := cs_file st\<rparr>) = Inr st1 \<and> load_index codec_none st1 = Inl UNDEFINED_BEHAVIOUR"
proof -
  obtain st where st: "write_store sample_floats codec_none [0, 0] timestamp_clear sample_cells (cs_create 0 0 []) = Inr (True, st)"
    using write_store_ok[OF sample_facts, of sample_floats codec_none timestamp_clear 0 0] by blast
  have r: "0 \<notin> set [100 :: byte]" "length [100 :: byte] < 2 ^ 31" "\<forall>c \<in> set sample_cells. c_row c < [100]" by (simp_all add: sample_cells_def sample_cell_def)
  have o: "cs_outcomes ((cs_create 0 0 [])\<lparr>cs_file := cs_file st\<rparr>) = []" "cs_file ((cs_create 0 0 [])\<lparr>cs_file := cs_file st\<rparr>) = cs_file st" by (simp_all add: cs_create_def)
  show ?thesis using load_index_past_rows[OF none.lawful_codec_axioms sample_facts st sample_written[OF st] o(2,1) r, of None] st by blast
qed

lemma trailer_deserialize_total:
  assumes "length buf = 48"
  shows "\<exists>t. trailer_deserialize buf = Inr t"
  using assms by (simp add: trailer_deserialize_def trailer_size_def dbind_def dret_def decode_i32_def decode_i64_def decode_i16_def need_def rdn_def)

text \<open>Opening a store never leaves the file: whatever the file holds, the open fails with an I/O error, or gives a store whose
  trailer has the version of the code and places the two indexes in order within the file.\<close>

lemma cs_open_safe:
  assumes "length (cs_file st) < 2 ^ 64"
  shows "cs_open srow erow st = Inl LOCAL_IO_ERROR \<or> (\<exists>st'. cs_open srow erow st = Inr st' \<and> cs_file st' = cs_file st \<and> tr_version (cs_trailer st') = 0
    \<and> fix_index_offset (cs_trailer st') < var_index_offset (cs_trailer st') \<and> unat (var_index_offset (cs_trailer st')) < length (cs_file st))"
proof -
  let ?n = "of_nat (length (cs_file st)) :: u64"
  have n: "unat ?n = length (cs_file st)" using assms by (intro unat_of_nat_small) simp
  have w: "unat (of_nat trailer_size :: u64) = 48" by (simp add: trailer_size_def)
  have "\<exists>t. trailer_deserialize (take trailer_size (drop (unat (?n - of_nat trailer_size)) (cs_file st))) = Inr t" if "\<not> ?n < of_nat trailer_size"
  proof -
    have "unat (?n - of_nat trailer_size) = length (cs_file st) - 48" "48 \<le> length (cs_file st)"
      using that n w by (auto simp: word_less_nat_alt not_less intro!: trans[OF unat_sub] simp: word_le_nat_alt)
    then show ?thesis using n by (intro trailer_deserialize_total) (simp add: trailer_size_def)
  qed
  moreover have "ucast v < ?n \<Longrightarrow> unat v < length (cs_file st)" for v :: u32
    using n unat_lt2p[of v] by (simp add: word_less_nat_alt unsigned_ucast_eq take_bit_eq_mod)
  moreover have c: "cs_file (snd (cs_call s)) = cs_file s" "cs_file_length (snd (cs_call s)) = cs_file_length s" for s
    by (auto simp: cs_call_def split: list.split)
  ultimately show ?thesis
    by (cases "?n < of_nat trailer_size") (auto simp: cs_open_def Let_def case_prod_beta c)
qed

end
