(* ===== verification/CommMessages.thy ===== *)
theory CommMessages
  imports WireTypes
begin

text \<open>
  Messages of the communication layer (\<^verbatim>\<open>AsyncComm\<close>): the 16-byte header and its builder, the buffer in which a message is
  composed, the view of a received message as an event, and the error and acknowledgement replies. Shown: a message
  composed in a buffer of the announced length fills it exactly, its header carries the length of the whole message, and the
  receiver's event exposes exactly the bytes after the header.
\<close>

section \<open>Header\<close>

record header_common =
  h_version :: byte
  h_protocol :: byte
  h_flags :: byte
  h_header_len :: byte
  h_id :: u32
  h_gid :: u32
  h_total_len :: u32

definition HEADER_VERSION :: byte where "HEADER_VERSION = 1"
definition PROTOCOL_DFSBROKER :: byte where "PROTOCOL_DFSBROKER = 1"
definition PROTOCOL_HYPERSPACE :: byte where "PROTOCOL_HYPERSPACE = 2"
definition PROTOCOL_HYPERTABLE_MASTER :: byte where "PROTOCOL_HYPERTABLE_MASTER = 3"
definition PROTOCOL_HYPERTABLE_RANGESERVER :: byte where "PROTOCOL_HYPERTABLE_RANGESERVER = 4"
definition FLAGS_BIT_REQUEST :: byte where "FLAGS_BIT_REQUEST = 1"
definition FLAGS_BIT_IGNORE_RESPONSE :: byte where "FLAGS_BIT_IGNORE_RESPONSE = 2"

text \<open>The packed structure in memory, on a little-endian machine.\<close>

definition header_bytes :: "header_common \<Rightarrow> bytes" where
  "header_bytes h = [h_version h, h_protocol h, h_flags h, h_header_len h]
     @ encode_i32_memcpy (h_id h) @ encode_i32_memcpy (h_gid h) @ encode_i32_memcpy (h_total_len h)"

definition header_of :: "bytes \<Rightarrow> header_common" where
  "header_of b = \<lparr>h_version = b ! 0, h_protocol = b ! 1, h_flags = b ! 2, h_header_len = b ! 3,
     h_id = le_join (take 4 (drop 4 b)), h_gid = le_join (take 4 (drop 8 b)), h_total_len = le_join (take 4 (drop 12 b))\<rparr>"

record header_builder =
  hb_id :: u32
  hb_group_id :: u32
  hb_total_len :: u32
  hb_protocol :: byte
  hb_flags :: byte

definition header_builder_new :: "byte \<Rightarrow> u32 \<Rightarrow> header_builder" where
  "header_builder_new protocol gid = \<lparr>hb_id = 0, hb_group_id = gid, hb_total_len = 0, hb_protocol = protocol, hb_flags = 0\<rparr>"

definition initialize_from_request :: "header_common \<Rightarrow> header_builder" where
  "initialize_from_request h =
     \<lparr>hb_id = h_id h, hb_group_id = h_gid h, hb_total_len = 0, hb_protocol = h_protocol h, hb_flags = h_flags h\<rparr>"

definition hb_header_length :: nat where "hb_header_length = 16"

definition hb_header :: "header_builder \<Rightarrow> header_common" where
  "hb_header b = \<lparr>h_version = HEADER_VERSION, h_protocol = hb_protocol b, h_flags = hb_flags b, h_header_len = of_nat hb_header_length,
     h_id = hb_id b, h_gid = hb_group_id b, h_total_len = hb_total_len b\<rparr>"

section \<open>Message buffers\<close>

text \<open>\<open>cb_data\<close> is what lies before \<^verbatim>\<open>data_ptr\<close>, \<open>cb_size\<close> the allocation; writing past it is undefined.\<close>

record comm_buf =
  cb_size :: u32
  cb_data :: bytes
  cb_ext :: bytes

definition comm_buf_with :: "header_builder \<Rightarrow> u32 \<Rightarrow> bytes \<Rightarrow> comm_buf" where
  "comm_buf_with hb len buffer =
     (let len = len + of_nat hb_header_length; hb = hb\<lparr>hb_total_len := len + of_nat (length buffer)\<rparr> in
      \<lparr>cb_size = len, cb_data = header_bytes (hb_header hb), cb_ext = buffer\<rparr>)"

definition comm_buf_new :: "header_builder \<Rightarrow> u32 \<Rightarrow> comm_buf" where
  "comm_buf_new hb len = comm_buf_with hb len []"

definition cb_append :: "bytes \<Rightarrow> comm_buf \<Rightarrow> comm_buf result" where
  "cb_append bs cb =
     (if length (cb_data cb) + length bs \<le> unat (cb_size cb) then Inr (cb\<lparr>cb_data := cb_data cb @ bs\<rparr>) else Inl UNDEFINED_BEHAVIOUR)"

definition append_i16 :: "u16 \<Rightarrow> comm_buf \<Rightarrow> comm_buf result" where
  "append_i16 v = cb_append (encode_i16 v)"

definition append_i32 :: "u32 \<Rightarrow> comm_buf \<Rightarrow> comm_buf result" where
  "append_i32 v = cb_append (encode_i32 v)"

definition append_i64 :: "u64 \<Rightarrow> comm_buf \<Rightarrow> comm_buf result" where
  "append_i64 v = cb_append (encode_i64 v)"

definition append_bool :: "bool \<Rightarrow> comm_buf \<Rightarrow> comm_buf result" where
  "append_bool b = cb_append (encode_bool b)"

definition append_str16 :: "bytes \<Rightarrow> comm_buf \<Rightarrow> comm_buf result" where
  "append_str16 s = cb_append (encode_str16_cstr (Some s))"

definition append_vstr :: "cstr \<Rightarrow> comm_buf \<Rightarrow> comm_buf result" where
  "append_vstr s cb = rbind (encode_vstr_cstr s) (\<lambda>bs. cb_append bs cb)"

text \<open>\<^verbatim>\<open>reset_data_pointers\<close>, called before the buffer is sent: the bytes that go out.\<close>

definition reset_data_pointers :: "comm_buf \<Rightarrow> bytes result" where
  "reset_data_pointers cb =
     (if length (cb_data cb) = unat (cb_size cb) then Inr (cb_data cb @ cb_ext cb) else Inl FAILED_EXPECTATION)"

section \<open>Events\<close>

record event =
  ev_header :: header_common
  ev_message :: bytes
  ev_message_len :: u64
  ev_thread_group :: u64

definition event_of :: "u32 \<Rightarrow> bytes \<Rightarrow> event" where
  "event_of conn_id m =
     (let h = header_of m in
      \<lparr>ev_header = h, ev_message = drop (unat (h_header_len h)) m,
       ev_message_len = ucast (h_total_len h - ucast (h_header_len h)),
       ev_thread_group = (if h_gid h \<noteq> 0 then push_bit 32 (ucast conn_id) OR ucast (h_gid h) else 0)\<rparr>)"

definition create_error_message :: "header_builder \<Rightarrow> u32 \<Rightarrow> bytes \<Rightarrow> comm_buf result" where
  "create_error_message hb err msg =
     rbind (append_i32 err (comm_buf_new hb (of_nat (4 + encoded_length_str16 (Some msg))))) (append_str16 msg)"

text \<open>The two replies of a \<^verbatim>\<open>ResponseCallback\<close> to the request with header \<open>h\<close>; an empty \<^verbatim>\<open>String\<close> is a string, never a null pointer.\<close>

definition callback_error :: "header_common \<Rightarrow> u32 \<Rightarrow> bytes \<Rightarrow> comm_buf result" where
  "callback_error h err msg = create_error_message (initialize_from_request h) err msg"

definition response_ok :: "header_common \<Rightarrow> comm_buf result" where
  "response_ok h = append_i32 0 (comm_buf_new (initialize_from_request h) 4)"

section \<open>Composing and receiving\<close>

lemma length_header_bytes [simp]: "length (header_bytes h) = 16"
  by (simp add: header_bytes_def encode_memcpy_eq)

lemma header_of_bytes: "header_of (header_bytes h @ rest) = h"
proof -
  have b: "header_bytes h = [h_version h, h_protocol h, h_flags h, h_header_len h]
     @ le_split 4 (h_id h) @ le_split 4 (h_gid h) @ le_split 4 (h_total_len h)"
    by (simp add: header_bytes_def encode_memcpy_eq encode_i32_le_split)
  have l: "\<And>w :: u32. length (le_split 4 w) = 4" by simp
  have j: "\<And>w :: u32. le_join (le_split 4 w) = w" by (simp add: le_join_split)
  show ?thesis unfolding header_of_def b by (simp add: l j)
qed

text \<open>A buffer for \<open>n\<close> bytes in which the bytes \<open>pay\<close> have been written.\<close>

definition composed :: "header_builder \<Rightarrow> nat \<Rightarrow> bytes \<Rightarrow> bytes \<Rightarrow> comm_buf" where
  "composed hb n ext pay = (comm_buf_with hb (of_nat n) ext)\<lparr>cb_data :=
     header_bytes (hb_header (hb\<lparr>hb_total_len := of_nat n + of_nat hb_header_length + of_nat (length ext)\<rparr>)) @ pay\<rparr>"

lemma composed_new: "comm_buf_with hb (of_nat n) ext = composed hb n ext []"
  "comm_buf_new hb (of_nat n) = composed hb n [] []"
  by (simp_all add: composed_def comm_buf_with_def comm_buf_new_def Let_def)

lemma composed_append:
  "length pay + length bs \<le> n \<Longrightarrow> n + 16 < 2 ^ 32 \<Longrightarrow> cb_append bs (composed hb n ext pay) = Inr (composed hb n ext (pay @ bs))"
proof -
  assume a: "length pay + length bs \<le> n" "n + 16 < 2 ^ 32"
  have "unat (of_nat n + of_nat hb_header_length :: u32) = n + 16"
    using unat_of_nat_small[of "n + 16", where 'a = 32] a(2) by (simp add: hb_header_length_def)
  with a(1) show ?thesis by (simp add: cb_append_def composed_def comm_buf_with_def Let_def)
qed

lemma composed_received:
  assumes "length pay = n" and "n + length ext + 16 < 2 ^ 32"
  shows "\<exists>m. reset_data_pointers (composed hb n ext pay) = Inr m \<and> length m = n + length ext + 16
    \<and> (\<forall>cid. ev_header (event_of cid m) = hb_header (hb\<lparr>hb_total_len := of_nat (length m)\<rparr>)
    \<and> ev_message (event_of cid m) = pay @ ext \<and> ev_message_len (event_of cid m) = of_nat (length (pay @ ext)))"
proof -
  have s: "unat (of_nat n + of_nat hb_header_length :: u32) = n + 16"
    using unat_of_nat_small[of "n + 16", where 'a = 32] assms(2) by (simp add: hb_header_length_def)
  let ?h = "hb_header (hb\<lparr>hb_total_len := of_nat n + of_nat hb_header_length + of_nat (length ext)\<rparr>)"
  let ?m = "header_bytes ?h @ pay @ ext"
  have r: "reset_data_pointers (composed hb n ext pay) = Inr ?m"
    using s assms(1) by (simp add: reset_data_pointers_def composed_def comm_buf_with_def Let_def)
  have h: "header_of ?m = ?h" using header_of_bytes[of ?h "pay @ ext"] by simp
  have l: "h_header_len ?h = 16" "h_total_len ?h = of_nat (n + length ext + 16)"
    by (simp_all add: hb_header_def hb_header_length_def)
  have u: "unat (of_nat (n + length ext) :: u32) = n + length ext"
    by (rule unat_of_nat_small) (use assms(2) in simp)
  have "(of_nat (n + length ext + 16) :: u32) - ucast (16 :: byte) = of_nat (n + length ext)" by simp
  moreover have "(ucast (of_nat (n + length ext) :: u32) :: u64) = of_nat (n + length ext)"
    using of_nat_unat[of "of_nat (n + length ext) :: u32", where 'a = "64 word"] unfolding u by (rule sym)
  ultimately have "\<And>cid. ev_message_len (event_of cid ?m) = of_nat (n + length ext)"
    by (simp add: event_of_def Let_def h l del: of_nat_add)
  moreover have "\<And>cid. ev_message (event_of cid ?m) = pay @ ext"
    by (simp add: event_of_def Let_def h l)
  moreover have "\<And>cid. ev_header (event_of cid ?m) = hb_header (hb\<lparr>hb_total_len := of_nat (length ?m)\<rparr>)"
    by (simp add: event_of_def Let_def header_of_bytes assms(1) hb_header_length_def algebra_simps)
  ultimately show ?thesis using r assms(1) by (intro exI[of _ ?m]) simp
qed

section \<open>Request handlers\<close>

text \<open>A handler decodes the message after its 16-bit command code and then either calls the server with the arguments or
  replies with an error code; \<open>code\<close> says which code the handler reports for a failure.\<close>

datatype 'c outcome = Call 'c | Reply error

definition run_handler :: "(error \<Rightarrow> error) \<Rightarrow> 'c decoder \<Rightarrow> event \<Rightarrow> 'c outcome result" where
  "run_handler code d e =
     (case d (drop 2 (ev_message e), ev_message_len e - 2) of
        Inr (c, _) \<Rightarrow> Inr (Call c)
      | Inl x \<Rightarrow> if x = UNDEFINED_BEHAVIOUR then Inl x else Inr (Reply (code x)))"

text \<open>A decoded str16 used as a C string.\<close>

definition decode_str16_c :: "bytes decoder" where
  "decode_str16_c = dbind decode_str16 (\<lambda>(s, len) (ip, r).
     if 0 \<in> set s then Inr (cstr_at s, ip, r) else Inl UNDEFINED_BEHAVIOUR)"

definition derr :: "error \<Rightarrow> 'a decoder" where
  "derr e = (\<lambda>_. Inl e)"

text \<open>\<open>reads d x bs\<close>: in front of anything, with a counter that covers them, \<open>d\<close> reads exactly the bytes \<open>bs\<close> as \<open>x\<close>.\<close>

definition reads :: "'a decoder \<Rightarrow> 'a \<Rightarrow> bytes \<Rightarrow> bool" where
  "reads d x bs \<longleftrightarrow> (\<forall>r rest. length bs \<le> unat r \<longrightarrow> d (bs @ rest, r) = Inr (x, rest, r - of_nat (length bs)))"

lemma readsD: "reads d x bs \<Longrightarrow> length bs \<le> unat r \<Longrightarrow> d (bs @ rest, r) = Inr (x, rest, r - of_nat (length bs))"
  by (simp add: reads_def)

lemma decodes_reads: "decodes d x bs \<Longrightarrow> reads d x bs"
  by (auto simp: reads_def decodesD)

lemma reads_dret: "reads (dret x) x []"
  by (simp add: reads_def)

lemma reads_dbind:
  assumes d: "reads d x b1" and f: "reads (f x) y b2"
  shows "reads (dbind d f) y (b1 @ b2)"
  unfolding reads_def
proof (intro allI impI)
  fix r :: u64 and rest
  assume l: "length (b1 @ b2) \<le> unat r"
  then have u: "unat (r - of_nat (length b1)) = unat r - length b1" by (intro unat_minus_of_nat) simp
  show "dbind d f ((b1 @ b2) @ rest, r) = Inr (y, rest, r - of_nat (length (b1 @ b2)))"
    using l u by (simp add: dbind_apply readsD[OF d] readsD[OF f] diff_diff_eq)
qed

lemma reads_last: "reads d x bs \<Longrightarrow> f x = dret y \<Longrightarrow> reads (dbind d f) y bs"
  using reads_dbind[of d x bs f y "[]"] reads_dret by force

lemma reads_fixed:
  "reads decode_i16 a (encode_i16 a)" "reads decode_i32 b (encode_i32 b)" "reads decode_i64 c (encode_i64 c)"
  "reads decode_bool e (encode_bool e)"
  by (simp_all add: decodes_reads i16.enc_decodes i32.enc_decodes i64.enc_decodes bool.enc_decodes)

lemma reads_str16:
  assumes "0 \<notin> set s" "length s < 2 ^ 16"
  shows "reads decode_str16_c s (encode_str16_cstr (Some s))"
  unfolding reads_def
proof (intro allI impI)
  fix r :: u64 and rest
  have n: "unat (of_nat (length s) :: u16) = length s" by (rule unat_of_nat_small) (use assms(2) in simp)
  have e: "encode_str16_cstr (Some s) = encode_i16 (of_nat (length s)) @ s @ [0]"
    by (simp add: encode_str16_cstr_def encode_str16_def n)
  assume "length (encode_str16_cstr (Some s)) \<le> unat r"
  then have r: "length (encode_i16 (of_nat (length s) :: u16)) \<le> unat r" by (simp add: e)
  have "(ucast (of_nat (length s) :: u16) :: u64) = of_nat (length s)"
    using of_nat_unat[of "of_nat (length s) :: u16", where 'a = "64 word"] unfolding n by (rule sym)
  then show "decode_str16_c (encode_str16_cstr (Some s) @ rest, r) = Inr (s, rest, r - of_nat (length (encode_str16_cstr (Some s))))"
    using readsD[OF reads_fixed(1) r, of "s @ 0 # rest"] assms(1)
    by (simp add: decode_str16_c_def decode_str16_def dbind_apply e n advance_def cstr_at_append algebra_simps)
qed

lemma run_handler_reads:
  assumes "reads d x bs" "ev_message e = encode_i16 c @ bs @ rest" "ev_message_len e = of_nat (length (ev_message e))"
    and "length (ev_message e) < 2 ^ 32"
  shows "run_handler code d e = Inr (Call x)"
proof -
  have "length (encode_i16 c) = 2" by simp
  then have m: "drop 2 (ev_message e) = bs @ rest" "length (ev_message e) = 2 + length (bs @ rest)" using assms(2) by simp_all
  have l: "ev_message_len e - 2 = of_nat (length (bs @ rest))" using assms(3) m(2) by simp
  have "length bs \<le> unat (ev_message_len e - 2)"
    unfolding l by (subst unat_of_nat_small) (use assms(4) m(2) in simp_all)
  then show ?thesis using readsD[OF assms(1)] by (simp add: run_handler_def m(1))
qed

section \<open>Protocols\<close>

fun appends :: "bytes list \<Rightarrow> comm_buf \<Rightarrow> comm_buf result" where
  "appends [] cb = Inr cb"
| "appends (b # bs) cb = rbind (cb_append b cb) (appends bs)"

lemma appends_eqs: "appends [] = Inr" "appends (b # bs) = (\<lambda>cb. rbind (cb_append b cb) (appends bs))"
  by (simp_all add: fun_eq_iff)

lemma composed_appends:
  "length (pay @ concat bss) \<le> n \<Longrightarrow> n + 16 < 2 ^ 32 \<Longrightarrow>
    appends bss (composed hb n ext pay) = Inr (composed hb n ext (pay @ concat bss))"
  by (induction bss arbitrary: pay) (simp_all add: composed_append)

lemmas request_defs = append_i16_def append_i32_def append_i64_def append_bool_def append_str16_def comm_buf_new_def
  appends_eqs rbind_Inr_right

text \<open>The request \<open>b\<close>, when it is sent, makes the server that handles messages by \<open>handle\<close> carry out \<open>x\<close>.\<close>

definition sends :: "(event \<Rightarrow> 'c outcome result) \<Rightarrow> comm_buf result \<Rightarrow> 'c \<Rightarrow> bool" where
  "sends handle b x \<longleftrightarrow> (\<exists>m. rbind b reset_data_pointers = Inr m \<and> (\<forall>cid. handle (event_of cid m) = Inr (Call x)))"

text \<open>An event that carries the message \<open>pay\<close>.\<close>

definition carries :: "event \<Rightarrow> bytes \<Rightarrow> bool" where
  "carries e pay \<longleftrightarrow> ev_message e = pay \<and> ev_message_len e = of_nat (length pay) \<and> length pay < 2 ^ 32"

lemma carries_command:
  assumes "carries e (encode_i16 c @ rest)"
  shows "decode_i16 (ev_message e, ev_message_len e) = Inr (c, rest, of_nat (length rest))"
proof -
  have "unat (ev_message_len e) = length (encode_i16 c @ rest)"
    using assms unat_of_nat_small[of "length (encode_i16 c @ rest)", where 'a = 64] by (simp add: carries_def)
  then show ?thesis using readsD[OF reads_fixed(1), of c "ev_message_len e" rest] assms by (simp add: carries_def)
qed

lemma carries_run_handler:
  assumes "carries e (encode_i16 c @ bs @ rest)" "reads d x bs"
  shows "run_handler code d e = Inr (Call x)"
  by (rule run_handler_reads[OF assms(2), of e c rest]) (use assms(1) in \<open>simp_all add: carries_def\<close>)

text \<open>
  A server of a protocol: it looks up the handler of the command at the start of a message and runs it. Every request
  composed for the protocol reaches the handler of its command with exactly the bytes that were appended.
\<close>

locale request_protocol =
  fixes handle :: "event \<Rightarrow> 'c outcome result"
    and handler :: "u16 \<Rightarrow> (event \<Rightarrow> 'c outcome result) option"
  assumes dispatch: "handler c = Some h \<Longrightarrow> carries e (encode_i16 c @ rest) \<Longrightarrow> handle e = h e"
begin

lemma delivered:
  assumes h: "handler c = Some h"
    and b: "b = appends (encode_i16 c # bss) (comm_buf_with hb (of_nat n) ext)"
    and n: "length (concat bss) + 2 = n" "n + length ext + 16 < 2 ^ 32"
    and x: "\<And>e. carries e (encode_i16 c @ concat bss @ ext) \<Longrightarrow> h e = Inr (Call x)"
  shows "sends handle b x"
proof -
  let ?pay = "encode_i16 c @ concat bss"
  have "b = Inr (composed hb n ext ?pay)"
    unfolding b composed_new using composed_appends[of "[]" "encode_i16 c # bss" n hb ext] n by simp
  moreover obtain m where "reset_data_pointers (composed hb n ext ?pay) = Inr m"
    "\<And>cid. ev_message (event_of cid m) = ?pay @ ext \<and> ev_message_len (event_of cid m) = of_nat (length (?pay @ ext))"
    using composed_received[of ?pay n ext hb] n by auto
  moreover have "handle (event_of cid m) = Inr (Call x)" for cid
  proof -
    have "carries (event_of cid m) (encode_i16 c @ concat bss @ ext)" using calculation(3)[of cid] n by (simp add: carries_def)
    then show ?thesis using dispatch[OF h] x by simp
  qed
  ultimately show ?thesis by (simp add: sends_def)
qed

end

lemma length_str16 [simp]: "length s < 2 ^ 16 \<Longrightarrow> length (encode_str16_cstr (Some s)) = length s + 3"
proof -
  assume "length s < 2 ^ 16"
  then have "unat (of_nat (length s) :: u16) = length s" by (intro unat_of_nat_small) simp
  then show ?thesis by (simp add: encode_str16_cstr_def encode_str16_def)
qed

definition name_ok :: "bytes \<Rightarrow> bool" where
  "name_ok s \<longleftrightarrow> 0 \<notin> set s \<and> length s < 2 ^ 16"

lemma reads_name: "name_ok s \<Longrightarrow> reads decode_str16_c s (encode_str16_cstr (Some s))"
  by (simp add: name_ok_def reads_str16)

text \<open>A structure written by its own encoder at the data pointer of a buffer, and a sequence of such fields.\<close>

definition cb_encode :: "bytes result \<Rightarrow> comm_buf \<Rightarrow> comm_buf result" where
  "cb_encode e cb = rbind e (\<lambda>bs. cb_append bs cb)"

fun encodes :: "bytes result list \<Rightarrow> comm_buf \<Rightarrow> comm_buf result" where
  "encodes [] cb = Inr cb"
| "encodes (e # es) cb = rbind (cb_encode e cb) (encodes es)"

lemma encodes_eqs: "encodes [] = Inr" "encodes (e # es) = (\<lambda>cb. rbind (cb_encode e cb) (encodes es))"
  by (simp_all add: fun_eq_iff)

lemma encodes_Inr: "encodes (map Inr bss) = appends bss"
proof (induction bss)
  case (Cons b bss)
  then show ?case by (intro ext) (simp add: cb_encode_def)
qed (simp add: fun_eq_iff)

lemma append_encode: "append_i16 a = cb_encode (Inr (encode_i16 a))" "append_i32 b = cb_encode (Inr (encode_i32 b))"
  "append_i64 c = cb_encode (Inr (encode_i64 c))" "append_bool d = cb_encode (Inr (encode_bool d))"
  "append_str16 s = cb_encode (Inr (encode_str16_cstr (Some s)))" "append_vstr t = cb_encode (encode_vstr_cstr t)"
  by (simp_all add: fun_eq_iff cb_encode_def append_i16_def append_i32_def append_i64_def append_bool_def append_str16_def append_vstr_def)

text \<open>\<open>msg_fields es n d x\<close>: the fields \<open>es\<close> take \<open>n\<close> bytes, which the decoder \<open>d\<close> of a handler reads as \<open>x\<close>.\<close>

definition msg_fields :: "bytes result list \<Rightarrow> nat \<Rightarrow> 'a decoder \<Rightarrow> 'a \<Rightarrow> bool" where
  "msg_fields es n d x \<longleftrightarrow> (\<exists>bss. es = map Inr bss \<and> length (concat bss) = n \<and> reads d x (concat bss))"

lemma msg_fields_Nil: "d = dret x \<Longrightarrow> msg_fields [] 0 d x"
  by (simp add: msg_fields_def reads_dret)

lemma msg_fields_reads:
  assumes "reads d x bs" "msg_fields es n (f x) y"
  shows "msg_fields (Inr bs # es) (length bs + n) (dbind d f) y"
proof -
  obtain bss where "es = map Inr bss" "length (concat bss) = n" "reads (f x) y (concat bss)" using assms(2) by (auto simp: msg_fields_def)
  then show ?thesis unfolding msg_fields_def using reads_dbind[of d x bs f y "concat bss"] assms(1) by (intro exI[of _ "bs # bss"]) auto
qed

lemma msg_fields_writes:
  assumes "writes e l d x" "msg_fields es n (f x) y"
  shows "msg_fields (e # es) (l + n) (dbind d f) y"
proof -
  obtain bs where "e = Inr bs" "length bs = l" "reads d x bs" using assms(1) by (auto simp: writes_def dest: decodes_reads)
  then show ?thesis using msg_fields_reads[of d x bs es n f y] assms(2) by blast
qed

text \<open>What a structure loses on the wire: a null string arrives as an empty one.\<close>

lemma table_field [wire_reads]: "msg_fields es n (f (table_identifier_norm t)) y \<Longrightarrow> table_identifier_ok t \<Longrightarrow>
    msg_fields (encode_table_identifier t # es) (table_identifier_encoded_length t + n) (dbind decode_table_identifier f) y"
  by (rule msg_fields_writes[OF tid.writes_valid])

lemma range_field [wire_reads]: "msg_fields es n (f (range_spec_norm r)) y \<Longrightarrow> range_spec_ok r \<Longrightarrow>
    msg_fields (encode_range_spec r # es) (range_spec_encoded_length r + n) (dbind decode_range_spec f) y"
  by (rule msg_fields_writes[OF rspec.writes_valid])

lemma state_field [wire_reads]: "msg_fields es n (f (range_state_norm s)) y \<Longrightarrow> range_state_ok s \<Longrightarrow>
    msg_fields (encode_range_state s # es) (range_state_encoded_length s + n) (dbind decode_range_state f) y"
  by (rule msg_fields_writes[OF rstate.writes_valid])

lemma scan_field [wire_reads]: "msg_fields es n (f (scan_spec_norm s)) y \<Longrightarrow> scan_spec_ok s \<Longrightarrow>
    msg_fields (encode_scan_spec s # es) (scan_spec_encoded_length s + n) (dbind (decode_scan_spec scan_spec_new) f) y"
  by (rule msg_fields_writes[OF sspec.writes_valid])

lemma name_field [wire_reads]:
  assumes "msg_fields es n (f s) y" "name_ok s"
  shows "msg_fields (Inr (encode_str16_cstr (Some s)) # es) (encoded_length_str16 (Some s) + n) (dbind decode_str16_c f) y"
proof -
  have e: "encoded_length_str16 (Some s) = length (encode_str16_cstr (Some s))" using assms(2) by (simp add: name_ok_def encoded_length_str16_def)
  show ?thesis unfolding e by (rule msg_fields_reads[OF reads_name[OF assms(2)]]) (rule assms(1))
qed

lemma i16_field [wire_reads]:
  assumes "msg_fields es n (f a) y"
  shows "msg_fields (Inr (encode_i16 a) # es) (2 + n) (dbind decode_i16 f) y"
proof -
  have e: "2 = length (encode_i16 a)" by simp
  show ?thesis unfolding e by (rule msg_fields_reads[OF reads_fixed(1)]) (rule assms)
qed

lemma i32_field [wire_reads]: "msg_fields es n (f a) y \<Longrightarrow> msg_fields (Inr (encode_i32 a) # es) (4 + n) (dbind decode_i32 f) y"
  by (rule msg_fields_writes[OF writes_fixed(3)])

lemma i64_field [wire_reads]: "msg_fields es n (f a) y \<Longrightarrow> msg_fields (Inr (encode_i64 a) # es) (8 + n) (dbind decode_i64 f) y"
  by (rule msg_fields_writes[OF writes_fixed(4)])

lemma bool_field [wire_reads]: "msg_fields es n (f a) y \<Longrightarrow> msg_fields (Inr (encode_bool a) # es) (1 + n) (dbind decode_bool f) y"
  by (rule msg_fields_writes[OF writes_fixed(2)])

lemma cstr_field [wire_reads]: "msg_fields es n (f (cstr_norm s)) y \<Longrightarrow> cstr_ok s \<Longrightarrow>
    msg_fields (encode_vstr_cstr s # es) (encoded_length_vstr_cstr s + n) (dbind decode_vstr_cstr f) y"
  by (rule msg_fields_writes[OF writes_cstr])

lemmas msg_fields_done [wire_reads] = msg_fields_Nil [OF refl]
lemmas request_fields = encodes_eqs append_encode rbind_Inr_right

lemma msg_fields_cat:
  assumes "msg_fields es n d x" "msg_fields es' n' (f x) y"
  shows "msg_fields (es @ es') (n + n') (dbind d f) y"
proof -
  obtain bss where "es = map Inr bss" "length (concat bss) = n" "reads d x (concat bss)" using assms(1) by (auto simp: msg_fields_def)
  moreover obtain bss' where "es' = map Inr bss'" "length (concat bss') = n'" "reads (f x) y (concat bss')"
    using assms(2) by (auto simp: msg_fields_def)
  ultimately show ?thesis
    unfolding msg_fields_def using reads_dbind[of d x "concat bss" f y "concat bss'"] by (intro exI[of _ "bss @ bss'"]) auto
qed

lemma msg_fields_each:
  assumes "\<And>x. x \<in> set xs \<Longrightarrow> msg_fields (e x) (l x) d (g x)"
  shows "msg_fields (concat (map e xs)) (sum_list (map l xs)) (decode_each (length xs) d) (map g xs)"
  using assms
proof (induction xs)
  case Nil
  show ?case unfolding decode_each.simps list.map list.size concat.simps sum_list.Nil by (rule msg_fields_done)
next
  case (Cons x xs)
  have r: "msg_fields (concat (map e xs)) (sum_list (map l xs)) (dbind (decode_each (length xs) d) (\<lambda>ys. dret (g x # ys))) (map g (x # xs))"
    using msg_fields_cat[OF Cons.IH, of "[]" 0 "\<lambda>ys. dret (g x # ys)"] msg_fields_done Cons.prems by fastforce
  have "msg_fields (e x @ concat (map e xs)) (l x + sum_list (map l xs))
      (dbind d (\<lambda>x. dbind (decode_each (length xs) d) (\<lambda>xs. dret (x # xs)))) (map g (x # xs))"
    by (rule msg_fields_cat[where f = "\<lambda>x. dbind (decode_each (length xs) d) (\<lambda>xs. dret (x # xs))"]) (use Cons.prems r in simp_all)
  then show ?case by simp
qed

text \<open>A buffer that is too small or too large for what is written into it.\<close>

lemma composed_overflow:
  assumes "n < length (pay @ concat bss)" "length pay \<le> n" "n + 16 < 2 ^ 32"
  shows "appends bss (composed hb n ext pay) = Inl UNDEFINED_BEHAVIOUR"
  using assms
proof (induction bss arbitrary: pay)
  case (Cons b bss)
  show ?case
  proof (cases "length pay + length b \<le> n")
    case True
    then show ?thesis using Cons.IH[of "pay @ b"] Cons.prems by (simp add: composed_append)
  next
    case False
    have "unat (of_nat n + of_nat hb_header_length :: u32) = n + 16"
      using unat_of_nat_small[of "n + 16", where 'a = 32] Cons.prems(3) by (simp add: hb_header_length_def)
    with False show ?thesis by (simp add: cb_append_def composed_def comm_buf_with_def Let_def)
  qed
qed simp

lemma composed_underflow:
  assumes "length pay < n" "n + 16 < 2 ^ 32"
  shows "reset_data_pointers (composed hb n ext pay) = Inl FAILED_EXPECTATION"
proof -
  have "unat (of_nat n + of_nat hb_header_length :: u32) = n + 16"
    using unat_of_nat_small[of "n + 16", where 'a = 32] assms(2) by (simp add: hb_header_length_def)
  with assms(1) show ?thesis by (simp add: reset_data_pointers_def composed_def comm_buf_with_def Let_def)
qed

lemma decode_command_length: "decode_i16 (ev_message e, ev_message_len e) = Inr p \<Longrightarrow> 2 \<le> unat (ev_message_len e)"
  by (auto simp: decode_i16_def need_def word_less_nat_alt split: if_splits)

text \<open>A handler whose decoder is checked reads nothing outside a message that is as long as the event says.\<close>

lemma run_handler_safe:
  assumes "checked_decoder d" "unat (ev_message_len e) \<le> length (ev_message e)" "2 \<le> unat (ev_message_len e)"
  shows "run_handler code d e \<noteq> Inl UNDEFINED_BEHAVIOUR"
proof -
  have "unat (ev_message_len e - 2) = unat (ev_message_len e) - 2"
    using unat_minus_of_nat[of 2 "ev_message_len e"] assms(3) by simp
  then have "unat (ev_message_len e - 2) \<le> length (drop 2 (ev_message e))" using assms(2) by simp
  then show ?thesis
    using checked_decoder.never_undefined[OF assms(1)] by (auto simp: run_handler_def split: sum.splits)
qed

context request_protocol
begin

lemma request_delivered:
  assumes "handler c = Some h" and "h = run_handler code d" and "msg_fields es m d x"
    and "b = rbind (append_i16 c (comm_buf_new hb (of_nat n))) g" and "g = encodes es" and "n = 2 + m" and "n + 16 < 2 ^ 32"
  shows "sends handle b x"
proof -
  obtain bss where f: "es = map Inr bss" "length (concat bss) = m" "reads d x (concat bss)" using assms(3) by (auto simp: msg_fields_def)
  show ?thesis
  proof (rule delivered[OF assms(1)])
    show "b = appends (encode_i16 c # bss) (comm_buf_with hb (of_nat n) [])"
      using f(1) assms(4,5) by (simp add: append_i16_def encodes_Inr comm_buf_new_def)
    fix e
    assume "carries e (encode_i16 c @ concat bss @ [])"
    then show "h e = Inr (Call x)" using carries_run_handler[of e c "concat bss" "[]", OF _ f(3)] assms(2) by simp
  qed (use f assms in simp_all)
qed

end

section \<open>Replies\<close>

text \<open>C26. A reply is never composed wrongly: the error reply to a request, of any code and any message text that fits the 16-bit
  length of the wire format, fills its buffer exactly, and the client that receives it finds the id, group and protocol of its
  request in the header, the total length in the header, the code in the first field and the text in the second; an
  acknowledgement carries code zero and nothing else.\<close>

theorem replies_delivered:
  assumes "name_ok msg"
  shows "\<exists>m k. rbind (callback_error h err msg) reset_data_pointers = Inr m \<and> rbind (response_ok h) reset_data_pointers = Inr k \<and>
    (\<forall>cid. let e = event_of cid m; a = event_of cid k in
      h_id (ev_header e) = h_id h \<and> h_gid (ev_header e) = h_gid h \<and> h_protocol (ev_header e) = h_protocol h
      \<and> unat (h_total_len (ev_header e)) = length m
      \<and> dbind decode_i32 (\<lambda>code. dbind decode_str16_c (\<lambda>s. dret (code, s))) (ev_message e, ev_message_len e) = Inr ((err, msg), [], 0)
      \<and> h_id (ev_header a) = h_id h \<and> decode_i32 (ev_message a, ev_message_len a) = Inr (0, [], 0))"
proof -
  let ?hb = "initialize_from_request h" and ?n = "4 + encoded_length_str16 (Some msg)"
  let ?pay = "encode_i32 err @ encode_str16_cstr (Some msg)"
  have l: "length msg < 2 ^ 16" using assms by (simp add: name_ok_def)
  have n: "length ?pay = ?n" "?n + 16 < 2 ^ 32" using l by (simp_all add: encoded_length_str16_def)
  have "callback_error h err msg = appends [encode_i32 err, encode_str16_cstr (Some msg)] (comm_buf_with ?hb (of_nat ?n) [])"
    by (simp add: callback_error_def create_error_message_def request_defs)
  then have e: "callback_error h err msg = Inr (composed ?hb ?n [] ?pay)"
    unfolding composed_new using composed_appends[of "[]" "[encode_i32 err, encode_str16_cstr (Some msg)]" ?n ?hb "[]"] n by simp
  have k: "response_ok h = Inr (composed ?hb 4 [] (encode_i32 0))"
    using composed_append[of "[]" "encode_i32 0" 4 ?hb "[]"] composed_new(2)[of ?hb 4]
    by (simp add: response_ok_def append_i32_def)
  obtain m where m: "reset_data_pointers (composed ?hb ?n [] ?pay) = Inr m" "length m = ?n + 16"
    "\<And>cid. ev_header (event_of cid m) = hb_header (?hb\<lparr>hb_total_len := of_nat (length m)\<rparr>)"
    "\<And>cid. ev_message (event_of cid m) = ?pay" "\<And>cid. ev_message_len (event_of cid m) = of_nat (length ?pay)"
    using composed_received[of ?pay ?n "[]" ?hb] n by auto
  obtain a where a: "reset_data_pointers (composed ?hb 4 [] (encode_i32 0)) = Inr a"
    "\<And>cid. ev_header (event_of cid a) = hb_header (?hb\<lparr>hb_total_len := of_nat (length a)\<rparr>)"
    "\<And>cid. ev_message (event_of cid a) = encode_i32 0" "\<And>cid. ev_message_len (event_of cid a) = 4"
    using composed_received[of "encode_i32 0" 4 "[]" ?hb] by auto
  have "reads (dbind decode_i32 (\<lambda>code. dbind decode_str16_c (\<lambda>s. dret (code, s)))) (err, msg) ?pay"
    by (intro reads_dbind[OF reads_fixed(2)] reads_last[OF reads_name[OF assms]]) simp
  moreover have "length ?pay \<le> unat (of_nat (length ?pay) :: u64)" by (subst unat_of_nat_small) (use n in simp_all)
  ultimately have d: "dbind decode_i32 (\<lambda>code. dbind decode_str16_c (\<lambda>s. dret (code, s))) (?pay, of_nat (length ?pay)) = Inr ((err, msg), [], 0)"
    using readsD[where rest = "[]"] by fastforce
  have "unat (of_nat (length m) :: u32) = length m" by (rule unat_of_nat_small) (use m(2) n in simp)
  moreover have "decode_i32 (encode_i32 0, 4) = Inr (0, [], 0)" using readsD[OF reads_fixed(2), of 0 4 "[]"] by simp
  ultimately show ?thesis using e k m a d
    by (intro exI[of _ m] exI[of _ a]) (simp add: Let_def hb_header_def initialize_from_request_def)
qed

theorem replies_delivered_witness:
  "name_ok [0x6e, 0x6f] \<and> (\<exists>m. rbind (callback_error \<lparr>h_version = 1, h_protocol = 2, h_flags = 1, h_header_len = 16, h_id = 77, h_gid = 5,
      h_total_len = 20\<rparr> 9 [0x6e, 0x6f]) reset_data_pointers = Inr m \<and> h_id (ev_header (event_of 3 m)) = 77)"
proof -
  have n: "name_ok [0x6e, 0x6f]" by (simp add: name_ok_def)
  show ?thesis
    using replies_delivered[OF n, of "\<lparr>h_version = 1, h_protocol = 2, h_flags = 1, h_header_len = 16, h_id = 77, h_gid = 5, h_total_len = 20\<rparr>" 9] n
    by (auto simp: Let_def)
qed

end
