(* ===== verification/DfsProtocol.thy ===== *)
theory DfsProtocol
  imports CommMessages
begin

text \<open>
  The protocol of the file system broker: the requests a client composes (\<^verbatim>\<open>DfsBroker/Lib/Protocol.cc\<close>), the dispatch of a
  received message and the request handlers of the broker (\<^verbatim>\<open>ConnectionHandler.cc\<close>, \<^verbatim>\<open>RequestHandler*.cc\<close>). Shown: every
  request, composed, sent and dispatched, calls the broker operation it names with the arguments it was given.
\<close>

section \<open>Commands\<close>

definition COMMAND_OPEN :: u16 where "COMMAND_OPEN = 0"
definition COMMAND_CREATE :: u16 where "COMMAND_CREATE = 1"
definition COMMAND_CLOSE :: u16 where "COMMAND_CLOSE = 2"
definition COMMAND_READ :: u16 where "COMMAND_READ = 3"
definition COMMAND_APPEND :: u16 where "COMMAND_APPEND = 4"
definition COMMAND_SEEK :: u16 where "COMMAND_SEEK = 5"
definition COMMAND_REMOVE :: u16 where "COMMAND_REMOVE = 6"
definition COMMAND_SHUTDOWN :: u16 where "COMMAND_SHUTDOWN = 7"
definition COMMAND_LENGTH :: u16 where "COMMAND_LENGTH = 8"
definition COMMAND_PREAD :: u16 where "COMMAND_PREAD = 9"
definition COMMAND_MKDIRS :: u16 where "COMMAND_MKDIRS = 10"
definition COMMAND_STATUS :: u16 where "COMMAND_STATUS = 11"
definition COMMAND_FLUSH :: u16 where "COMMAND_FLUSH = 12"
definition COMMAND_RMDIR :: u16 where "COMMAND_RMDIR = 13"
definition COMMAND_READDIR :: u16 where "COMMAND_READDIR = 14"
definition COMMAND_EXISTS :: u16 where "COMMAND_EXISTS = 15"
definition COMMAND_RENAME :: u16 where "COMMAND_RENAME = 16"
definition COMMAND_MAX :: u16 where "COMMAND_MAX = 17"
definition SHUTDOWN_FLAG_IMMEDIATE :: u16 where "SHUTDOWN_FLAG_IMMEDIATE = 1"

lemmas COMMAND_defs = COMMAND_OPEN_def COMMAND_CREATE_def COMMAND_CLOSE_def COMMAND_READ_def COMMAND_APPEND_def COMMAND_SEEK_def
  COMMAND_REMOVE_def COMMAND_SHUTDOWN_def COMMAND_LENGTH_def COMMAND_PREAD_def COMMAND_MKDIRS_def COMMAND_STATUS_def
  COMMAND_FLUSH_def COMMAND_RMDIR_def COMMAND_READDIR_def COMMAND_EXISTS_def COMMAND_RENAME_def COMMAND_MAX_def

section \<open>Requests\<close>

definition dfs_buf :: "u32 \<Rightarrow> nat \<Rightarrow> comm_buf" where
  "dfs_buf gid len = comm_buf_new (header_builder_new PROTOCOL_DFSBROKER gid) (of_nat len)"

definition create_open_request :: "bytes \<Rightarrow> u32 \<Rightarrow> comm_buf result" where
  "create_open_request fname bufsz =
     rbind (append_i16 COMMAND_OPEN (dfs_buf 0 (6 + encoded_length_str16 (Some fname)))) (\<lambda>cb.
     rbind (append_i32 bufsz cb) (append_str16 fname))"

definition create_create_request :: "bytes \<Rightarrow> bool \<Rightarrow> u32 \<Rightarrow> u32 \<Rightarrow> u64 \<Rightarrow> comm_buf result" where
  "create_create_request fname overwrite bufsz replication blksz =
     rbind (append_i16 COMMAND_CREATE (dfs_buf 0 (20 + encoded_length_str16 (Some fname)))) (\<lambda>cb.
     rbind (append_i16 (if overwrite then 1 else 0) cb) (\<lambda>cb.
     rbind (append_i32 replication cb) (\<lambda>cb.
     rbind (append_i32 bufsz cb) (\<lambda>cb.
     rbind (append_i64 blksz cb) (append_str16 fname)))))"

definition create_close_request :: "u32 \<Rightarrow> comm_buf result" where
  "create_close_request fd = rbind (append_i16 COMMAND_CLOSE (dfs_buf fd 6)) (append_i32 fd)"

definition create_read_request :: "u32 \<Rightarrow> u32 \<Rightarrow> comm_buf result" where
  "create_read_request fd amount =
     rbind (append_i16 COMMAND_READ (dfs_buf fd 10)) (\<lambda>cb. rbind (append_i32 fd cb) (append_i32 amount))"

definition create_append_request :: "u32 \<Rightarrow> bytes \<Rightarrow> bool \<Rightarrow> comm_buf result" where
  "create_append_request fd buffer flush =
     rbind (append_i16 COMMAND_APPEND (comm_buf_with (header_builder_new PROTOCOL_DFSBROKER fd) (of_nat 11) buffer)) (\<lambda>cb.
     rbind (append_i32 fd cb) (\<lambda>cb.
     rbind (append_i32 (of_nat (length buffer)) cb) (append_bool flush)))"

definition create_seek_request :: "u32 \<Rightarrow> u64 \<Rightarrow> comm_buf result" where
  "create_seek_request fd offset =
     rbind (append_i16 COMMAND_SEEK (dfs_buf fd 14)) (\<lambda>cb. rbind (append_i32 fd cb) (append_i64 offset))"

definition create_remove_request :: "bytes \<Rightarrow> comm_buf result" where
  "create_remove_request fname =
     rbind (append_i16 COMMAND_REMOVE (dfs_buf 0 (2 + encoded_length_str16 (Some fname)))) (append_str16 fname)"

definition create_length_request :: "bytes \<Rightarrow> comm_buf result" where
  "create_length_request fname =
     rbind (append_i16 COMMAND_LENGTH (dfs_buf 0 (2 + encoded_length_str16 (Some fname)))) (append_str16 fname)"

definition create_position_read_request :: "u32 \<Rightarrow> u64 \<Rightarrow> u32 \<Rightarrow> comm_buf result" where
  "create_position_read_request fd offset amount =
     rbind (append_i16 COMMAND_PREAD (dfs_buf fd 18)) (\<lambda>cb.
     rbind (append_i32 fd cb) (\<lambda>cb. rbind (append_i64 offset cb) (append_i32 amount)))"

definition create_mkdirs_request :: "bytes \<Rightarrow> comm_buf result" where
  "create_mkdirs_request fname =
     rbind (append_i16 COMMAND_MKDIRS (dfs_buf 0 (2 + encoded_length_str16 (Some fname)))) (append_str16 fname)"

definition create_flush_request :: "u32 \<Rightarrow> comm_buf result" where
  "create_flush_request fd = rbind (append_i16 COMMAND_FLUSH (dfs_buf fd 6)) (append_i32 fd)"

definition create_rmdir_request :: "bytes \<Rightarrow> comm_buf result" where
  "create_rmdir_request fname =
     rbind (append_i16 COMMAND_RMDIR (dfs_buf 0 (2 + encoded_length_str16 (Some fname)))) (append_str16 fname)"

definition create_readdir_request :: "bytes \<Rightarrow> comm_buf result" where
  "create_readdir_request fname =
     rbind (append_i16 COMMAND_READDIR (dfs_buf 0 (2 + encoded_length_str16 (Some fname)))) (append_str16 fname)"

definition create_shutdown_request :: "u16 \<Rightarrow> comm_buf result" where
  "create_shutdown_request flags = rbind (append_i16 COMMAND_SHUTDOWN (dfs_buf 0 4)) (append_i16 flags)"

definition create_status_request :: "comm_buf result" where
  "create_status_request = append_i16 COMMAND_STATUS (dfs_buf 0 2)"

definition create_exists_request :: "bytes \<Rightarrow> comm_buf result" where
  "create_exists_request fname =
     rbind (append_i16 COMMAND_EXISTS (dfs_buf 0 (2 + encoded_length_str16 (Some fname)))) (append_str16 fname)"

definition create_rename_request :: "bytes \<Rightarrow> bytes \<Rightarrow> comm_buf result" where
  "create_rename_request src dst =
     rbind (append_i16 COMMAND_RENAME (dfs_buf 0 (2 + encoded_length_str16 (Some src) + encoded_length_str16 (Some dst)))) (\<lambda>cb.
     rbind (append_str16 src cb) (append_str16 dst))"

section \<open>Handlers\<close>

text \<open>The operations of the broker.\<close>

datatype broker_call =
    Broker_open bytes u32
  | Broker_create bytes bool u32 u16 u64
  | Broker_close u32
  | Broker_read u32 u32
  | Broker_append u32 u32 bytes bool
  | Broker_seek u32 u64
  | Broker_remove bytes
  | Broker_length bytes
  | Broker_pread u32 u64 u32
  | Broker_mkdirs bytes
  | Broker_flush u32
  | Broker_rmdir bytes
  | Broker_readdir bytes
  | Broker_exists bytes
  | Broker_rename bytes bytes
  | Broker_status
  | Broker_shutdown bool

text \<open>\<^verbatim>\<open>fname[strlen(fname)-1] == '/'\<close>. For the empty name the byte before the string is read: the high byte of its announced length, which is
  zero.\<close>

definition bad_filename :: "bytes \<Rightarrow> bool" where
  "bad_filename fname \<longleftrightarrow> fname \<noteq> [] \<and> last fname = 0x2f"

definition handle_open :: "event \<Rightarrow> broker_call outcome result" where
  "handle_open = run_handler (\<lambda>x. x) (dbind decode_i32 (\<lambda>bufsz. dbind decode_str16_c (\<lambda>fname.
     if bad_filename fname then derr DFSBROKER_BAD_FILENAME else dret (Broker_open fname bufsz))))"

definition handle_create :: "event \<Rightarrow> broker_call outcome result" where
  "handle_create = run_handler (\<lambda>x. x) (dbind decode_i16 (\<lambda>overwrite. dbind decode_i32 (\<lambda>replication.
     dbind decode_i32 (\<lambda>bufsz. dbind decode_i64 (\<lambda>blksz. dbind decode_str16_c (\<lambda>fname.
     if bad_filename fname then derr DFSBROKER_BAD_FILENAME
     else dret (Broker_create fname (overwrite \<noteq> 0) bufsz (ucast replication) blksz)))))))"

definition handle_close :: "event \<Rightarrow> broker_call outcome result" where
  "handle_close = run_handler (\<lambda>_. PROTOCOL_ERROR) (dbind decode_i32 (\<lambda>fd. dret (Broker_close fd)))"

definition handle_read :: "event \<Rightarrow> broker_call outcome result" where
  "handle_read = run_handler (\<lambda>x. x) (dbind decode_i32 (\<lambda>fd. dbind decode_i32 (\<lambda>amount. dret (Broker_read fd amount))))"

definition handle_append :: "event \<Rightarrow> broker_call outcome result" where
  "handle_append = run_handler (\<lambda>x. x) (dbind decode_i32 (\<lambda>fd. dbind decode_i32 (\<lambda>amount. dbind decode_bool (\<lambda>flush (ip, r).
     if r < ucast amount then Inl SERIALIZATION_INPUT_OVERRUN
     else rbind (rdn (unat amount) ip) (\<lambda>(b, _). Inr (Broker_append fd amount b flush, ip, r))))))"

definition handle_seek :: "event \<Rightarrow> broker_call outcome result" where
  "handle_seek = run_handler (\<lambda>x. x) (dbind decode_i32 (\<lambda>fd. dbind decode_i64 (\<lambda>offset. dret (Broker_seek fd offset))))"

definition handle_remove :: "event \<Rightarrow> broker_call outcome result" where
  "handle_remove = run_handler (\<lambda>x. x) (dbind decode_str16_c (\<lambda>fname. dret (Broker_remove fname)))"

definition handle_length :: "event \<Rightarrow> broker_call outcome result" where
  "handle_length = run_handler (\<lambda>x. x) (dbind decode_str16_c (\<lambda>fname. dret (Broker_length fname)))"

definition handle_pread :: "event \<Rightarrow> broker_call outcome result" where
  "handle_pread = run_handler (\<lambda>x. x) (dbind decode_i32 (\<lambda>fd. dbind decode_i64 (\<lambda>offset. dbind decode_i32 (\<lambda>amount.
     dret (Broker_pread fd offset amount)))))"

definition handle_mkdirs :: "event \<Rightarrow> broker_call outcome result" where
  "handle_mkdirs = run_handler (\<lambda>x. x) (dbind decode_str16_c (\<lambda>dname. dret (Broker_mkdirs dname)))"

definition handle_flush :: "event \<Rightarrow> broker_call outcome result" where
  "handle_flush = run_handler (\<lambda>x. x) (dbind decode_i32 (\<lambda>fd. dret (Broker_flush fd)))"

definition handle_rmdir :: "event \<Rightarrow> broker_call outcome result" where
  "handle_rmdir = run_handler (\<lambda>x. x) (dbind decode_str16_c (\<lambda>dname. dret (Broker_rmdir dname)))"

definition handle_readdir :: "event \<Rightarrow> broker_call outcome result" where
  "handle_readdir = run_handler (\<lambda>x. x) (dbind decode_str16_c (\<lambda>dname. dret (Broker_readdir dname)))"

definition handle_exists :: "event \<Rightarrow> broker_call outcome result" where
  "handle_exists = run_handler (\<lambda>_. PROTOCOL_ERROR) (dbind decode_str16_c (\<lambda>fname. dret (Broker_exists fname)))"

definition handle_rename :: "event \<Rightarrow> broker_call outcome result" where
  "handle_rename = run_handler (\<lambda>x. x) (dbind decode_str16_c (\<lambda>src. dbind decode_str16_c (\<lambda>dst. dret (Broker_rename src dst))))"

definition handle_status :: "event \<Rightarrow> broker_call outcome result" where
  "handle_status e = Inr (Call Broker_status)"

definition handle_shutdown :: "event \<Rightarrow> broker_call outcome result" where
  "handle_shutdown e =
     (if ev_message_len e \<ge> 4
      then rbind (rdn 2 (drop 2 (ev_message e))) (\<lambda>(b, _). Inr (Call (Broker_shutdown (le_join b AND SHUTDOWN_FLAG_IMMEDIATE \<noteq> 0))))
      else Inr (Call (Broker_shutdown False)))"

text \<open>\<^verbatim>\<open>ConnectionHandler::handle\<close> for a message: the table of its switch, and the function. The handlers run on the application
  queue.\<close>

definition dfs_handler :: "u16 \<Rightarrow> (event \<Rightarrow> broker_call outcome result) option" where
  "dfs_handler command =
     (if command = COMMAND_OPEN then Some handle_open
      else if command = COMMAND_CREATE then Some handle_create
      else if command = COMMAND_CLOSE then Some handle_close
      else if command = COMMAND_READ then Some handle_read
      else if command = COMMAND_APPEND then Some handle_append
      else if command = COMMAND_SEEK then Some handle_seek
      else if command = COMMAND_REMOVE then Some handle_remove
      else if command = COMMAND_LENGTH then Some handle_length
      else if command = COMMAND_PREAD then Some handle_pread
      else if command = COMMAND_MKDIRS then Some handle_mkdirs
      else if command = COMMAND_FLUSH then Some handle_flush
      else if command = COMMAND_RMDIR then Some handle_rmdir
      else if command = COMMAND_READDIR then Some handle_readdir
      else if command = COMMAND_EXISTS then Some handle_exists
      else if command = COMMAND_RENAME then Some handle_rename
      else if command = COMMAND_STATUS then Some handle_status
      else if command = COMMAND_SHUTDOWN then Some handle_shutdown
      else None)"

definition dfs_handle :: "event \<Rightarrow> broker_call outcome result" where
  "dfs_handle e =
     (case decode_i16 (ev_message e, ev_message_len e) of
        Inl x \<Rightarrow> if x = UNDEFINED_BEHAVIOUR then Inl x else Inr (Reply PROTOCOL_ERROR)
      | Inr (command, _) \<Rightarrow>
        if sint command < 0 \<or> sint command \<ge> sint COMMAND_MAX then Inr (Reply PROTOCOL_ERROR)
        else (case dfs_handler command of None \<Rightarrow> Inr (Reply PROTOCOL_ERROR) | Some h \<Rightarrow> h e))"

section \<open>Agreement\<close>

interpretation dfs: request_protocol dfs_handle dfs_handler
proof
  fix c h e rest
  assume h: "dfs_handler c = Some h" and e: "carries e (encode_i16 c @ rest)"
  from h have "c \<in> {0, 1, 2, 3, 4, 5, 6, 7, 8, 9, 10, 11, 12, 13, 14, 15, 16}"
    by (auto simp: dfs_handler_def COMMAND_defs split: if_splits)
  then have "\<not> (sint c < 0 \<or> sint c \<ge> sint COMMAND_MAX)" by (auto simp: COMMAND_MAX_def)
  then show "dfs_handle e = h e" using carries_command[OF e] h by (simp add: dfs_handle_def)
qed

lemmas dfs_request_defs = request_defs dfs_buf_def

lemma dfs_sends_name:
  assumes "dfs_handler c = Some (run_handler code (dbind decode_str16_c (\<lambda>s. dret (f s))))" "name_ok s"
  shows "sends dfs_handle (rbind (append_i16 c (dfs_buf 0 (2 + encoded_length_str16 (Some s)))) (append_str16 s)) (f s)"
proof (rule dfs.delivered[OF assms(1)])
  show "rbind (append_i16 c (dfs_buf 0 (2 + encoded_length_str16 (Some s)))) (append_str16 s) =
    appends (encode_i16 c # [encode_str16_cstr (Some s)])
      (comm_buf_with (header_builder_new PROTOCOL_DFSBROKER 0) (of_nat (2 + encoded_length_str16 (Some s))) [])"
    by (simp add: dfs_request_defs)
  fix e assume "carries e (encode_i16 c @ concat [encode_str16_cstr (Some s)] @ [])"
  then show "run_handler code (dbind decode_str16_c (\<lambda>s. dret (f s))) e = Inr (Call (f s))"
    by (intro carries_run_handler[of e c "encode_str16_cstr (Some s)" "[]"] reads_last[OF reads_name[OF assms(2)]]) simp_all
qed (use assms(2) in \<open>simp_all add: name_ok_def encoded_length_str16_def\<close>)

lemma dfs_sends_fd:
  assumes "dfs_handler c = Some (run_handler code (dbind decode_i32 (\<lambda>fd. dret (f fd))))"
  shows "sends dfs_handle (rbind (append_i16 c (dfs_buf fd 6)) (append_i32 fd)) (f fd)"
proof (rule dfs.delivered[OF assms])
  show "rbind (append_i16 c (dfs_buf fd 6)) (append_i32 fd) =
    appends (encode_i16 c # [encode_i32 fd]) (comm_buf_with (header_builder_new PROTOCOL_DFSBROKER fd) (of_nat 6) [])"
    by (simp add: dfs_request_defs)
  fix e assume "carries e (encode_i16 c @ concat [encode_i32 fd] @ [])"
  then show "run_handler code (dbind decode_i32 (\<lambda>fd. dret (f fd))) e = Inr (Call (f fd))"
    by (intro carries_run_handler[of e c "encode_i32 fd" "[]"] reads_last[OF reads_fixed(2)]) simp_all
qed simp_all

lemma dfs_sends_fd2:
  assumes "dfs_handler c = Some (run_handler code (dbind decode_i32 (\<lambda>fd. dbind d (\<lambda>x. dret (f fd x)))))"
    and "reads d x bs" "length bs + 6 = n" "n < 100"
  shows "sends dfs_handle (rbind (append_i16 c (dfs_buf fd n)) (\<lambda>cb. rbind (append_i32 fd cb) (cb_append bs))) (f fd x)"
proof (rule dfs.delivered[OF assms(1)])
  show "rbind (append_i16 c (dfs_buf fd n)) (\<lambda>cb. rbind (append_i32 fd cb) (cb_append bs)) =
    appends (encode_i16 c # [encode_i32 fd, bs]) (comm_buf_with (header_builder_new PROTOCOL_DFSBROKER fd) (of_nat n) [])"
    by (simp add: dfs_request_defs)
  fix e assume "carries e (encode_i16 c @ concat [encode_i32 fd, bs] @ [])"
  then show "run_handler code (dbind decode_i32 (\<lambda>fd. dbind d (\<lambda>x. dret (f fd x)))) e = Inr (Call (f fd x))"
    by (intro carries_run_handler[of e c "encode_i32 fd @ bs" "[]"] reads_dbind[OF reads_fixed(2)] reads_last[OF assms(2)]) simp_all
qed (use assms(3,4) in simp_all)

lemma dfs_sends_open:
  assumes "name_ok fname" "\<not> bad_filename fname"
  shows "sends dfs_handle (create_open_request fname bufsz) (Broker_open fname bufsz)"
proof (rule dfs.delivered)
  show "dfs_handler COMMAND_OPEN = Some handle_open" by (simp add: dfs_handler_def)
  show "create_open_request fname bufsz = appends (encode_i16 COMMAND_OPEN # [encode_i32 bufsz, encode_str16_cstr (Some fname)])
    (comm_buf_with (header_builder_new PROTOCOL_DFSBROKER 0) (of_nat (6 + encoded_length_str16 (Some fname))) [])"
    by (simp add: create_open_request_def dfs_request_defs)
  fix e
  assume e: "carries e (encode_i16 COMMAND_OPEN @ concat [encode_i32 bufsz, encode_str16_cstr (Some fname)] @ [])"
  have "reads (dbind decode_i32 (\<lambda>bufsz. dbind decode_str16_c (\<lambda>fname.
     if bad_filename fname then derr DFSBROKER_BAD_FILENAME else dret (Broker_open fname bufsz)))) (Broker_open fname bufsz)
     (encode_i32 bufsz @ encode_str16_cstr (Some fname))"
    using assms by (intro reads_dbind[OF reads_fixed(2)] reads_last[OF reads_name]) simp_all
  with e show "handle_open e = Inr (Call (Broker_open fname bufsz))"
    using carries_run_handler[of e COMMAND_OPEN _ "[]"] by (simp add: handle_open_def)
qed (use assms in \<open>simp_all add: name_ok_def encoded_length_str16_def\<close>)

lemma dfs_sends_create:
  assumes "name_ok fname" "\<not> bad_filename fname"
  shows "sends dfs_handle (create_create_request fname overwrite bufsz replication blksz)
    (Broker_create fname overwrite bufsz (ucast replication) blksz)"
proof (rule dfs.delivered)
  let ?bss = "[encode_i16 (if overwrite then 1 else 0), encode_i32 replication, encode_i32 bufsz, encode_i64 blksz, encode_str16_cstr (Some fname)]"
  show "dfs_handler COMMAND_CREATE = Some handle_create" by (simp add: dfs_handler_def COMMAND_defs)
  show "create_create_request fname overwrite bufsz replication blksz = appends (encode_i16 COMMAND_CREATE # ?bss)
    (comm_buf_with (header_builder_new PROTOCOL_DFSBROKER 0) (of_nat (20 + encoded_length_str16 (Some fname))) [])"
    by (simp add: create_create_request_def dfs_request_defs)
  fix e
  assume e: "carries e (encode_i16 COMMAND_CREATE @ concat ?bss @ [])"
  have "reads (dbind decode_i16 (\<lambda>overwrite. dbind decode_i32 (\<lambda>replication. dbind decode_i32 (\<lambda>bufsz. dbind decode_i64 (\<lambda>blksz.
     dbind decode_str16_c (\<lambda>fname. if bad_filename fname then derr DFSBROKER_BAD_FILENAME
     else dret (Broker_create fname (overwrite \<noteq> 0) bufsz (ucast replication) blksz)))))))
     (Broker_create fname overwrite bufsz (ucast replication) blksz)
     (encode_i16 (if overwrite then 1 else 0) @ encode_i32 replication @ encode_i32 bufsz @ encode_i64 blksz @ encode_str16_cstr (Some fname))"
    using assms
    by (intro reads_dbind[OF reads_fixed(1)] reads_dbind[OF reads_fixed(2)] reads_dbind[OF reads_fixed(3)] reads_last[OF reads_name]) simp_all
  with e show "handle_create e = Inr (Call (Broker_create fname overwrite bufsz (ucast replication) blksz))"
    using carries_run_handler[of e COMMAND_CREATE _ "[]"] by (simp add: handle_create_def)
qed (use assms in \<open>simp_all add: name_ok_def encoded_length_str16_def\<close>)

lemma dfs_sends_append:
  assumes "length buffer + 27 < 2 ^ 32"
  shows "sends dfs_handle (create_append_request fd buffer flush) (Broker_append fd (of_nat (length buffer)) buffer flush)"
proof (rule dfs.delivered)
  let ?bss = "[encode_i32 fd, encode_i32 (of_nat (length buffer)), encode_bool flush]"
  show "dfs_handler COMMAND_APPEND = Some handle_append" by (simp add: dfs_handler_def COMMAND_defs)
  show "create_append_request fd buffer flush = appends (encode_i16 COMMAND_APPEND # ?bss)
    (comm_buf_with (header_builder_new PROTOCOL_DFSBROKER fd) (of_nat 11) buffer)"
    by (simp add: create_append_request_def request_defs)
  fix e
  assume e: "carries e (encode_i16 COMMAND_APPEND @ concat ?bss @ buffer)"
  let ?hd = "encode_i32 fd @ encode_i32 (of_nat (length buffer)) @ encode_bool flush"
  have m: "drop 2 (ev_message e) = ?hd @ buffer" "ev_message_len e - 2 = of_nat (length (?hd @ buffer))"
    using e by (simp_all add: carries_def)
  have u: "unat (of_nat (length buffer) :: u32) = length buffer" by (rule unat_of_nat_small) (use assms in simp)
  have w: "(ucast (of_nat (length buffer) :: u32) :: u64) = of_nat (length buffer)"
    using of_nat_unat[of "of_nat (length buffer) :: u32", where 'a = "64 word"] unfolding u by (rule sym)
  have "length ?hd \<le> unat (of_nat (length (?hd @ buffer)) :: u64)"
    by (subst unat_of_nat_small) (use assms in simp_all)
  moreover have "reads (dbind decode_i32 (\<lambda>fd. dbind decode_i32 (\<lambda>amount. dbind decode_bool (\<lambda>flush. dret (fd, amount, flush)))))
      (fd, of_nat (length buffer), flush) ?hd"
    by (intro reads_dbind[OF reads_fixed(2)] reads_last[OF reads_fixed(4)]) simp
  ultimately have "dbind decode_i32 (\<lambda>fd. dbind decode_i32 (\<lambda>amount. dbind decode_bool (\<lambda>flush. dret (fd, amount, flush))))
      (?hd @ buffer, of_nat (length (?hd @ buffer))) = Inr ((fd, of_nat (length buffer), flush), buffer, of_nat (length buffer))"
    by (subst readsD) simp_all
  then have "\<exists>c1 c2. decode_i32 (?hd @ buffer, of_nat (length (?hd @ buffer))) = Inr (fd, c1)
      \<and> decode_i32 c1 = Inr (of_nat (length buffer), c2) \<and> decode_bool c2 = Inr (flush, buffer, of_nat (length buffer))"
    by (auto simp: dbind_def rbind_eq_Inr_iff dret_def split: prod.splits)
  then show "handle_append e = Inr (Call (Broker_append fd (of_nat (length buffer)) buffer flush))"
    by (auto simp: handle_append_def run_handler_def m dbind_def u w rdn_def simp del: append_assoc)
qed (use assms in simp_all)

lemma dfs_sends_rename:
  assumes "name_ok src" "name_ok dst"
  shows "sends dfs_handle (create_rename_request src dst) (Broker_rename src dst)"
proof (rule dfs.delivered)
  let ?bss = "[encode_str16_cstr (Some src), encode_str16_cstr (Some dst)]"
  show "dfs_handler COMMAND_RENAME = Some handle_rename" by (simp add: dfs_handler_def COMMAND_defs)
  show "create_rename_request src dst = appends (encode_i16 COMMAND_RENAME # ?bss) (comm_buf_with
    (header_builder_new PROTOCOL_DFSBROKER 0) (of_nat (2 + encoded_length_str16 (Some src) + encoded_length_str16 (Some dst))) [])"
    by (simp add: create_rename_request_def dfs_request_defs)
  fix e
  assume "carries e (encode_i16 COMMAND_RENAME @ concat ?bss @ [])"
  then show "handle_rename e = Inr (Call (Broker_rename src dst))" unfolding handle_rename_def
    by (intro carries_run_handler[of e COMMAND_RENAME "encode_str16_cstr (Some src) @ encode_str16_cstr (Some dst)" "[]"]
        reads_dbind[OF reads_name[OF assms(1)]] reads_last[OF reads_name[OF assms(2)]]) simp_all
qed (use assms in \<open>simp_all add: name_ok_def encoded_length_str16_def\<close>)

lemma dfs_sends_pread:
  "sends dfs_handle (create_position_read_request fd offset amount) (Broker_pread fd offset amount)"
proof (rule dfs.delivered)
  let ?bss = "[encode_i32 fd, encode_i64 offset, encode_i32 amount]"
  show "dfs_handler COMMAND_PREAD = Some handle_pread" by (simp add: dfs_handler_def COMMAND_defs)
  show "create_position_read_request fd offset amount = appends (encode_i16 COMMAND_PREAD # ?bss)
    (comm_buf_with (header_builder_new PROTOCOL_DFSBROKER fd) (of_nat 18) [])"
    by (simp add: create_position_read_request_def dfs_request_defs)
  fix e
  assume "carries e (encode_i16 COMMAND_PREAD @ concat ?bss @ [])"
  then show "handle_pread e = Inr (Call (Broker_pread fd offset amount))" unfolding handle_pread_def
    by (intro carries_run_handler[of e COMMAND_PREAD "encode_i32 fd @ encode_i64 offset @ encode_i32 amount" "[]"]
        reads_dbind[OF reads_fixed(2)] reads_dbind[OF reads_fixed(3)] reads_last[OF reads_fixed(2)]) simp_all
qed simp_all

lemma dfs_sends_shutdown:
  "sends dfs_handle (create_shutdown_request flags) (Broker_shutdown (flags AND SHUTDOWN_FLAG_IMMEDIATE \<noteq> 0))"
proof (rule dfs.delivered)
  show "dfs_handler COMMAND_SHUTDOWN = Some handle_shutdown" by (simp add: dfs_handler_def COMMAND_defs)
  show "create_shutdown_request flags = appends (encode_i16 COMMAND_SHUTDOWN # [encode_i16 flags])
    (comm_buf_with (header_builder_new PROTOCOL_DFSBROKER 0) (of_nat 4) [])"
    by (simp add: create_shutdown_request_def dfs_request_defs)
  fix e
  assume "carries e (encode_i16 COMMAND_SHUTDOWN @ concat [encode_i16 flags] @ [])"
  then have "ev_message_len e = 4" "drop 2 (ev_message e) = encode_i16 flags" by (simp_all add: carries_def)
  moreover have "le_join (encode_i16 flags) = flags" by (simp add: encode_i16_le_split le_join_split)
  ultimately show "handle_shutdown e = Inr (Call (Broker_shutdown (flags AND SHUTDOWN_FLAG_IMMEDIATE \<noteq> 0)))"
    by (simp add: handle_shutdown_def rdn_def)
qed simp_all

lemma dfs_sends_status: "sends dfs_handle create_status_request Broker_status"
proof (rule dfs.delivered)
  show "dfs_handler COMMAND_STATUS = Some handle_status" by (simp add: dfs_handler_def COMMAND_defs)
  show "create_status_request = appends (encode_i16 COMMAND_STATUS # []) (comm_buf_with (header_builder_new PROTOCOL_DFSBROKER 0) (of_nat 2) [])"
    by (simp add: create_status_request_def dfs_request_defs)
qed (simp_all add: handle_status_def)



end
