(* ===== verification/RangeProtocol.thy ===== *)
theory RangeProtocol
  imports CommMessages
begin

text \<open>
  The protocol of the range server: the requests a client composes (\<^verbatim>\<open>Hypertable/Lib/RangeServerProtocol.cc\<close>), the dispatch of a
  received message and the request handlers (\<^verbatim>\<open>ConnectionHandler.cc\<close>, \<^verbatim>\<open>RequestHandler*.cc\<close> of \<^verbatim>\<open>Hypertable/RangeServer\<close>). Shown: every
  request, composed, sent and dispatched, calls the operation of the server it names with the arguments it was given, and
  which messages cannot make a handler read outside the message.
\<close>

section \<open>Commands\<close>

definition RS_LOAD_RANGE :: u16 where "RS_LOAD_RANGE = 0"
definition RS_UPDATE :: u16 where "RS_UPDATE = 1"
definition RS_CREATE_SCANNER :: u16 where "RS_CREATE_SCANNER = 2"
definition RS_FETCH_SCANBLOCK :: u16 where "RS_FETCH_SCANBLOCK = 3"
definition RS_COMPACT :: u16 where "RS_COMPACT = 4"
definition RS_STATUS :: u16 where "RS_STATUS = 5"
definition RS_SHUTDOWN :: u16 where "RS_SHUTDOWN = 6"
definition RS_DUMP_STATS :: u16 where "RS_DUMP_STATS = 7"
definition RS_DESTROY_SCANNER :: u16 where "RS_DESTROY_SCANNER = 8"
definition RS_DROP_TABLE :: u16 where "RS_DROP_TABLE = 9"
definition RS_DROP_RANGE :: u16 where "RS_DROP_RANGE = 10"
definition RS_REPLAY_BEGIN :: u16 where "RS_REPLAY_BEGIN = 11"
definition RS_REPLAY_LOAD_RANGE :: u16 where "RS_REPLAY_LOAD_RANGE = 12"
definition RS_REPLAY_UPDATE :: u16 where "RS_REPLAY_UPDATE = 13"
definition RS_REPLAY_COMMIT :: u16 where "RS_REPLAY_COMMIT = 14"
definition RS_GET_STATISTICS :: u16 where "RS_GET_STATISTICS = 15"
definition RS_COMMAND_MAX :: u16 where "RS_COMMAND_MAX = 16"

lemmas RS_defs = RS_LOAD_RANGE_def RS_UPDATE_def RS_CREATE_SCANNER_def RS_FETCH_SCANBLOCK_def RS_COMPACT_def RS_STATUS_def
  RS_SHUTDOWN_def RS_DUMP_STATS_def RS_DESTROY_SCANNER_def RS_DROP_TABLE_def RS_DROP_RANGE_def RS_REPLAY_BEGIN_def
  RS_REPLAY_LOAD_RANGE_def RS_REPLAY_UPDATE_def RS_REPLAY_COMMIT_def RS_GET_STATISTICS_def RS_COMMAND_MAX_def

definition rs_command_text :: "u16 \<Rightarrow> string" where
  "rs_command_text command =
     (if sint command < 0 \<or> sint command \<ge> sint RS_COMMAND_MAX then ''UNKNOWN''
      else [''load range'', ''update'', ''create scanner'', ''fetch scanblock'', ''compact'', ''status'', ''shutdown'', ''dump stats'',
        ''destroy scanner'', ''drop table'', ''drop range'', ''replay begin'', ''replay load range'', ''replay update'', ''replay commit'',
        ''get statistics''] ! unat command)"

section \<open>Requests\<close>

definition rs_buf :: "u32 \<Rightarrow> nat \<Rightarrow> comm_buf" where
  "rs_buf gid len = comm_buf_new (header_builder_new PROTOCOL_HYPERTABLE_RANGESERVER gid) (of_nat len)"

definition rs_request_load_range :: "table_identifier \<Rightarrow> range_spec \<Rightarrow> bytes \<Rightarrow> range_state \<Rightarrow> comm_buf result" where
  "rs_request_load_range table rng logdir range_state =
     rbind (append_i16 RS_LOAD_RANGE (rs_buf 0 (2 + table_identifier_encoded_length table + range_spec_encoded_length rng
       + encoded_length_str16 (Some logdir) + range_state_encoded_length range_state))) (\<lambda>cb.
     rbind (cb_encode (encode_table_identifier table) cb) (\<lambda>cb.
     rbind (cb_encode (encode_range_spec rng) cb) (\<lambda>cb.
     rbind (append_str16 logdir cb) (cb_encode (encode_range_state range_state)))))"

definition rs_request_update :: "table_identifier \<Rightarrow> bytes \<Rightarrow> comm_buf result" where
  "rs_request_update table buffer =
     rbind (append_i16 RS_UPDATE (comm_buf_with (header_builder_new PROTOCOL_HYPERTABLE_RANGESERVER 0)
       (of_nat (2 + table_identifier_encoded_length table)) buffer)) (cb_encode (encode_table_identifier table))"

definition rs_request_create_scanner :: "table_identifier \<Rightarrow> range_spec \<Rightarrow> scan_spec \<Rightarrow> comm_buf result" where
  "rs_request_create_scanner table rng spec =
     rbind (append_i16 RS_CREATE_SCANNER (rs_buf 0 (2 + table_identifier_encoded_length table + range_spec_encoded_length rng
       + scan_spec_encoded_length spec))) (\<lambda>cb.
     rbind (cb_encode (encode_table_identifier table) cb) (\<lambda>cb.
     rbind (cb_encode (encode_range_spec rng) cb) (cb_encode (encode_scan_spec spec))))"

definition rs_request_destroy_scanner :: "u32 \<Rightarrow> comm_buf result" where
  "rs_request_destroy_scanner scanner_id = rbind (append_i16 RS_DESTROY_SCANNER (rs_buf scanner_id 6)) (append_i32 scanner_id)"

definition rs_request_fetch_scanblock :: "u32 \<Rightarrow> comm_buf result" where
  "rs_request_fetch_scanblock scanner_id = rbind (append_i16 RS_FETCH_SCANBLOCK (rs_buf scanner_id 6)) (append_i32 scanner_id)"

definition rs_request_drop_table :: "table_identifier \<Rightarrow> comm_buf result" where
  "rs_request_drop_table table =
     rbind (append_i16 RS_DROP_TABLE (rs_buf 0 (2 + table_identifier_encoded_length table))) (cb_encode (encode_table_identifier table))"

definition rs_request_status :: "comm_buf result" where
  "rs_request_status = append_i16 RS_STATUS (rs_buf 0 2)"

definition rs_request_shutdown :: "comm_buf result" where
  "rs_request_shutdown = append_i16 RS_SHUTDOWN (rs_buf 0 2)"

definition rs_request_dump_stats :: "comm_buf result" where
  "rs_request_dump_stats = append_i16 RS_DUMP_STATS (rs_buf 0 2)"

definition rs_request_replay_begin :: "u16 \<Rightarrow> comm_buf result" where
  "rs_request_replay_begin grp = rbind (append_i16 RS_REPLAY_BEGIN (rs_buf 0 4)) (append_i16 grp)"

definition rs_request_replay_load_range :: "table_identifier \<Rightarrow> range_spec \<Rightarrow> range_state \<Rightarrow> comm_buf result" where
  "rs_request_replay_load_range table rng range_state =
     rbind (append_i16 RS_REPLAY_LOAD_RANGE (rs_buf 0 (2 + table_identifier_encoded_length table + range_spec_encoded_length rng
       + range_state_encoded_length range_state))) (\<lambda>cb.
     rbind (cb_encode (encode_table_identifier table) cb) (\<lambda>cb.
     rbind (cb_encode (encode_range_spec rng) cb) (cb_encode (encode_range_state range_state))))"

definition rs_request_replay_update :: "bytes \<Rightarrow> comm_buf result" where
  "rs_request_replay_update buffer =
     append_i16 RS_REPLAY_UPDATE (comm_buf_with (header_builder_new PROTOCOL_HYPERTABLE_RANGESERVER 0) (of_nat 2) buffer)"

definition rs_request_replay_commit :: "comm_buf result" where
  "rs_request_replay_commit = append_i16 RS_REPLAY_COMMIT (rs_buf 0 2)"

definition rs_request_drop_range :: "table_identifier \<Rightarrow> range_spec \<Rightarrow> comm_buf result" where
  "rs_request_drop_range table rng =
     rbind (append_i16 RS_DROP_RANGE (rs_buf 0 (2 + table_identifier_encoded_length table + range_spec_encoded_length rng))) (\<lambda>cb.
     rbind (cb_encode (encode_table_identifier table) cb) (cb_encode (encode_range_spec rng)))"

definition rs_request_get_statistics :: "comm_buf result" where
  "rs_request_get_statistics = append_i16 RS_GET_STATISTICS (rs_buf 0 2)"

section \<open>Handlers\<close>

text \<open>The operations of the range server.\<close>

datatype range_server_call =
    RS_load_range table_identifier range_spec bytes range_state
  | RS_update table_identifier bytes
  | RS_create_scanner table_identifier range_spec scan_spec
  | RS_destroy_scanner u32
  | RS_fetch_scanblock u32
  | RS_drop_table table_identifier
  | RS_drop_range table_identifier range_spec
  | RS_compact table_identifier range_spec byte
  | RS_status
  | RS_shutdown
  | RS_dump_stats
  | RS_get_statistics
  | RS_replay_begin u16
  | RS_replay_load_range table_identifier range_spec range_state
  | RS_replay_update bytes
  | RS_replay_commit

definition rs_load_range :: "event \<Rightarrow> range_server_call outcome result" where
  "rs_load_range = run_handler (\<lambda>_. PROTOCOL_ERROR) (dbind decode_table_identifier (\<lambda>table. dbind decode_range_spec (\<lambda>rng.
     dbind decode_str16_c (\<lambda>log. dbind decode_range_state (\<lambda>st. dret (RS_load_range table rng log st))))))"

text \<open>The modifications are the rest of the message.\<close>

definition rs_update :: "event \<Rightarrow> range_server_call outcome result" where
  "rs_update = run_handler (\<lambda>_. PROTOCOL_ERROR) (dbind decode_table_identifier (\<lambda>table (p, remaining).
     rbind (rdn (unat remaining) p) (\<lambda>(mods, _). Inr (RS_update table mods, p, remaining))))"

definition rs_create_scanner :: "event \<Rightarrow> range_server_call outcome result" where
  "rs_create_scanner = run_handler (\<lambda>_. PROTOCOL_ERROR) (dbind decode_table_identifier (\<lambda>table. dbind decode_range_spec (\<lambda>rng.
     dbind (decode_scan_spec scan_spec_new) (\<lambda>spec. dret (RS_create_scanner table rng spec)))))"

definition rs_destroy_scanner :: "event \<Rightarrow> range_server_call outcome result" where
  "rs_destroy_scanner = run_handler (\<lambda>x. x) (dbind decode_i32 (\<lambda>scanner_id. dret (RS_destroy_scanner scanner_id)))"

definition rs_fetch_scanblock :: "event \<Rightarrow> range_server_call outcome result" where
  "rs_fetch_scanblock = run_handler (\<lambda>x. x) (dbind decode_i32 (\<lambda>scanner_id. dret (RS_fetch_scanblock scanner_id)))"

definition rs_drop_table :: "event \<Rightarrow> range_server_call outcome result" where
  "rs_drop_table = run_handler (\<lambda>_. PROTOCOL_ERROR) (dbind decode_table_identifier (\<lambda>table. dret (RS_drop_table table)))"

definition rs_drop_range :: "event \<Rightarrow> range_server_call outcome result" where
  "rs_drop_range = run_handler (\<lambda>_. PROTOCOL_ERROR) (dbind decode_table_identifier (\<lambda>table. dbind decode_range_spec (\<lambda>rng.
     dret (RS_drop_range table rng))))"

definition rs_compact :: "event \<Rightarrow> range_server_call outcome result" where
  "rs_compact = run_handler (\<lambda>_. PROTOCOL_ERROR) (dbind decode_table_identifier (\<lambda>table. dbind decode_range_spec (\<lambda>rng.
     dbind decode_i8 (\<lambda>compaction_type. dret (RS_compact table rng compaction_type)))))"

definition rs_status :: "event \<Rightarrow> range_server_call outcome result" where
  "rs_status e = Inr (Call RS_status)"

definition rs_shutdown :: "event \<Rightarrow> range_server_call outcome result" where
  "rs_shutdown e = Inr (Call RS_shutdown)"

definition rs_dump_stats :: "event \<Rightarrow> range_server_call outcome result" where
  "rs_dump_stats e = Inr (Call RS_dump_stats)"

definition rs_get_statistics :: "event \<Rightarrow> range_server_call outcome result" where
  "rs_get_statistics e = Inr (Call RS_get_statistics)"

definition rs_replay_begin :: "event \<Rightarrow> range_server_call outcome result" where
  "rs_replay_begin = run_handler (\<lambda>_. PROTOCOL_ERROR) (dbind decode_i16 (\<lambda>grp. dret (RS_replay_begin grp)))"

definition rs_replay_load_range :: "event \<Rightarrow> range_server_call outcome result" where
  "rs_replay_load_range = run_handler (\<lambda>_. PROTOCOL_ERROR) (dbind decode_table_identifier (\<lambda>table. dbind decode_range_spec (\<lambda>rng.
     dbind decode_range_state (\<lambda>st. dret (RS_replay_load_range table rng st)))))"

definition rs_replay_update :: "event \<Rightarrow> range_server_call outcome result" where
  "rs_replay_update e =
     rbind (rdn (unat (ev_message_len e - 2)) (drop 2 (ev_message e))) (\<lambda>(data, _). Inr (Call (RS_replay_update data)))"

definition rs_replay_commit :: "event \<Rightarrow> range_server_call outcome result" where
  "rs_replay_commit e = Inr (Call RS_replay_commit)"

definition rs_handler :: "u16 \<Rightarrow> (event \<Rightarrow> range_server_call outcome result) option" where
  "rs_handler command =
     (if command = RS_COMPACT then Some rs_compact
      else if command = RS_LOAD_RANGE then Some rs_load_range
      else if command = RS_UPDATE then Some rs_update
      else if command = RS_CREATE_SCANNER then Some rs_create_scanner
      else if command = RS_DESTROY_SCANNER then Some rs_destroy_scanner
      else if command = RS_FETCH_SCANBLOCK then Some rs_fetch_scanblock
      else if command = RS_DROP_TABLE then Some rs_drop_table
      else if command = RS_REPLAY_BEGIN then Some rs_replay_begin
      else if command = RS_REPLAY_LOAD_RANGE then Some rs_replay_load_range
      else if command = RS_REPLAY_UPDATE then Some rs_replay_update
      else if command = RS_REPLAY_COMMIT then Some rs_replay_commit
      else if command = RS_DROP_RANGE then Some rs_drop_range
      else if command = RS_STATUS then Some rs_status
      else if command = RS_SHUTDOWN then Some rs_shutdown
      else if command = RS_DUMP_STATS then Some rs_dump_stats
      else if command = RS_GET_STATISTICS then Some rs_get_statistics
      else None)"

text \<open>\<^verbatim>\<open>command\<close> is an \<^verbatim>\<open>int\<close> that holds the unsigned 16-bit code, so it is never negative.\<close>

definition rs_handle :: "event \<Rightarrow> range_server_call outcome result" where
  "rs_handle e =
     (case decode_i16 (ev_message e, ev_message_len e) of
        Inl x \<Rightarrow> if x = UNDEFINED_BEHAVIOUR then Inl x else Inr (Reply PROTOCOL_ERROR)
      | Inr (command, _) \<Rightarrow>
        if uint command \<ge> uint RS_COMMAND_MAX then Inr (Reply PROTOCOL_ERROR)
        else (case rs_handler command of None \<Rightarrow> Inr (Reply PROTOCOL_ERROR) | Some h \<Rightarrow> h e))"

text \<open>
  The connection: it ignores every event once it has seen a shutdown request, hands a message to the dispatch, and, on the connection to the
  master (\<^verbatim>\<open>m_master_client_ptr\<close> set), registers the server when the connection is established.
\<close>

datatype rs_event = RS_MESSAGE event | RS_CONNECTION_ESTABLISHED | RS_OTHER_EVENT

datatype rs_action = RS_dispatch "range_server_call outcome result" | RS_register_with_master

definition rs_connection :: "bool \<Rightarrow> bool \<Rightarrow> rs_event \<Rightarrow> bool \<times> rs_action option" where
  "rs_connection m_master_client m_shutdown ev =
     (if m_shutdown then (m_shutdown, None)
      else case ev of
        RS_MESSAGE e \<Rightarrow>
          ((case decode_i16 (ev_message e, ev_message_len e) of Inr (command, _) \<Rightarrow> command = RS_SHUTDOWN | Inl _ \<Rightarrow> False),
           Some (RS_dispatch (rs_handle e)))
      | RS_CONNECTION_ESTABLISHED \<Rightarrow> (m_shutdown, if m_master_client then Some RS_register_with_master else None)
      | RS_OTHER_EVENT \<Rightarrow> (m_shutdown, None))"

section \<open>Delivery of the requests\<close>

lemma rs_handler_command: "rs_handler c = Some h \<Longrightarrow> uint c < uint RS_COMMAND_MAX"
  by (auto simp: rs_handler_def RS_defs split: if_splits)

interpretation rs: request_protocol rs_handle rs_handler
proof
  fix c h e rest
  assume "rs_handler c = Some h" "carries e (encode_i16 c @ rest)"
  then show "rs_handle e = h e" using rs_handler_command[of c h] carries_command[of e c rest] by (simp add: rs_handle_def)
qed

lemma rs_handlers:
  "rs_handler RS_LOAD_RANGE = Some rs_load_range" "rs_handler RS_UPDATE = Some rs_update"
  "rs_handler RS_CREATE_SCANNER = Some rs_create_scanner" "rs_handler RS_DESTROY_SCANNER = Some rs_destroy_scanner"
  "rs_handler RS_FETCH_SCANBLOCK = Some rs_fetch_scanblock" "rs_handler RS_DROP_TABLE = Some rs_drop_table"
  "rs_handler RS_DROP_RANGE = Some rs_drop_range" "rs_handler RS_REPLAY_BEGIN = Some rs_replay_begin"
  "rs_handler RS_REPLAY_LOAD_RANGE = Some rs_replay_load_range" "rs_handler RS_REPLAY_UPDATE = Some rs_replay_update"
  "rs_handler RS_REPLAY_COMMIT = Some rs_replay_commit" "rs_handler RS_STATUS = Some rs_status"
  "rs_handler RS_SHUTDOWN = Some rs_shutdown" "rs_handler RS_DUMP_STATS = Some rs_dump_stats"
  "rs_handler RS_GET_STATISTICS = Some rs_get_statistics"
  by (simp_all add: rs_handler_def RS_defs)

lemma rs_sends_bare:
  assumes "rs_handler c = Some h" "\<And>e. h e = Inr (Call x)"
  shows "sends rs_handle (append_i16 c (rs_buf 0 2)) x"
  by (rule rs.delivered[of c h _ "[]" "header_builder_new PROTOCOL_HYPERTABLE_RANGESERVER 0" 2 "[]"])
    (use assms in \<open>simp_all add: rs_buf_def request_defs rbind_Inr_right\<close>)

lemma rs_request:
  assumes "rs_handler c = Some h" "h = run_handler code d" "msg_fields es m d x" "b = rbind (append_i16 c (rs_buf gid n)) g" "g = encodes es"
    "n = 2 + m" "n + 16 < 2 ^ 32"
  shows "sends rs_handle b x"
  by (rule rs.request_delivered[OF assms(1-3) assms(4)[unfolded rs_buf_def] assms(5-7)])

lemma rs_sends_load_range:
  assumes "table_identifier_ok table" "range_spec_ok rng" "name_ok log" "range_state_ok st"
    and "18 + table_identifier_encoded_length table + range_spec_encoded_length rng + encoded_length_str16 (Some log)
      + range_state_encoded_length st < 2 ^ 32"
  shows "sends rs_handle (rs_request_load_range table rng log st)
    (RS_load_range (table_identifier_norm table) (range_spec_norm rng) log (range_state_norm st))"
  by (rule rs_request, rule rs_handlers, rule rs_load_range_def, (rule wire_reads)+, (rule assms)+, rule rs_request_load_range_def)
    (use assms in \<open>simp_all add: request_fields\<close>)

lemma rs_sends_create_scanner:
  assumes "table_identifier_ok table" "range_spec_ok rng" "scan_spec_ok spec"
    and "18 + table_identifier_encoded_length table + range_spec_encoded_length rng + scan_spec_encoded_length spec < 2 ^ 32"
  shows "sends rs_handle (rs_request_create_scanner table rng spec)
    (RS_create_scanner (table_identifier_norm table) (range_spec_norm rng) (scan_spec_norm spec))"
  by (rule rs_request, rule rs_handlers, rule rs_create_scanner_def, (rule wire_reads)+, (rule assms)+, rule rs_request_create_scanner_def)
    (use assms in \<open>simp_all add: request_fields\<close>)

lemma rs_sends_scanner_id:
  "sends rs_handle (rs_request_destroy_scanner i) (RS_destroy_scanner i)" "sends rs_handle (rs_request_fetch_scanblock i) (RS_fetch_scanblock i)"
   apply (rule rs_request, rule rs_handlers, rule rs_destroy_scanner_def, (rule wire_reads)+, rule rs_request_destroy_scanner_def)
     apply (simp_all add: request_fields)
  apply (rule rs_request, rule rs_handlers, rule rs_fetch_scanblock_def, (rule wire_reads)+, rule rs_request_fetch_scanblock_def)
    apply (simp_all add: request_fields)
  done

lemma rs_sends_drop_table:
  assumes "table_identifier_ok table" "18 + table_identifier_encoded_length table < 2 ^ 32"
  shows "sends rs_handle (rs_request_drop_table table) (RS_drop_table (table_identifier_norm table))"
  by (rule rs_request, rule rs_handlers, rule rs_drop_table_def, (rule wire_reads)+, (rule assms)+, rule rs_request_drop_table_def)
    (use assms in \<open>simp_all add: request_fields\<close>)

lemma rs_sends_drop_range:
  assumes "table_identifier_ok table" "range_spec_ok rng"
    and "18 + table_identifier_encoded_length table + range_spec_encoded_length rng < 2 ^ 32"
  shows "sends rs_handle (rs_request_drop_range table rng) (RS_drop_range (table_identifier_norm table) (range_spec_norm rng))"
  by (rule rs_request, rule rs_handlers, rule rs_drop_range_def, (rule wire_reads)+, (rule assms)+, rule rs_request_drop_range_def)
    (use assms in \<open>simp_all add: request_fields\<close>)

lemma rs_sends_replay_begin: "sends rs_handle (rs_request_replay_begin grp) (RS_replay_begin grp)"
  by (rule rs_request, rule rs_handlers, rule rs_replay_begin_def, (rule wire_reads)+, rule rs_request_replay_begin_def)
    (simp_all add: request_fields)

lemma rs_sends_replay_load_range:
  assumes "table_identifier_ok table" "range_spec_ok rng" "range_state_ok st"
    and "18 + table_identifier_encoded_length table + range_spec_encoded_length rng + range_state_encoded_length st < 2 ^ 32"
  shows "sends rs_handle (rs_request_replay_load_range table rng st)
    (RS_replay_load_range (table_identifier_norm table) (range_spec_norm rng) (range_state_norm st))"
  by (rule rs_request, rule rs_handlers, rule rs_replay_load_range_def, (rule wire_reads)+, (rule assms)+,
      rule rs_request_replay_load_range_def) (use assms in \<open>simp_all add: request_fields\<close>)

lemma rs_sends_update:
  assumes "table_identifier_ok table" "18 + table_identifier_encoded_length table + length buffer < 2 ^ 32"
  shows "sends rs_handle (rs_request_update table buffer) (RS_update (table_identifier_norm table) buffer)"
proof -
  obtain bs where bs: "encode_table_identifier table = Inr bs" "length bs = table_identifier_encoded_length table"
    "reads decode_table_identifier (table_identifier_norm table) bs"
    using tid.writes_valid[OF assms(1)] by (auto simp: writes_def dest: decodes_reads)
  show ?thesis
  proof (rule rs.delivered[OF rs_handlers(2)])
    show "rs_request_update table buffer = appends [encode_i16 RS_UPDATE, bs] (comm_buf_with
        (header_builder_new PROTOCOL_HYPERTABLE_RANGESERVER 0) (of_nat (2 + table_identifier_encoded_length table)) buffer)"
      by (simp add: rs_request_update_def append_i16_def cb_encode_def[abs_def] bs(1) appends_eqs rbind_Inr_right)
    show "length (concat [bs]) + 2 = 2 + table_identifier_encoded_length table" by (simp add: bs(2))
    fix e
    assume c: "carries e (encode_i16 RS_UPDATE @ concat [bs] @ buffer)"
    have m: "drop 2 (ev_message e) = bs @ buffer" "ev_message_len e - 2 = of_nat (length bs + length buffer)"
      using c i16.enc_decodes by (simp_all add: carries_def)
    have u: "unat (of_nat (length bs + length buffer) :: u64) = length bs + length buffer"
      by (rule unat_of_nat_small) (use assms(2) bs(2) in simp)
    have "unat (of_nat (length buffer) :: u64) = length buffer"
      by (rule unat_of_nat_small) (use assms(2) in simp)
    then show "rs_update e = Inr (Call (RS_update (table_identifier_norm table) buffer))"
      using readsD[OF bs(3), of "of_nat (length bs + length buffer)" buffer] u
      by (simp add: rs_update_def run_handler_def m dbind_apply rdn_def)
  qed (use assms(2) in simp)
qed

lemma rs_sends_replay_update:
  assumes "18 + length buffer < 2 ^ 32"
  shows "sends rs_handle (rs_request_replay_update buffer) (RS_replay_update buffer)"
proof (rule rs.delivered[OF rs_handlers(10)])
  show "rs_request_replay_update buffer = appends [encode_i16 RS_REPLAY_UPDATE] (comm_buf_with
      (header_builder_new PROTOCOL_HYPERTABLE_RANGESERVER 0) (of_nat 2) buffer)"
    by (simp add: rs_request_replay_update_def append_i16_def appends_eqs rbind_Inr_right)
  fix e
  assume "carries e (encode_i16 RS_REPLAY_UPDATE @ concat [] @ buffer)"
  then have "drop 2 (ev_message e) = buffer" "ev_message_len e - 2 = of_nat (length buffer)" by (simp_all add: carries_def)
  moreover have "unat (of_nat (length buffer) :: u64) = length buffer" by (rule unat_of_nat_small) (use assms in simp)
  ultimately show "rs_replay_update e = Inr (Call (RS_replay_update buffer))" by (simp add: rs_replay_update_def rdn_def)
qed (use assms in simp_all)

lemma rs_sends_plain:
  "sends rs_handle rs_request_replay_commit RS_replay_commit" "sends rs_handle rs_request_status RS_status"
  "sends rs_handle rs_request_shutdown RS_shutdown" "sends rs_handle rs_request_dump_stats RS_dump_stats"
  "sends rs_handle rs_request_get_statistics RS_get_statistics"
  unfolding rs_request_replay_commit_def rs_request_status_def rs_request_shutdown_def rs_request_dump_stats_def rs_request_get_statistics_def
  by (rule rs_sends_bare, rule rs_handlers, rule rs_replay_commit_def rs_status_def rs_shutdown_def rs_dump_stats_def rs_get_statistics_def)+

text \<open>C21. Every request of the range server protocol, sent by the client, makes the server carry out the operation it names with
  the arguments it was composed from, a null string arriving as the empty string; the modifications of an update arrive unchanged
  behind the table identifier.\<close>

theorem rs_requests_delivered:
  assumes "table_identifier_ok table" "range_spec_ok rng" "name_ok log" "range_state_ok st" "scan_spec_ok spec"
    and "18 + table_identifier_encoded_length table + range_spec_encoded_length rng + encoded_length_str16 (Some log)
      + range_state_encoded_length st + scan_spec_encoded_length spec + length buffer < 2 ^ 32"
  shows "sends rs_handle (rs_request_load_range table rng log st)
      (RS_load_range (table_identifier_norm table) (range_spec_norm rng) log (range_state_norm st)) \<and>
    sends rs_handle (rs_request_update table buffer) (RS_update (table_identifier_norm table) buffer) \<and>
    sends rs_handle (rs_request_create_scanner table rng spec)
      (RS_create_scanner (table_identifier_norm table) (range_spec_norm rng) (scan_spec_norm spec)) \<and>
    sends rs_handle (rs_request_destroy_scanner scanner_id) (RS_destroy_scanner scanner_id) \<and>
    sends rs_handle (rs_request_fetch_scanblock scanner_id) (RS_fetch_scanblock scanner_id) \<and>
    sends rs_handle (rs_request_drop_table table) (RS_drop_table (table_identifier_norm table)) \<and>
    sends rs_handle (rs_request_drop_range table rng) (RS_drop_range (table_identifier_norm table) (range_spec_norm rng)) \<and>
    sends rs_handle (rs_request_replay_begin grp) (RS_replay_begin grp) \<and>
    sends rs_handle (rs_request_replay_load_range table rng st)
      (RS_replay_load_range (table_identifier_norm table) (range_spec_norm rng) (range_state_norm st)) \<and>
    sends rs_handle (rs_request_replay_update buffer) (RS_replay_update buffer) \<and>
    sends rs_handle rs_request_replay_commit RS_replay_commit \<and> sends rs_handle rs_request_status RS_status \<and>
    sends rs_handle rs_request_shutdown RS_shutdown \<and> sends rs_handle rs_request_dump_stats RS_dump_stats \<and>
    sends rs_handle rs_request_get_statistics RS_get_statistics"
proof (intro conjI)
  note ok = assms(1-5)
  show "sends rs_handle (rs_request_load_range table rng log st)
      (RS_load_range (table_identifier_norm table) (range_spec_norm rng) log (range_state_norm st))"
    by (rule rs_sends_load_range[OF ok(1,2,3,4)]) (use assms(6) in linarith)
  show "sends rs_handle (rs_request_update table buffer) (RS_update (table_identifier_norm table) buffer)"
    by (rule rs_sends_update[OF ok(1)]) (use assms(6) in linarith)
  show "sends rs_handle (rs_request_create_scanner table rng spec)
      (RS_create_scanner (table_identifier_norm table) (range_spec_norm rng) (scan_spec_norm spec))"
    by (rule rs_sends_create_scanner[OF ok(1,2,5)]) (use assms(6) in linarith)
  show "sends rs_handle (rs_request_drop_table table) (RS_drop_table (table_identifier_norm table))"
    by (rule rs_sends_drop_table[OF ok(1)]) (use assms(6) in linarith)
  show "sends rs_handle (rs_request_drop_range table rng) (RS_drop_range (table_identifier_norm table) (range_spec_norm rng))"
    by (rule rs_sends_drop_range[OF ok(1,2)]) (use assms(6) in linarith)
  show "sends rs_handle (rs_request_replay_load_range table rng st)
      (RS_replay_load_range (table_identifier_norm table) (range_spec_norm rng) (range_state_norm st))"
    by (rule rs_sends_replay_load_range[OF ok(1,2,4)]) (use assms(6) in linarith)
  show "sends rs_handle (rs_request_replay_update buffer) (RS_replay_update buffer)"
    by (rule rs_sends_replay_update) (use assms(6) in linarith)
qed (rule rs_sends_scanner_id rs_sends_replay_begin rs_sends_plain)+

theorem rs_requests_delivered_witness:
  "sends rs_handle (rs_request_create_scanner \<lparr>tid_name = Some [85], tid_id = 1, tid_generation = 2\<rparr>
      \<lparr>start_row = None, end_row = Some [109]\<rparr> (scan_spec_new\<lparr>columns := [Some [97]]\<rparr>))
    (RS_create_scanner \<lparr>tid_name = Some [85], tid_id = 1, tid_generation = 2\<rparr> \<lparr>start_row = Some [], end_row = Some [109]\<rparr>
      (scan_spec_new\<lparr>columns := [Some [97]]\<rparr>))"
proof -
  let ?t = "\<lparr>tid_name = Some [85], tid_id = 1, tid_generation = 2\<rparr> :: table_identifier"
    and ?r = "\<lparr>start_row = None, end_row = Some [109]\<rparr> :: range_spec" and ?sc = "scan_spec_new\<lparr>columns := [Some [97]]\<rparr>"
    and ?st = "\<lparr>state = 0, rs_timestamp = \<lparr>ts_logical = 0, ts_real = 0\<rparr>, soft_limit = 0, transfer_log = None, split_point = None, old_start_row = None\<rparr>"
  have ok: "table_identifier_ok ?t" "range_spec_ok ?r" "name_ok [108]" "range_state_ok ?st" "scan_spec_ok ?sc"
    by (simp_all add: table_identifier_ok_def range_spec_ok_def name_ok_def range_state_ok_def scan_spec_ok_def cstr_ok_def vstr_len_ok_def
        scan_spec_new_def)
  have len: "18 + table_identifier_encoded_length ?t + range_spec_encoded_length ?r + encoded_length_str16 (Some [108])
      + range_state_encoded_length ?st + scan_spec_encoded_length ?sc + length ([] :: bytes) = 94"
    by code_simp
  have "table_identifier_norm ?t = ?t" "range_spec_norm ?r = \<lparr>start_row = Some [], end_row = Some [109]\<rparr>" "scan_spec_norm ?sc = ?sc"
    by (simp_all add: table_identifier_norm_def range_spec_norm_def scan_spec_norm_def cstr_norm_def scan_spec_new_def)
  then show ?thesis using rs_requests_delivered[OF ok, of "[]"] len by simp
qed

lemma rs_handler_safe:
  assumes h: "rs_handler c = Some h" and c: "c \<noteq> RS_LOAD_RANGE" and le: "unat (ev_message_len e) \<le> length (ev_message e)"
    and two: "2 \<le> unat (ev_message_len e)"
  shows "h e \<noteq> Inl UNDEFINED_BEHAVIOUR"
proof -
  note run = run_handler_safe[OF _ le two]
  have len: "unat (ev_message_len e - 2) \<le> length (drop 2 (ev_message e))"
    using unat_minus_of_nat[of 2 "ev_message_len e"] le two by simp
  have "rs_update e \<noteq> Inl UNDEFINED_BEHAVIOUR"
    by (cases "decode_table_identifier (drop 2 (ev_message e), ev_message_len e - 2)";
        use tid.never_undefined[OF len] tid.cursor_kept[OF len] in \<open>auto simp: rs_update_def run_handler_def dbind_apply rdn_def\<close>)
  moreover have "rs_replay_update e \<noteq> Inl UNDEFINED_BEHAVIOUR"
    using len by (simp add: rs_replay_update_def rdn_def)
  moreover have "rs_compact e \<noteq> Inl UNDEFINED_BEHAVIOUR" "rs_create_scanner e \<noteq> Inl UNDEFINED_BEHAVIOUR"
    "rs_destroy_scanner e \<noteq> Inl UNDEFINED_BEHAVIOUR" "rs_fetch_scanblock e \<noteq> Inl UNDEFINED_BEHAVIOUR"
    "rs_drop_table e \<noteq> Inl UNDEFINED_BEHAVIOUR" "rs_drop_range e \<noteq> Inl UNDEFINED_BEHAVIOUR"
    "rs_replay_begin e \<noteq> Inl UNDEFINED_BEHAVIOUR" "rs_replay_load_range e \<noteq> Inl UNDEFINED_BEHAVIOUR"
    unfolding rs_compact_def rs_create_scanner_def rs_destroy_scanner_def rs_fetch_scanblock_def rs_drop_table_def rs_drop_range_def
      rs_replay_begin_def rs_replay_load_range_def
    by (intro run checked_dbind tid.checked rspec.checked rstate.checked sspec.checked checked_fields)+
  ultimately show ?thesis
    using h c by (auto simp: rs_handler_def rs_status_def rs_shutdown_def rs_dump_stats_def rs_get_statistics_def rs_replay_commit_def
      split: if_splits)
qed

text \<open>C25. Of all messages whose length is the one the event announces, only a load range request can make the range server read outside the
  message; every other message, however malformed, is dispatched or answered with an error.\<close>

theorem rs_messages_safe:
  assumes le: "unat (ev_message_len e) \<le> length (ev_message e)" and "rs_handle e = Inl UNDEFINED_BEHAVIOUR"
  shows "\<exists>rest. decode_i16 (ev_message e, ev_message_len e) = Inr (RS_LOAD_RANGE, rest)"
proof (cases "decode_i16 (ev_message e, ev_message_len e)")
  case (Inl x)
  then show ?thesis using assms(2) i16.never_undefined[OF le] by (auto simp: rs_handle_def split: if_splits)
next
  case (Inr p)
  then obtain c ip r where p: "decode_i16 (ev_message e, ev_message_len e) = Inr (c, ip, r)" by (cases p) auto
  then have "2 \<le> unat (ev_message_len e)" by (rule decode_command_length)
  then show ?thesis using rs_handler_safe[of c _ e, OF _ _ le] assms(2) p
    by (auto simp: rs_handle_def split: if_splits option.splits)
qed

theorem rs_messages_safe_witness:
  "let e = \<lparr>ev_header = header_of (replicate 16 0), ev_message = [0, 0, 0, 0, 1, 0, 0, 0, 2, 0, 0, 0, 0, 0, 0, 0, 5, 0], ev_message_len = 18,
       ev_thread_group = 0\<rparr>
   in rs_handle e = Inl UNDEFINED_BEHAVIOUR \<and> (\<exists>rest. decode_i16 (ev_message e, ev_message_len e) = Inr (RS_LOAD_RANGE, rest))"
proof -
  let ?e = "\<lparr>ev_header = header_of (replicate 16 0), ev_message = [0, 0, 0, 0, 1, 0, 0, 0, 2, 0, 0, 0, 0, 0, 0, 0, 5, 0], ev_message_len = 18,
    ev_thread_group = 0\<rparr>"
  have "rs_handle ?e = Inl UNDEFINED_BEHAVIOUR" by code_simp
  then show ?thesis using rs_messages_safe[of ?e] by simp
qed

end
