(* ===== verification/MasterProtocol.thy ===== *)
theory MasterProtocol
  imports CommMessages
begin

text \<open>
  The protocol of the master: the requests (\<^verbatim>\<open>Hypertable/Lib/MasterProtocol.cc\<close>), the dispatch and the request handlers
  (\<^verbatim>\<open>ConnectionHandler.cc\<close>, \<^verbatim>\<open>RequestHandler*.cc\<close> of \<^verbatim>\<open>Hypertable/Master\<close>). Shown: every request reaches the operation of the
  master it names with its arguments, and no message of the announced length makes the master read outside it.
\<close>

section \<open>Commands\<close>

definition MS_CREATE_TABLE :: u16 where "MS_CREATE_TABLE = 0"
definition MS_GET_SCHEMA :: u16 where "MS_GET_SCHEMA = 1"
definition MS_STATUS :: u16 where "MS_STATUS = 2"
definition MS_REGISTER_SERVER :: u16 where "MS_REGISTER_SERVER = 3"
definition MS_REPORT_SPLIT :: u16 where "MS_REPORT_SPLIT = 4"
definition MS_DROP_TABLE :: u16 where "MS_DROP_TABLE = 5"
definition MS_SHUTDOWN :: u16 where "MS_SHUTDOWN = 6"
definition MS_COMMAND_MAX :: u16 where "MS_COMMAND_MAX = 7"

lemmas MS_defs = MS_CREATE_TABLE_def MS_GET_SCHEMA_def MS_STATUS_def MS_REGISTER_SERVER_def MS_REPORT_SPLIT_def MS_DROP_TABLE_def
  MS_SHUTDOWN_def MS_COMMAND_MAX_def

section \<open>Requests\<close>

definition ms_buf :: "nat \<Rightarrow> comm_buf" where
  "ms_buf len = comm_buf_new (header_builder_new PROTOCOL_HYPERTABLE_MASTER 0) (of_nat len)"

definition ms_create_table_request :: "cstr \<Rightarrow> cstr \<Rightarrow> comm_buf result" where
  "ms_create_table_request tablename schemastr =
     rbind (append_i16 MS_CREATE_TABLE (ms_buf (2 + encoded_length_vstr_cstr tablename + encoded_length_vstr_cstr schemastr))) (\<lambda>cb.
     rbind (append_vstr tablename cb) (append_vstr schemastr))"

definition ms_get_schema_request :: "cstr \<Rightarrow> comm_buf result" where
  "ms_get_schema_request tablename =
     rbind (append_i16 MS_GET_SCHEMA (ms_buf (2 + encoded_length_vstr_cstr tablename))) (append_vstr tablename)"

definition ms_status_request :: "comm_buf result" where
  "ms_status_request = append_i16 MS_STATUS (ms_buf 2)"

definition ms_register_server_request :: "bytes \<Rightarrow> comm_buf result" where
  "ms_register_server_request location =
     rbind (append_i16 MS_REGISTER_SERVER (ms_buf (2 + encoded_length_vstr (length location)))) (append_vstr (Some location))"

definition ms_report_split_request :: "table_identifier \<Rightarrow> range_spec \<Rightarrow> cstr \<Rightarrow> u64 \<Rightarrow> comm_buf result" where
  "ms_report_split_request table rng log_dir limit =
     rbind (append_i16 MS_REPORT_SPLIT (ms_buf (2 + table_identifier_encoded_length table + range_spec_encoded_length rng
       + encoded_length_vstr_cstr log_dir + 8))) (\<lambda>cb.
     rbind (cb_encode (encode_table_identifier table) cb) (\<lambda>cb.
     rbind (cb_encode (encode_range_spec rng) cb) (\<lambda>cb.
     rbind (append_vstr log_dir cb) (append_i64 limit))))"

definition ms_drop_table_request :: "cstr \<Rightarrow> bool \<Rightarrow> comm_buf result" where
  "ms_drop_table_request table_name if_exists =
     rbind (append_i16 MS_DROP_TABLE (ms_buf (3 + encoded_length_vstr_cstr table_name))) (\<lambda>cb.
     rbind (append_bool if_exists cb) (append_vstr table_name))"

definition ms_shutdown_request :: "comm_buf result" where
  "ms_shutdown_request = append_i16 MS_SHUTDOWN (ms_buf 2)"

definition ms_command_text :: "u16 \<Rightarrow> string" where
  "ms_command_text command =
     (if sint command < 0 \<or> sint command \<ge> sint MS_COMMAND_MAX then ''UNKNOWN''
      else [''create table'', ''get schema'', ''status'', ''register server'', ''report split'', ''drop table'', ''shutdown''] ! unat command)"

section \<open>Handlers\<close>

text \<open>The operations of the master. A status request is answered at once; the address of the registering server is the one of its connection.\<close>

datatype master_call =
    Master_create_table cstr cstr
  | Master_drop_table cstr bool
  | Master_get_schema cstr
  | Master_status
  | Master_register_server cstr
  | Master_report_split table_identifier range_spec cstr u64
  | Master_shutdown

definition ms_create_table :: "event \<Rightarrow> master_call outcome result" where
  "ms_create_table = run_handler (\<lambda>x. x) (dbind decode_vstr_cstr (\<lambda>table_name. dbind decode_vstr_cstr (\<lambda>schema_str.
     dret (Master_create_table table_name schema_str))))"

definition ms_drop_table :: "event \<Rightarrow> master_call outcome result" where
  "ms_drop_table = run_handler (\<lambda>x. x) (dbind decode_bool (\<lambda>if_exists. dbind decode_vstr_cstr (\<lambda>table_name.
     dret (Master_drop_table table_name if_exists))))"

definition ms_get_schema :: "event \<Rightarrow> master_call outcome result" where
  "ms_get_schema = run_handler (\<lambda>x. x) (dbind decode_vstr_cstr (\<lambda>table_name. dret (Master_get_schema table_name)))"

definition ms_status :: "event \<Rightarrow> master_call outcome result" where
  "ms_status e = Inr (Call Master_status)"

definition ms_register_server :: "event \<Rightarrow> master_call outcome result" where
  "ms_register_server = run_handler (\<lambda>x. x) (dbind decode_vstr_cstr (\<lambda>location. dret (Master_register_server location)))"

definition ms_report_split :: "event \<Rightarrow> master_call outcome result" where
  "ms_report_split = run_handler (\<lambda>x. x) (dbind decode_table_identifier (\<lambda>table. dbind decode_range_spec (\<lambda>rng.
     dbind decode_vstr_cstr (\<lambda>log_dir. dbind decode_i64 (\<lambda>limit. dret (Master_report_split table rng log_dir limit))))))"

definition ms_shutdown :: "event \<Rightarrow> master_call outcome result" where
  "ms_shutdown e = Inr (Call Master_shutdown)"

definition ms_handler :: "u16 \<Rightarrow> (event \<Rightarrow> master_call outcome result) option" where
  "ms_handler command =
     (if command = MS_CREATE_TABLE then Some ms_create_table
      else if command = MS_DROP_TABLE then Some ms_drop_table
      else if command = MS_GET_SCHEMA then Some ms_get_schema
      else if command = MS_STATUS then Some ms_status
      else if command = MS_REGISTER_SERVER then Some ms_register_server
      else if command = MS_REPORT_SPLIT then Some ms_report_split
      else if command = MS_SHUTDOWN then Some ms_shutdown
      else None)"

text \<open>The command is kept in a \<^verbatim>\<open>short\<close>, so a code with the top bit set is negative and rejected.\<close>

definition ms_handle :: "event \<Rightarrow> master_call outcome result" where
  "ms_handle e =
     (case decode_i16 (ev_message e, ev_message_len e) of
        Inl x \<Rightarrow> if x = UNDEFINED_BEHAVIOUR then Inl x else Inr (Reply PROTOCOL_ERROR)
      | Inr (command, _) \<Rightarrow>
        if sint command < 0 \<or> sint command \<ge> sint MS_COMMAND_MAX then Inr (Reply PROTOCOL_ERROR)
        else (case ms_handler command of None \<Rightarrow> Inr (Reply PROTOCOL_ERROR) | Some h \<Rightarrow> h e))"

section \<open>Delivery of the requests\<close>

lemma ms_handler_command: "ms_handler c = Some h \<Longrightarrow> 0 \<le> sint c \<and> sint c < sint MS_COMMAND_MAX"
  by (auto simp: ms_handler_def MS_defs split: if_splits)

interpretation ms: request_protocol ms_handle ms_handler
proof
  fix c h e rest
  assume "ms_handler c = Some h" "carries e (encode_i16 c @ rest)"
  then show "ms_handle e = h e" using ms_handler_command[of c h] carries_command[of e c rest] by (simp add: ms_handle_def)
qed

lemma ms_handlers:
  "ms_handler MS_CREATE_TABLE = Some ms_create_table" "ms_handler MS_DROP_TABLE = Some ms_drop_table"
  "ms_handler MS_GET_SCHEMA = Some ms_get_schema" "ms_handler MS_STATUS = Some ms_status"
  "ms_handler MS_REGISTER_SERVER = Some ms_register_server" "ms_handler MS_REPORT_SPLIT = Some ms_report_split"
  "ms_handler MS_SHUTDOWN = Some ms_shutdown"
  by (simp_all add: ms_handler_def MS_defs)

lemma ms_sends_bare:
  assumes "ms_handler c = Some h" "\<And>e. h e = Inr (Call x)"
  shows "sends ms_handle (append_i16 c (ms_buf 2)) x"
  by (rule ms.delivered[of c h _ "[]" "header_builder_new PROTOCOL_HYPERTABLE_MASTER 0" 2 "[]"])
    (use assms in \<open>simp_all add: ms_buf_def request_defs rbind_Inr_right\<close>)

lemma ms_request:
  assumes "ms_handler c = Some h" "h = run_handler code d" "msg_fields es m d x" "b = rbind (append_i16 c (ms_buf n)) g" "g = encodes es"
    "n = 2 + m" "n + 16 < 2 ^ 32"
  shows "sends ms_handle b x"
  by (rule ms.request_delivered[OF assms(1-3) assms(4)[unfolded ms_buf_def] assms(5-7)])

text \<open>C22. Every request of the master protocol, sent by a client or a range server, makes the master carry out the operation it names
  with the arguments it was composed from, a null string arriving as the empty string.\<close>

theorem ms_requests_delivered:
  assumes "cstr_ok name" "cstr_ok text" "table_identifier_ok table" "range_spec_ok rng"
    and "26 + encoded_length_vstr_cstr name + encoded_length_vstr_cstr text + table_identifier_encoded_length table
      + range_spec_encoded_length rng < 2 ^ 32"
  shows "sends ms_handle (ms_create_table_request name text) (Master_create_table (cstr_norm name) (cstr_norm text)) \<and>
    sends ms_handle (ms_drop_table_request name if_exists) (Master_drop_table (cstr_norm name) if_exists) \<and>
    sends ms_handle (ms_get_schema_request name) (Master_get_schema (cstr_norm name)) \<and>
    (\<forall>location. name = Some location \<longrightarrow>
      sends ms_handle (ms_register_server_request location) (Master_register_server (Some location))) \<and>
    sends ms_handle (ms_report_split_request table rng name limit)
      (Master_report_split (table_identifier_norm table) (range_spec_norm rng) (cstr_norm name) limit) \<and>
    sends ms_handle ms_status_request Master_status \<and> sends ms_handle ms_shutdown_request Master_shutdown"
proof (intro conjI allI impI)
  show "sends ms_handle (ms_create_table_request name text) (Master_create_table (cstr_norm name) (cstr_norm text))"
    by (rule ms_request, rule ms_handlers, rule ms_create_table_def, (rule wire_reads)+, (rule assms)+, rule ms_create_table_request_def)
      (use assms(5) in \<open>simp_all add: request_fields\<close>)
  show "sends ms_handle (ms_drop_table_request name if_exists) (Master_drop_table (cstr_norm name) if_exists)"
    by (rule ms_request, rule ms_handlers, rule ms_drop_table_def, (rule wire_reads)+, (rule assms)+, rule ms_drop_table_request_def)
      (use assms(5) in \<open>simp_all add: request_fields\<close>)
  show "sends ms_handle (ms_get_schema_request name) (Master_get_schema (cstr_norm name))"
    by (rule ms_request, rule ms_handlers, rule ms_get_schema_def, (rule wire_reads)+, (rule assms)+, rule ms_get_schema_request_def)
      (use assms(5) in \<open>simp_all add: request_fields\<close>)
  show "sends ms_handle (ms_report_split_request table rng name limit)
      (Master_report_split (table_identifier_norm table) (range_spec_norm rng) (cstr_norm name) limit)"
    by (rule ms_request, rule ms_handlers, rule ms_report_split_def, (rule wire_reads)+, (rule assms)+, rule ms_report_split_request_def)
      (use assms(5) in \<open>simp_all add: request_fields\<close>)
  show "sends ms_handle ms_status_request Master_status" "sends ms_handle ms_shutdown_request Master_shutdown"
    unfolding ms_status_request_def ms_shutdown_request_def
    by (rule ms_sends_bare, rule ms_handlers, rule ms_status_def ms_shutdown_def)+
  fix location
  assume n: "name = Some location"
  then have "Master_register_server (Some location) = Master_register_server (cstr_norm name)" by (simp add: cstr_norm_def)
  then show "sends ms_handle (ms_register_server_request location) (Master_register_server (Some location))"
    by (simp only:) (rule ms_request, rule ms_handlers, rule ms_register_server_def, (rule wire_reads)+, rule assms, rule ms_register_server_request_def,
      (use assms(5) n in \<open>simp add: request_fields encoded_length_vstr_cstr_def\<close>)+)
qed

theorem ms_requests_delivered_witness:
  "sends ms_handle (ms_report_split_request \<lparr>tid_name = Some [85], tid_id = 1, tid_generation = 2\<rparr> \<lparr>start_row = None, end_row = Some [109]\<rparr>
      (Some [47, 108]) 100)
    (Master_report_split \<lparr>tid_name = Some [85], tid_id = 1, tid_generation = 2\<rparr> \<lparr>start_row = Some [], end_row = Some [109]\<rparr>
      (Some [47, 108]) 100) \<and>
   sends ms_handle (ms_register_server_request [47, 108]) (Master_register_server (Some [47, 108]))"
proof -
  let ?t = "\<lparr>tid_name = Some [85], tid_id = 1, tid_generation = 2\<rparr> :: table_identifier"
    and ?r = "\<lparr>start_row = None, end_row = Some [109]\<rparr> :: range_spec" and ?n = "Some [47, 108] :: cstr"
  have ok: "cstr_ok ?n" "cstr_ok None" "table_identifier_ok ?t" "range_spec_ok ?r"
    by (simp_all add: table_identifier_ok_def range_spec_ok_def cstr_ok_def vstr_len_ok_def)
  have len: "26 + encoded_length_vstr_cstr ?n + encoded_length_vstr_cstr None + table_identifier_encoded_length ?t
      + range_spec_encoded_length ?r = 48"
    by code_simp
  have "table_identifier_norm ?t = ?t" "range_spec_norm ?r = \<lparr>start_row = Some [], end_row = Some [109]\<rparr>" "cstr_norm ?n = ?n"
    by (simp_all add: table_identifier_norm_def range_spec_norm_def cstr_norm_def)
  then show ?thesis using ms_requests_delivered[OF ok, of False 100] len by simp
qed

section \<open>Hostile messages\<close>

lemma ms_handler_safe:
  assumes h: "ms_handler c = Some h" and le: "unat (ev_message_len e) \<le> length (ev_message e)" and two: "2 \<le> unat (ev_message_len e)"
  shows "h e \<noteq> Inl UNDEFINED_BEHAVIOUR"
proof -
  note run = run_handler_safe[OF _ le two]
  have "ms_create_table e \<noteq> Inl UNDEFINED_BEHAVIOUR" "ms_drop_table e \<noteq> Inl UNDEFINED_BEHAVIOUR" "ms_get_schema e \<noteq> Inl UNDEFINED_BEHAVIOUR"
    "ms_register_server e \<noteq> Inl UNDEFINED_BEHAVIOUR" "ms_report_split e \<noteq> Inl UNDEFINED_BEHAVIOUR"
    unfolding ms_create_table_def ms_drop_table_def ms_get_schema_def ms_register_server_def ms_report_split_def
    by (intro run checked_dbind tid.checked rspec.checked checked_fields)+
  then show ?thesis using h by (auto simp: ms_handler_def ms_status_def ms_shutdown_def split: if_splits)
qed

lemma ms_messages_safe:
  assumes le: "unat (ev_message_len e) \<le> length (ev_message e)"
  shows "ms_handle e \<noteq> Inl UNDEFINED_BEHAVIOUR"
proof (cases "decode_i16 (ev_message e, ev_message_len e)")
  case (Inl x)
  then show ?thesis using i16.never_undefined[OF le] by (auto simp: ms_handle_def)
next
  case (Inr p)
  then obtain c ip r where p: "decode_i16 (ev_message e, ev_message_len e) = Inr (c, ip, r)" by (cases p) auto
  show ?thesis using ms_handler_safe[of c _ e, OF _ le decode_command_length[OF p]] p
    by (auto simp: ms_handle_def split: option.splits)
qed

end
