(* ===== verification/HyperspaceProtocol.thy ===== *)
theory HyperspaceProtocol
  imports CommMessages
begin

text \<open>
  The protocol of the lock service Hyperspace: the requests (\<^verbatim>\<open>Hyperspace/Protocol.cc\<close>, \<^verbatim>\<open>Protocol.h\<close>), the dispatch with its session check
  (\<^verbatim>\<open>ServerConnectionHandler.cc\<close>) and the request handlers (\<^verbatim>\<open>RequestHandler*.cc\<close>). Shown: every request reaches the operation it
  names with its arguments, which initial attributes an open request can carry, that requests on one file are executed in one
  thread group, and that no message of the announced length makes the server read outside it.
\<close>

section \<open>Commands\<close>

definition HS_KEEPALIVE :: u16 where "HS_KEEPALIVE = 0"
definition HS_HANDSHAKE :: u16 where "HS_HANDSHAKE = 1"
definition HS_OPEN :: u16 where "HS_OPEN = 2"
definition HS_STAT :: u16 where "HS_STAT = 3"
definition HS_CANCEL :: u16 where "HS_CANCEL = 4"
definition HS_CLOSE :: u16 where "HS_CLOSE = 5"
definition HS_POISON :: u16 where "HS_POISON = 6"
definition HS_MKDIR :: u16 where "HS_MKDIR = 7"
definition HS_ATTRSET :: u16 where "HS_ATTRSET = 8"
definition HS_ATTRGET :: u16 where "HS_ATTRGET = 9"
definition HS_ATTRDEL :: u16 where "HS_ATTRDEL = 10"
definition HS_EXISTS :: u16 where "HS_EXISTS = 11"
definition HS_DELETE :: u16 where "HS_DELETE = 12"
definition HS_READDIR :: u16 where "HS_READDIR = 13"
definition HS_LOCK :: u16 where "HS_LOCK = 14"
definition HS_RELEASE :: u16 where "HS_RELEASE = 15"
definition HS_CHECKSEQUENCER :: u16 where "HS_CHECKSEQUENCER = 16"
definition HS_STATUS :: u16 where "HS_STATUS = 17"
definition HS_COMMAND_MAX :: u16 where "HS_COMMAND_MAX = 18"

lemmas HS_defs = HS_KEEPALIVE_def HS_HANDSHAKE_def HS_OPEN_def HS_STAT_def HS_CANCEL_def HS_CLOSE_def HS_POISON_def HS_MKDIR_def HS_ATTRSET_def
  HS_ATTRGET_def HS_ATTRDEL_def HS_EXISTS_def HS_DELETE_def HS_READDIR_def HS_LOCK_def HS_RELEASE_def HS_CHECKSEQUENCER_def HS_STATUS_def
  HS_COMMAND_MAX_def

definition hs_command_text :: "u16 \<Rightarrow> string" where
  "hs_command_text command =
     (if sint command < 0 \<or> sint command \<ge> uint HS_COMMAND_MAX then ''UNKNOWN''
      else [''keepalive'', ''handshake'', ''open'', ''stat'', ''cancel'', ''close'', ''poison'', ''mkdir'', ''attrset'', ''attrget'', ''attrdel'',
        ''exists'', ''delete'', ''readdir'', ''lock'', ''release'', ''checksequencer'', ''status''] ! unat command)"

section \<open>Thread groups\<close>

text \<open>
  The group of a file name is a sum over its characters, which are signed: a byte above 127 is sign-extended. The leading slash is
  added and the trailing one removed; the last character is read in front of the terminator, which for the empty string lies before
  its first byte. \<^verbatim>\<open>47\<close> is the slash.
\<close>

definition filename_to_group :: "bytes \<Rightarrow> u32 result" where
  "filename_to_group name =
     (let fname = cstr_at name;
          gid = (if fname \<noteq> [] \<and> hd fname = 47 then 0 else 47);
          gid = foldl (\<lambda>gid c. gid + scast c) gid fname in
      if fname = [] then Inl UNDEFINED_BEHAVIOUR
      else Inr (if last fname = 47 then gid - 47 else gid))"

definition handle_to_group :: "u64 \<Rightarrow> u32" where
  "handle_to_group handle = ucast ((handle XOR drop_bit 32 handle) AND 0x0FFFFFFFF)"

section \<open>Requests\<close>

definition hs_buf :: "u32 \<Rightarrow> nat \<Rightarrow> comm_buf" where
  "hs_buf gid len = comm_buf_new (header_builder_new PROTOCOL_HYPERSPACE gid) (of_nat len)"

definition append_byte :: "byte \<Rightarrow> comm_buf \<Rightarrow> comm_buf result" where
  "append_byte b = cb_append [b]"

text \<open>An attribute: its name is a C string, its value \<^verbatim>\<open>value_len\<close> bytes.\<close>

record hs_attribute =
  attr_name :: cstr
  attr_value :: bytes

definition hs_client_keepalive_request :: "u64 \<Rightarrow> u64 \<Rightarrow> bool \<Rightarrow> comm_buf result" where
  "hs_client_keepalive_request session_id last_known_event shutdown =
     rbind (append_i16 HS_KEEPALIVE (hs_buf 0 19)) (\<lambda>cb. rbind (append_i64 session_id cb) (\<lambda>cb.
     rbind (append_i64 last_known_event cb) (append_bool shutdown)))"

definition hs_server_keepalive_error :: "u64 \<Rightarrow> u32 \<Rightarrow> comm_buf result" where
  "hs_server_keepalive_error session_id err =
     rbind (append_i16 HS_KEEPALIVE (hs_buf 0 18)) (\<lambda>cb. rbind (append_i64 session_id cb) (\<lambda>cb.
     rbind (append_i32 err cb) (append_i32 0)))"

definition hs_handshake_request :: "u64 \<Rightarrow> comm_buf result" where
  "hs_handshake_request session_id = rbind (append_i16 HS_HANDSHAKE (hs_buf 0 10)) (append_i64 session_id)"

text \<open>The length reserved for an initial attribute is computed from the name of the file, not from the name of the attribute.\<close>

fun hs_append_attrs :: "hs_attribute list \<Rightarrow> comm_buf \<Rightarrow> comm_buf result" where
  "hs_append_attrs [] cb = Inr cb"
| "hs_append_attrs (a # as) cb =
     rbind (append_vstr (attr_name a) cb) (\<lambda>cb. rbind (append_vstr (Some (attr_value a)) cb) (hs_append_attrs as))"

definition hs_open_length :: "bytes \<Rightarrow> hs_attribute list \<Rightarrow> nat" where
  "hs_open_length name init_attrs = 14 + encoded_length_vstr (length name)
     + sum_list (map (\<lambda>a. encoded_length_vstr (length name) + encoded_length_vstr (length (attr_value a))) init_attrs)"

definition hs_open_request :: "bytes \<Rightarrow> u32 \<Rightarrow> u32 option \<Rightarrow> hs_attribute list \<Rightarrow> comm_buf result" where
  "hs_open_request name flags callback init_attrs =
     rbind (filename_to_group name) (\<lambda>gid.
     rbind (append_i16 HS_OPEN (hs_buf gid (hs_open_length name init_attrs))) (\<lambda>cb.
     rbind (append_i32 flags cb) (\<lambda>cb.
     rbind (append_i32 (case callback of Some event_mask \<Rightarrow> event_mask | None \<Rightarrow> 0) cb) (\<lambda>cb.
     rbind (append_vstr (Some name) cb) (\<lambda>cb.
     rbind (append_i32 (of_nat (length init_attrs)) cb) (hs_append_attrs init_attrs))))))"

definition hs_close_request :: "u64 \<Rightarrow> comm_buf result" where
  "hs_close_request handle = rbind (append_i16 HS_CLOSE (hs_buf (handle_to_group handle) 10)) (append_i64 handle)"

definition hs_mkdir_request :: "bytes \<Rightarrow> comm_buf result" where
  "hs_mkdir_request name = rbind (filename_to_group name) (\<lambda>gid.
     rbind (append_i16 HS_MKDIR (hs_buf gid (2 + encoded_length_vstr (length name)))) (append_vstr (Some name)))"

definition hs_delete_request :: "bytes \<Rightarrow> comm_buf result" where
  "hs_delete_request name = rbind (filename_to_group name) (\<lambda>gid.
     rbind (append_i16 HS_DELETE (hs_buf gid (2 + encoded_length_vstr (length name)))) (append_vstr (Some name)))"

definition hs_attr_set_request :: "u64 \<Rightarrow> bytes \<Rightarrow> bytes \<Rightarrow> comm_buf result" where
  "hs_attr_set_request handle name val =
     rbind (append_i16 HS_ATTRSET (hs_buf (handle_to_group handle)
       (10 + encoded_length_vstr (length name) + encoded_length_vstr (length val)))) (\<lambda>cb.
     rbind (append_i64 handle cb) (\<lambda>cb. rbind (append_vstr (Some name) cb) (append_vstr (Some val))))"

definition hs_attr_get_request :: "u64 \<Rightarrow> bytes \<Rightarrow> comm_buf result" where
  "hs_attr_get_request handle name =
     rbind (append_i16 HS_ATTRGET (hs_buf (handle_to_group handle) (10 + encoded_length_vstr (length name)))) (\<lambda>cb.
     rbind (append_i64 handle cb) (append_vstr (Some name)))"

definition hs_attr_del_request :: "u64 \<Rightarrow> bytes \<Rightarrow> comm_buf result" where
  "hs_attr_del_request handle name =
     rbind (append_i16 HS_ATTRDEL (hs_buf (handle_to_group handle) (10 + encoded_length_vstr (length name)))) (\<lambda>cb.
     rbind (append_i64 handle cb) (append_vstr (Some name)))"

definition hs_readdir_request :: "u64 \<Rightarrow> comm_buf result" where
  "hs_readdir_request handle = rbind (append_i16 HS_READDIR (hs_buf (handle_to_group handle) 10)) (append_i64 handle)"

definition hs_exists_request :: "bytes \<Rightarrow> comm_buf result" where
  "hs_exists_request name = rbind (filename_to_group name) (\<lambda>gid.
     rbind (append_i16 HS_EXISTS (hs_buf gid (2 + encoded_length_vstr (length name)))) (append_vstr (Some name)))"

definition hs_lock_request :: "u64 \<Rightarrow> u32 \<Rightarrow> bool \<Rightarrow> comm_buf result" where
  "hs_lock_request handle mode try_lock =
     rbind (append_i16 HS_LOCK (hs_buf (handle_to_group handle) 15)) (\<lambda>cb. rbind (append_i64 handle cb) (\<lambda>cb.
     rbind (append_i32 mode cb) (append_byte (if try_lock then 1 else 0))))"

definition hs_release_request :: "u64 \<Rightarrow> comm_buf result" where
  "hs_release_request handle = rbind (append_i16 HS_RELEASE (hs_buf (handle_to_group handle) 10)) (append_i64 handle)"

definition hs_status_request :: "comm_buf result" where
  "hs_status_request = append_i16 HS_STATUS (hs_buf 0 2)"

section \<open>Handlers\<close>

text \<open>The operations of the server, each with the session of the connection. A status request and a handshake are answered at once.\<close>

datatype hyperspace_call =
    HS_handshake u64
  | HS_open u64 cstr u32 u32 "hs_attribute list"
  | HS_close u64 u64
  | HS_mkdir u64 cstr
  | HS_unlink u64 cstr
  | HS_attr_set u64 u64 cstr bytes
  | HS_attr_get u64 u64 cstr
  | HS_attr_del u64 u64 cstr
  | HS_exists u64 cstr
  | HS_readdir u64 u64
  | HS_lock u64 u64 u32 bool
  | HS_release u64 u64
  | HS_status

text \<open>A decoded vstr whose length goes to a \<^verbatim>\<open>uint32_t\<close>.\<close>

definition decode_vstr_buf :: "bytes decoder" where
  "decode_vstr_buf = dbind decode_vstr (\<lambda>(p, len). dret (take (unat (ucast len :: u32)) p))"

definition hs_decode_attr :: "hs_attribute decoder" where
  "hs_decode_attr = dbind decode_vstr_cstr (\<lambda>n. dbind decode_vstr_buf (\<lambda>v. dret \<lparr>attr_name = n, attr_value = v\<rparr>))"

definition hs_open :: "u64 \<Rightarrow> event \<Rightarrow> hyperspace_call outcome result" where
  "hs_open sid = run_handler (\<lambda>x. x) (dbind decode_i32 (\<lambda>flags. dbind decode_i32 (\<lambda>event_mask. dbind decode_vstr_cstr (\<lambda>name.
     dbind decode_i32 (\<lambda>attr_count. dbind (decode_each (unat attr_count) hs_decode_attr) (\<lambda>attrs.
     dret (HS_open sid name flags event_mask attrs)))))))"

definition hs_close :: "u64 \<Rightarrow> event \<Rightarrow> hyperspace_call outcome result" where
  "hs_close sid = run_handler (\<lambda>x. x) (dbind decode_i64 (\<lambda>handle. dret (HS_close sid handle)))"

definition hs_mkdir :: "u64 \<Rightarrow> event \<Rightarrow> hyperspace_call outcome result" where
  "hs_mkdir sid = run_handler (\<lambda>x. x) (dbind decode_vstr_cstr (\<lambda>name. dret (HS_mkdir sid name)))"

definition hs_delete :: "u64 \<Rightarrow> event \<Rightarrow> hyperspace_call outcome result" where
  "hs_delete sid = run_handler (\<lambda>x. x) (dbind decode_vstr_cstr (\<lambda>name. dret (HS_unlink sid name)))"

definition hs_attr_set :: "u64 \<Rightarrow> event \<Rightarrow> hyperspace_call outcome result" where
  "hs_attr_set sid = run_handler (\<lambda>x. x) (dbind decode_i64 (\<lambda>handle. dbind decode_vstr_cstr (\<lambda>name. dbind decode_vstr_buf (\<lambda>val.
     dret (HS_attr_set sid handle name val)))))"

definition hs_attr_get :: "u64 \<Rightarrow> event \<Rightarrow> hyperspace_call outcome result" where
  "hs_attr_get sid = run_handler (\<lambda>x. x) (dbind decode_i64 (\<lambda>handle. dbind decode_vstr_cstr (\<lambda>name. dret (HS_attr_get sid handle name))))"

definition hs_attr_del :: "u64 \<Rightarrow> event \<Rightarrow> hyperspace_call outcome result" where
  "hs_attr_del sid = run_handler (\<lambda>x. x) (dbind decode_i64 (\<lambda>handle. dbind decode_vstr_cstr (\<lambda>name. dret (HS_attr_del sid handle name))))"

definition hs_exists :: "u64 \<Rightarrow> event \<Rightarrow> hyperspace_call outcome result" where
  "hs_exists sid = run_handler (\<lambda>x. x) (dbind decode_vstr_cstr (\<lambda>name. dret (HS_exists sid name)))"

definition hs_readdir :: "u64 \<Rightarrow> event \<Rightarrow> hyperspace_call outcome result" where
  "hs_readdir sid = run_handler (\<lambda>x. x) (dbind decode_i64 (\<lambda>handle. dret (HS_readdir sid handle)))"

definition hs_lock :: "u64 \<Rightarrow> event \<Rightarrow> hyperspace_call outcome result" where
  "hs_lock sid = run_handler (\<lambda>x. x) (dbind decode_i64 (\<lambda>handle. dbind decode_i32 (\<lambda>mode. dbind decode_i8 (\<lambda>try_lock.
     dret (HS_lock sid handle mode (try_lock \<noteq> 0))))))"

definition hs_release :: "u64 \<Rightarrow> event \<Rightarrow> hyperspace_call outcome result" where
  "hs_release sid = run_handler (\<lambda>x. x) (dbind decode_i64 (\<lambda>handle. dret (HS_release sid handle)))"

definition hs_status :: "u64 \<Rightarrow> event \<Rightarrow> hyperspace_call outcome result" where
  "hs_status sid e = Inr (Call HS_status)"

definition hs_handler :: "u64 \<Rightarrow> u16 \<Rightarrow> (event \<Rightarrow> hyperspace_call outcome result) option" where
  "hs_handler sid command =
     (if command = HS_OPEN then Some (hs_open sid)
      else if command = HS_CLOSE then Some (hs_close sid)
      else if command = HS_MKDIR then Some (hs_mkdir sid)
      else if command = HS_DELETE then Some (hs_delete sid)
      else if command = HS_ATTRSET then Some (hs_attr_set sid)
      else if command = HS_ATTRGET then Some (hs_attr_get sid)
      else if command = HS_ATTRDEL then Some (hs_attr_del sid)
      else if command = HS_EXISTS then Some (hs_exists sid)
      else if command = HS_READDIR then Some (hs_readdir sid)
      else if command = HS_LOCK then Some (hs_lock sid)
      else if command = HS_RELEASE then Some (hs_release sid)
      else if command = HS_STATUS then Some (hs_status sid)
      else None)"

text \<open>
  The dispatch on a connection whose session is \<open>sid\<close>: \<open>renew\<close> is what \<^verbatim>\<open>Master::renew_session_lease\<close> answers, \<open>None\<close> for \<^verbatim>\<open>Error::OK\<close>. The
  result is the session of the connection afterwards and what is done with the message.
\<close>

definition hs_handshake :: "u64 \<Rightarrow> bytes \<times> u64 \<Rightarrow> u64 \<times> hyperspace_call outcome result" where
  "hs_handshake sid msg =
     (case decode_i64 msg of
        Inl x \<Rightarrow> (sid, if x = UNDEFINED_BEHAVIOUR then Inl x else Inr (Reply PROTOCOL_ERROR))
      | Inr (session_id, _) \<Rightarrow>
          (session_id, if session_id = 0 then Inr (Reply PROTOCOL_ERROR) else Inr (Call (HS_handshake session_id))))"

definition hs_handle :: "(u64 \<Rightarrow> error option) \<Rightarrow> u64 \<Rightarrow> event \<Rightarrow> u64 \<times> hyperspace_call outcome result" where
  "hs_handle renew sid e =
     (case decode_i16 (ev_message e, ev_message_len e) of
        Inl x \<Rightarrow> (sid, if x = UNDEFINED_BEHAVIOUR then Inl x else Inr (Reply PROTOCOL_ERROR))
      | Inr (command, msg) \<Rightarrow>
        if uint command \<ge> uint HS_COMMAND_MAX then (sid, Inr (Reply PROTOCOL_ERROR))
        else if command = HS_HANDSHAKE then hs_handshake sid msg
        else (case renew sid of
            Some err \<Rightarrow> (sid, Inr (Reply err))
          | None \<Rightarrow> (sid, case hs_handler sid command of None \<Rightarrow> Inr (Reply PROTOCOL_ERROR) | Some h \<Rightarrow> h e)))"

section \<open>Delivery of the requests\<close>

lemma hs_handler_command: "hs_handler sid c = Some h \<Longrightarrow> uint c < uint HS_COMMAND_MAX \<and> c \<noteq> HS_HANDSHAKE"
  by (auto simp: hs_handler_def HS_defs split: if_splits)

interpretation hs: request_protocol "\<lambda>e. snd (hs_handle (\<lambda>_. None) sid e)" "hs_handler sid" for sid
proof
  fix c h e rest
  assume "hs_handler sid c = Some h" "carries e (encode_i16 c @ rest)"
  then show "snd (hs_handle (\<lambda>_. None) sid e) = h e"
    using hs_handler_command[of sid c h] carries_command[of e c rest] by (simp add: hs_handle_def)
qed

text \<open>A session whose lease can be renewed is served as in the protocol.\<close>

definition hs_serves :: "u64 \<Rightarrow> comm_buf result \<Rightarrow> hyperspace_call \<Rightarrow> bool" where
  "hs_serves sid b x \<longleftrightarrow> (\<exists>m. rbind b reset_data_pointers = Inr m \<and>
     (\<forall>renew cid. renew sid = None \<longrightarrow> hs_handle renew sid (event_of cid m) = (sid, Inr (Call x))))"

lemma hs_handle_renewed:
  assumes "renew sid = None" "snd (hs_handle (\<lambda>_. None) sid e) = Inr (Call x)" "\<forall>i. x \<noteq> HS_handshake i"
  shows "hs_handle renew sid e = (sid, Inr (Call x))"
  by (cases "decode_i16 (ev_message e, ev_message_len e)")
    (use assms in \<open>auto simp: hs_handle_def hs_handshake_def split: if_splits sum.splits\<close>)

lemma hs_servesI:
  assumes "sends (\<lambda>e. snd (hs_handle (\<lambda>_. None) sid e)) b x" "\<forall>i. x \<noteq> HS_handshake i"
  shows "hs_serves sid b x"
proof -
  obtain m where m: "rbind b reset_data_pointers = Inr m" "\<And>cid. snd (hs_handle (\<lambda>_. None) sid (event_of cid m)) = Inr (Call x)"
    using assms(1) by (auto simp: sends_def)
  then show ?thesis unfolding hs_serves_def using hs_handle_renewed[OF _ m(2) assms(2)] by blast
qed

lemma hs_handlers:
  "hs_handler sid HS_OPEN = Some (hs_open sid)" "hs_handler sid HS_CLOSE = Some (hs_close sid)" "hs_handler sid HS_MKDIR = Some (hs_mkdir sid)"
  "hs_handler sid HS_DELETE = Some (hs_delete sid)" "hs_handler sid HS_ATTRSET = Some (hs_attr_set sid)"
  "hs_handler sid HS_ATTRGET = Some (hs_attr_get sid)" "hs_handler sid HS_ATTRDEL = Some (hs_attr_del sid)"
  "hs_handler sid HS_EXISTS = Some (hs_exists sid)" "hs_handler sid HS_READDIR = Some (hs_readdir sid)"
  "hs_handler sid HS_LOCK = Some (hs_lock sid)" "hs_handler sid HS_RELEASE = Some (hs_release sid)"
  "hs_handler sid HS_STATUS = Some (hs_status sid)"
  by (simp_all add: hs_handler_def HS_defs)

lemma hs_request:
  assumes "hs_handler sid c = Some h" "h = run_handler code d" "msg_fields es m d x" "b = rbind (append_i16 c (hs_buf gid n)) g" "g = encodes es"
    "n = 2 + m" "n + 16 < 2 ^ 32" "\<forall>i. x \<noteq> HS_handshake i"
  shows "hs_serves sid b x"
  by (rule hs_servesI[OF hs.request_delivered[OF assms(1-3) assms(4)[unfolded hs_buf_def] assms(5-7)] assms(8)])

lemma writes_buf:
  assumes "length s < 2 ^ 32"
  shows "writes (encode_vstr_cstr (Some s)) (encoded_length_vstr (length s)) decode_vstr_buf s"
proof -
  obtain bs where bs: "encode_vstr s = Inr bs" by (simp add: encode_vstr_eq)
  have ok: "vstr_len_ok s" using assms by (simp add: vstr_len_ok_def)
  have n: "unat (ucast (of_nat (length s) :: u64) :: u32) = length s"
    using assms by (simp add: unsigned_ucast_eq unat_of_nat_small take_bit_nat_eq_self_iff)
  have "decodes decode_vstr_buf s bs"
    unfolding decodes_def
    using decode_vstr_ok[OF ok bs] decode_vstr_short[OF ok bs] n by (auto simp: decode_vstr_buf_def dbind_apply)
  then show ?thesis using bs encoded_length_vstr_eq[OF bs] by (auto simp: writes_def encode_vstr_cstr_def)
qed

lemma buf_field [wire_reads]: "msg_fields es n (f s) y \<Longrightarrow> length s < 2 ^ 32 \<Longrightarrow>
    msg_fields (encode_vstr_cstr (Some s) # es) (encoded_length_vstr (length s) + n) (dbind decode_vstr_buf f) y"
  by (rule msg_fields_writes[OF writes_buf])

definition hs_name_ok :: "bytes \<Rightarrow> bool" where
  "hs_name_ok s \<longleftrightarrow> s \<noteq> [] \<and> 0 \<notin> set s \<and> 28 + encoded_length_vstr (length s) < 2 ^ 32"

lemma cstr_at_no_null: "0 \<notin> set s \<Longrightarrow> cstr_at s = s"
  by (auto simp: cstr_at_def takeWhile_eq_all_conv)

lemma hs_group_defined: "hs_name_ok s \<Longrightarrow> \<exists>gid. filename_to_group s = Inr gid"
  by (simp add: hs_name_ok_def filename_to_group_def Let_def cstr_at_no_null)

lemma hs_buf_composed: "hs_buf gid n = composed (header_builder_new PROTOCOL_HYPERSPACE gid) n [] []"
  by (simp only: hs_buf_def composed_new)

lemma hs_name_cstr: "hs_name_ok s \<Longrightarrow> cstr_ok (Some s)"
  by (simp add: hs_name_ok_def cstr_ok_def vstr_len_ok_def encoded_length_vstr_def)

lemma hs_encoded_name: "encoded_length_vstr_cstr (Some s) = encoded_length_vstr (length s)" "cstr_norm (Some s) = Some s"
  by (simp_all add: encoded_length_vstr_cstr_def cstr_norm_def)

lemma name_arg [wire_reads]: "msg_fields es n (f (Some s)) y \<Longrightarrow> cstr_ok (Some s) \<Longrightarrow>
    msg_fields (encode_vstr_cstr (Some s) # es) (encoded_length_vstr (length s) + n) (dbind decode_vstr_cstr f) y"
  using cstr_field[of es n f "Some s" y] by (simp only: hs_encoded_name)

lemma hs_serves_name:
  assumes "hs_handler sid c = Some (run_handler code (dbind decode_vstr_cstr (\<lambda>name. dret (f name))))" "hs_name_ok s"
    "\<forall>i. f (Some s) \<noteq> HS_handshake i"
  shows "hs_serves sid (rbind (filename_to_group s) (\<lambda>gid.
    rbind (append_i16 c (hs_buf gid (2 + encoded_length_vstr (length s)))) (append_vstr (Some s)))) (f (Some s))"
proof -
  obtain gid where g: "filename_to_group s = Inr gid" using hs_group_defined[OF assms(2)] by blast
  show ?thesis unfolding g rbind_simps
    by (rule hs_request[OF assms(1) refl], (rule name_arg msg_fields_done)+, rule hs_name_cstr, rule assms, rule refl)
      (use assms(2,3) in \<open>simp_all add: request_fields hs_name_ok_def\<close>)
qed

lemma hs_serves_handle:
  assumes "hs_handler sid c = Some (run_handler code (dbind decode_i64 (\<lambda>h. dret (f h))))" "\<forall>i. f h \<noteq> HS_handshake i"
  shows "hs_serves sid (rbind (append_i16 c (hs_buf (handle_to_group h) 10)) (append_i64 h)) (f h)"
  by (rule hs_request[OF assms(1) refl], (rule wire_reads)+, rule refl) (use assms(2) in \<open>simp_all add: request_fields\<close>)

lemma hs_serves_attr:
  assumes "hs_handler sid c = Some (run_handler code (dbind decode_i64 (\<lambda>h. dbind decode_vstr_cstr (\<lambda>n. dret (f h n)))))" "hs_name_ok s"
    "\<forall>i. f h (Some s) \<noteq> HS_handshake i"
  shows "hs_serves sid (rbind (append_i16 c (hs_buf (handle_to_group h) (10 + encoded_length_vstr (length s)))) (\<lambda>cb.
    rbind (append_i64 h cb) (append_vstr (Some s)))) (f h (Some s))"
  by (rule hs_request[OF assms(1) refl], (rule i64_field name_arg msg_fields_done)+, rule hs_name_cstr, rule assms, rule refl)
    (use assms(2,3) in \<open>simp_all add: request_fields hs_name_ok_def\<close>)

lemma hs_serves_attr_set:
  assumes "hs_name_ok s" "28 + encoded_length_vstr (length s) + encoded_length_vstr (length v) < 2 ^ 32"
  shows "hs_serves sid (hs_attr_set_request h s v) (HS_attr_set sid h (Some s) v)"
proof (rule hs_request, rule hs_handlers, rule hs_attr_set_def)
  have v: "length v < 2 ^ 32" using assms(2) by (simp add: encoded_length_vstr_def)
  show "msg_fields [Inr (encode_i64 h), encode_vstr_cstr (Some s), encode_vstr_cstr (Some v)]
      (8 + (encoded_length_vstr (length s) + (encoded_length_vstr (length v) + 0)))
      (dbind decode_i64 (\<lambda>handle. dbind decode_vstr_cstr (\<lambda>name. dbind decode_vstr_buf (\<lambda>val. dret (HS_attr_set sid handle name val)))))
      (HS_attr_set sid h (Some s) v)"
    by (rule i64_field name_arg buf_field msg_fields_done hs_name_cstr assms v)+
  show "hs_attr_set_request h s v = rbind (append_i16 HS_ATTRSET (hs_buf (handle_to_group h)
      (10 + encoded_length_vstr (length s) + encoded_length_vstr (length v)))) (\<lambda>cb.
      rbind (append_i64 h cb) (\<lambda>cb. rbind (append_vstr (Some s) cb) (append_vstr (Some v))))"
    by (rule hs_attr_set_request_def)
qed (use assms in \<open>simp_all add: request_fields\<close>)

lemma byte_field: "msg_fields es n (f b) y \<Longrightarrow> msg_fields (Inr [b] # es) (1 + n) (dbind decode_i8 f) y"
  using msg_fields_writes[OF writes_fixed(1), of es n f b y] by (simp add: encode_i8_def)

lemma hs_serves_lock: "hs_serves sid (hs_lock_request h mode try_lock) (HS_lock sid h mode try_lock)"
proof (rule hs_request, rule hs_handlers, rule hs_lock_def)
  show "msg_fields [Inr (encode_i64 h), Inr (encode_i32 mode), Inr [if try_lock then 1 else 0]] (8 + (4 + (1 + 0)))
      (dbind decode_i64 (\<lambda>handle. dbind decode_i32 (\<lambda>mode. dbind decode_i8 (\<lambda>try_lock. dret (HS_lock sid handle mode (try_lock \<noteq> 0))))))
      (HS_lock sid h mode try_lock)"
    by (intro i64_field i32_field byte_field) (cases try_lock; simp add: msg_fields_done del: dret_apply)
  show "hs_lock_request h mode try_lock = rbind (append_i16 HS_LOCK (hs_buf (handle_to_group h) 15)) (\<lambda>cb. rbind (append_i64 h cb) (\<lambda>cb.
     rbind (append_i32 mode cb) (append_byte (if try_lock then 1 else 0))))"
    by (rule hs_lock_request_def)
qed (simp_all add: request_fields append_byte_def cb_encode_def)

lemma hs_serves_status: "hs_serves sid hs_status_request HS_status"
  by (rule hs_servesI, unfold hs_status_request_def,
      rule hs.delivered[of sid HS_STATUS "hs_status sid" _ "[]" "header_builder_new PROTOCOL_HYPERSPACE 0" 2 "[]"])
    (simp_all add: hs_handlers hs_status_def hs_buf_def request_defs rbind_Inr_right)

lemma hs_handshake_accepted:
  assumes "s \<noteq> 0"
  shows "\<exists>m. rbind (hs_handshake_request s) reset_data_pointers = Inr m \<and>
    (\<forall>renew sid cid. hs_handle renew sid (event_of cid m) = (s, Inr (Call (HS_handshake s))))"
proof -
  let ?hb = "header_builder_new PROTOCOL_HYPERSPACE 0" and ?pay = "encode_i16 HS_HANDSHAKE @ encode_i64 s"
  have "hs_handshake_request s = Inr (composed ?hb 10 [] ?pay)"
    using composed_appends[of "[]" "[encode_i16 HS_HANDSHAKE, encode_i64 s]" 10 ?hb "[]"]
    by (simp add: hs_handshake_request_def hs_buf_composed append_i16_def append_i64_def appends_eqs rbind_Inr_right)
  moreover obtain m where m: "reset_data_pointers (composed ?hb 10 [] ?pay) = Inr m"
    "\<And>cid. ev_message (event_of cid m) = ?pay \<and> ev_message_len (event_of cid m) = of_nat (length ?pay)"
    using composed_received[of ?pay 10 "[]" ?hb] by auto
  moreover have "hs_handle renew sid (event_of cid m) = (s, Inr (Call (HS_handshake s)))" for renew sid cid
  proof -
    have "carries (event_of cid m) ?pay" using m(2)[of cid] by (simp add: carries_def)
    then have "decode_i16 (ev_message (event_of cid m), ev_message_len (event_of cid m)) = Inr (HS_HANDSHAKE, encode_i64 s, 8)"
      using carries_command[of "event_of cid m" HS_HANDSHAKE "encode_i64 s"] by simp
    moreover have "decode_i64 (encode_i64 s, 8) = Inr (s, [], 0)" using readsD[OF reads_fixed(3), of s 8 "[]"] by simp
    ultimately show ?thesis using assms by (simp add: hs_handle_def hs_handshake_def HS_defs)
  qed
  ultimately show ?thesis by auto
qed


section \<open>Open requests\<close>

definition hs_attr_fields :: "hs_attribute list \<Rightarrow> bytes result list" where
  "hs_attr_fields as = concat (map (\<lambda>a. [encode_vstr_cstr (attr_name a), encode_vstr_cstr (Some (attr_value a))]) as)"

lemma hs_append_attrs_eq: "hs_append_attrs as = encodes (hs_attr_fields as)"
proof (induction as)
  case Nil
  show ?case by (simp add: fun_eq_iff hs_attr_fields_def)
next
  case (Cons a as)
  then show ?case by (intro ext) (simp add: hs_attr_fields_def append_encode encodes_eqs)
qed

definition hs_attr_ok :: "hs_attribute \<Rightarrow> bool" where
  "hs_attr_ok a \<longleftrightarrow> cstr_ok (attr_name a) \<and> length (attr_value a) < 2 ^ 32"

definition hs_attr_norm :: "hs_attribute \<Rightarrow> hs_attribute" where
  "hs_attr_norm a = a\<lparr>attr_name := cstr_norm (attr_name a)\<rparr>"

lemma hs_attr_norm_eq: "hs_attr_norm a = \<lparr>attr_name = cstr_norm (attr_name a), attr_value = attr_value a\<rparr>"
  by (cases a) (simp add: hs_attr_norm_def)

definition hs_attrs_length :: "hs_attribute list \<Rightarrow> nat" where
  "hs_attrs_length as = sum_list (map (\<lambda>a. encoded_length_vstr_cstr (attr_name a) + encoded_length_vstr (length (attr_value a))) as)"

lemma hs_attrs_fields:
  assumes "list_all hs_attr_ok as"
  shows "msg_fields (hs_attr_fields as) (hs_attrs_length as) (decode_each (length as) hs_decode_attr) (map hs_attr_norm as)"
  unfolding hs_attr_fields_def hs_attrs_length_def
proof (rule msg_fields_each[where e = "\<lambda>a. [encode_vstr_cstr (attr_name a), encode_vstr_cstr (Some (attr_value a))]"
    and l = "\<lambda>a. encoded_length_vstr_cstr (attr_name a) + encoded_length_vstr (length (attr_value a))" and g = hs_attr_norm and xs = as])
  fix a
  assume "a \<in> set as"
  then have a: "hs_attr_ok a" using assms by (simp add: list_all_iff)
  have "msg_fields [encode_vstr_cstr (attr_name a), encode_vstr_cstr (Some (attr_value a))]
      (encoded_length_vstr_cstr (attr_name a) + (encoded_length_vstr (length (attr_value a)) + 0)) hs_decode_attr
      \<lparr>attr_name = cstr_norm (attr_name a), attr_value = attr_value a\<rparr>"
    unfolding hs_decode_attr_def by (intro cstr_field buf_field msg_fields_done) (use a in \<open>simp_all add: hs_attr_ok_def\<close>)
  then show "msg_fields [encode_vstr_cstr (attr_name a), encode_vstr_cstr (Some (attr_value a))]
      (encoded_length_vstr_cstr (attr_name a) + encoded_length_vstr (length (attr_value a))) hs_decode_attr (hs_attr_norm a)"
    unfolding hs_attr_norm_eq by simp
qed

lemma hs_open_fields:
  assumes "cstr_ok (Some name)" "list_all hs_attr_ok as" "length as < 2 ^ 32"
  shows "msg_fields (Inr (encode_i32 flags) # Inr (encode_i32 emask) # encode_vstr_cstr (Some name) # Inr (encode_i32 (of_nat (length as))) #
      hs_attr_fields as) (4 + (4 + (encoded_length_vstr (length name) + (4 + hs_attrs_length as))))
    (dbind decode_i32 (\<lambda>flags. dbind decode_i32 (\<lambda>event_mask. dbind decode_vstr_cstr (\<lambda>name.
     dbind decode_i32 (\<lambda>attr_count. dbind (decode_each (unat attr_count) hs_decode_attr) (\<lambda>attrs.
     dret (HS_open sid name flags event_mask attrs)))))))
    (HS_open sid (Some name) flags emask (map hs_attr_norm as))"
proof -
  have n: "unat (of_nat (length as) :: u32) = length as" by (rule unat_of_nat_small) (use assms(3) in simp)
  have "msg_fields (hs_attr_fields as @ []) (hs_attrs_length as + 0)
      (dbind (decode_each (unat (of_nat (length as) :: u32)) hs_decode_attr) (\<lambda>attrs. dret (HS_open sid (Some name) flags emask attrs)))
      (HS_open sid (Some name) flags emask (map hs_attr_norm as))"
    unfolding n by (rule msg_fields_cat[OF hs_attrs_fields[OF assms(2)]]) (rule msg_fields_done)
  then have "msg_fields (hs_attr_fields as) (hs_attrs_length as)
      (dbind (decode_each (unat (of_nat (length as) :: u32)) hs_decode_attr) (\<lambda>attrs. dret (HS_open sid (Some name) flags emask attrs)))
      (HS_open sid (Some name) flags emask (map hs_attr_norm as))"
    by simp
  then show ?thesis by (intro i32_field name_arg assms(1))
qed
lemma msg_fieldsD: "msg_fields es n d x \<Longrightarrow> \<exists>bss. es = map Inr bss \<and> length (concat bss) = n"
  by (auto simp: msg_fields_def)

definition hs_callback_mask :: "u32 option \<Rightarrow> u32" where
  "hs_callback_mask cb = (case cb of Some event_mask \<Rightarrow> event_mask | None \<Rightarrow> 0)"

text \<open>What the names of the attributes take in the message.\<close>

definition hs_names_length :: "hs_attribute list \<Rightarrow> nat" where
  "hs_names_length as = sum_list (map (\<lambda>a. encoded_length_vstr_cstr (attr_name a)) as)"

text \<open>C24. An open request with initial attributes arrives exactly when the names of the attributes take, encoded, as much space as the name of
  the file once for each attribute, which is what is reserved for them: longer names are written past the end of the buffer, and shorter
  ones leave it partly unwritten, so that the check before sending fails. A request without attributes always arrives.\<close>

theorem hs_open_attributes:
  assumes "hs_name_ok name" "list_all hs_attr_ok attrs" "length attrs < 2 ^ 32"
    and "16 + hs_open_length name attrs < 2 ^ 32"
  shows "(hs_names_length attrs = length attrs * encoded_length_vstr (length name) \<longrightarrow> hs_serves sid (hs_open_request name flags callback attrs)
      (HS_open sid (Some name) flags (hs_callback_mask callback) (map hs_attr_norm attrs))) \<and>
    (hs_names_length attrs > length attrs * encoded_length_vstr (length name) \<longrightarrow> hs_open_request name flags callback attrs = Inl UNDEFINED_BEHAVIOUR) \<and>
    (hs_names_length attrs < length attrs * encoded_length_vstr (length name) \<longrightarrow> rbind (hs_open_request name flags callback attrs) reset_data_pointers = Inl FAILED_EXPECTATION)"
proof -
  obtain gid where g: "filename_to_group name = Inr gid" using hs_group_defined[OF assms(1)] by blast
  let ?es = "Inr (encode_i32 flags) # Inr (encode_i32 (hs_callback_mask callback)) # encode_vstr_cstr (Some name) #
    Inr (encode_i32 (of_nat (length attrs))) # hs_attr_fields attrs"
  let ?m = "4 + (4 + (encoded_length_vstr (length name) + (4 + hs_attrs_length attrs)))" and ?n = "hs_open_length name attrs"
  have r: "hs_open_request name flags callback attrs = rbind (append_i16 HS_OPEN (hs_buf gid ?n)) (encodes ?es)"
    by (simp add: hs_open_request_def g append_encode hs_append_attrs_eq encodes_eqs hs_callback_mask_def)
  have f: "msg_fields ?es ?m (dbind decode_i32 (\<lambda>flags. dbind decode_i32 (\<lambda>event_mask. dbind decode_vstr_cstr (\<lambda>name.
     dbind decode_i32 (\<lambda>attr_count. dbind (decode_each (unat attr_count) hs_decode_attr) (\<lambda>attrs.
     dret (HS_open sid name flags event_mask attrs)))))))
     (HS_open sid (Some name) flags (hs_callback_mask callback) (map hs_attr_norm attrs))"
    by (rule hs_open_fields[OF hs_name_cstr[OF assms(1)] assms(2,3)])
  have n: "?n + hs_names_length attrs = 2 + ?m + length attrs * encoded_length_vstr (length name)"
    by (simp add: hs_open_length_def hs_attrs_length_def hs_names_length_def sum_list_addf sum_list_triv algebra_simps)
  have "hs_serves sid (hs_open_request name flags callback attrs) (HS_open sid (Some name) flags (hs_callback_mask callback) (map hs_attr_norm attrs))"
    if "hs_names_length attrs = length attrs * encoded_length_vstr (length name)"
    by (rule hs_request[OF hs_handlers(1) hs_open_def f r refl]) (use n that assms(4) in simp_all)
  moreover obtain bss where bss: "?es = map Inr bss" "length (concat bss) = ?m" using msg_fieldsD[OF f] by (elim exE conjE) (rule that)
  have a: "hs_open_request name flags callback attrs =
      appends (encode_i16 HS_OPEN # bss) (composed (header_builder_new PROTOCOL_HYPERSPACE gid) ?n [] [])"
    unfolding r bss(1) encodes_Inr hs_buf_composed by (simp add: append_i16_def)
  have len: "length ([] @ concat (encode_i16 HS_OPEN # bss)) = 2 + ?m" using bss(2) by simp
  have "hs_open_request name flags callback attrs = Inl UNDEFINED_BEHAVIOUR" if "hs_names_length attrs > length attrs * encoded_length_vstr (length name)"
    unfolding a by (rule composed_overflow, unfold len) (use n that assms(4) in simp_all)
  moreover have "rbind (hs_open_request name flags callback attrs) reset_data_pointers = Inl FAILED_EXPECTATION" if "hs_names_length attrs < length attrs * encoded_length_vstr (length name)"
    unfolding a using composed_appends[of "[]" "encode_i16 HS_OPEN # bss" ?n "header_builder_new PROTOCOL_HYPERSPACE gid" "[]"]
      composed_underflow[of "concat (encode_i16 HS_OPEN # bss)" ?n "header_builder_new PROTOCOL_HYPERSPACE gid" "[]"] len n that assms(4) by simp
  ultimately show ?thesis by blast
qed

theorem hs_open_attributes_witness:
  "hs_open_request [47, 97] 1 None [\<lparr>attr_name = Some [115, 101, 114, 118], attr_value = [49]\<rparr>] = Inl UNDEFINED_BEHAVIOUR \<and>
   rbind (hs_open_request [47, 97, 98] 1 None [\<lparr>attr_name = Some [115], attr_value = [49]\<rparr>]) reset_data_pointers = Inl FAILED_EXPECTATION \<and>
   hs_serves 7 (hs_open_request [47, 97] 1 None [\<lparr>attr_name = Some [115, 116], attr_value = [49]\<rparr>])
     (HS_open 7 (Some [47, 97]) 1 0 [\<lparr>attr_name = Some [115, 116], attr_value = [49]\<rparr>])"
proof -
  have e: "encoded_length_vstr_cstr (Some [115 :: byte, 101, 114, 118]) = 6" "encoded_length_vstr_cstr (Some [115 :: byte]) = 3"
    "encoded_length_vstr_cstr (Some [115 :: byte, 116]) = 4" "encoded_length_vstr (length [47 :: byte, 97]) = 4"
    "encoded_length_vstr (length [47 :: byte, 97, 98]) = 5" "encoded_length_vstr (length [49 :: byte]) = 3"
    by code_simp+
  have ok: "hs_name_ok [47, 97]" "hs_name_ok [47, 97, 98]" by (simp_all only: hs_name_ok_def e) simp_all
  have a: "list_all hs_attr_ok [\<lparr>attr_name = Some [115, 101, 114, 118], attr_value = [49]\<rparr>]"
    "list_all hs_attr_ok [\<lparr>attr_name = Some [115], attr_value = [49]\<rparr>]" "list_all hs_attr_ok [\<lparr>attr_name = Some [115, 116], attr_value = [49]\<rparr>]"
    by (simp_all add: hs_attr_ok_def cstr_ok_def vstr_len_ok_def)
  note t = hs_open_attributes[of _ _ 7 1 None]
  show ?thesis
    using t[OF ok(1) a(1)] t[OF ok(2) a(2)] t[OF ok(1) a(3)]
    by (simp add: hs_open_length_def hs_attrs_length_def hs_names_length_def e[simplified] hs_callback_mask_def hs_attr_norm_def cstr_norm_def)
qed
section \<open>Thread groups of file names\<close>

lemma group_sum: "foldl (\<lambda>gid c. gid + scast c) g (xs :: bytes) = g + foldl (\<lambda>gid c. gid + scast c) (0 :: u32) xs"
proof (induction xs arbitrary: g)
  case (Cons x xs)
  show ?case using Cons[of "g + scast x"] Cons[of "0 + scast x"] by (simp add: add.assoc)
qed simp

text \<open>The three ways to write a name that begins and ends with other characters are in one group.\<close>

lemma group_slashes:
  assumes "s \<noteq> []" "0 \<notin> set s" "hd s \<noteq> 47" "last s \<noteq> 47"
  shows "filename_to_group (47 # s) = filename_to_group s" "filename_to_group (s @ [47]) = filename_to_group s"
  using assms group_sum[of 47 s] group_sum[of 47 "s @ [47]"]
  by (simp_all add: filename_to_group_def Let_def cstr_at_no_null)

section \<open>Hostile messages\<close>

lemma checked_vstr_buf: "checked_decoder decode_vstr_buf"
  unfolding decode_vstr_buf_def by (rule checked_dbind[OF vstr.checked_decoder_axioms]) (simp add: checked_dret split: prod.splits)

lemma hs_handler_safe:
  assumes h: "hs_handler sid c = Some h" and le: "unat (ev_message_len e) \<le> length (ev_message e)" and two: "2 \<le> unat (ev_message_len e)"
  shows "h e \<noteq> Inl UNDEFINED_BEHAVIOUR"
proof -
  note run = run_handler_safe[OF _ le two]
  have "hs_open sid e \<noteq> Inl UNDEFINED_BEHAVIOUR" "hs_close sid e \<noteq> Inl UNDEFINED_BEHAVIOUR" "hs_mkdir sid e \<noteq> Inl UNDEFINED_BEHAVIOUR"
    "hs_delete sid e \<noteq> Inl UNDEFINED_BEHAVIOUR" "hs_attr_set sid e \<noteq> Inl UNDEFINED_BEHAVIOUR" "hs_attr_get sid e \<noteq> Inl UNDEFINED_BEHAVIOUR"
    "hs_attr_del sid e \<noteq> Inl UNDEFINED_BEHAVIOUR" "hs_exists sid e \<noteq> Inl UNDEFINED_BEHAVIOUR" "hs_readdir sid e \<noteq> Inl UNDEFINED_BEHAVIOUR"
    "hs_lock sid e \<noteq> Inl UNDEFINED_BEHAVIOUR" "hs_release sid e \<noteq> Inl UNDEFINED_BEHAVIOUR"
    unfolding hs_open_def hs_close_def hs_mkdir_def hs_delete_def hs_attr_set_def hs_attr_get_def hs_attr_del_def hs_exists_def hs_readdir_def
      hs_lock_def hs_release_def hs_decode_attr_def
    by (intro run checked_dbind checked_each checked_vstr_buf checked_fields)+
  then show ?thesis using h by (auto simp: hs_handler_def hs_status_def split: if_splits)
qed

lemma hs_messages_safe:
  assumes le: "unat (ev_message_len e) \<le> length (ev_message e)"
  shows "snd (hs_handle renew sid e) \<noteq> Inl UNDEFINED_BEHAVIOUR"
proof (cases "decode_i16 (ev_message e, ev_message_len e)")
  case (Inl x)
  then show ?thesis using i16.never_undefined[OF le] by (auto simp: hs_handle_def)
next
  case (Inr p)
  then obtain c ip r where p: "decode_i16 (ev_message e, ev_message_len e) = Inr (c, ip, r)" by (cases p) auto
  have "snd (hs_handshake sid (ip, r)) \<noteq> Inl UNDEFINED_BEHAVIOUR"
    using i64.never_undefined[OF i16.cursor_kept[OF le p]] by (auto simp: hs_handshake_def split: sum.splits)
  then show ?thesis using hs_handler_safe[of sid c _ e, OF _ le decode_command_length[OF p]] p
    by (auto simp: hs_handle_def split: option.splits)
qed

end
