(* ===== verification/LinkedLists.thy ===== *)
theory LinkedLists
  imports Prelude
begin

text \<open>
  Doubly linked lists in a heap, as the caches of the program build them by hand: nodes with \<^verbatim>\<open>prev\<close> and \<^verbatim>\<open>next\<close> pointers, a
  pointer to the first node (the tail) and one to the last (the head). The node types of the components extend the record
  \<open>links\<close>, so that the lemmas here apply to all of them. Shown: adding a node at either end and unlinking a node anywhere keep
  the structure and change the sequence of nodes as they should.
\<close>

section \<open>Heaps\<close>

record links =
  l_prev :: "nat option"
  l_next :: "nat option"

type_synonym 'a heap = "nat \<rightharpoonup> 'a links_scheme"

text \<open>Access through a pointer; using the null pointer or a dangling one is undefined.\<close>

definition load :: "'a heap \<Rightarrow> nat option \<Rightarrow> 'a links_scheme result" where
  "load h p = (case Option.bind p h of None \<Rightarrow> Inl UNDEFINED_BEHAVIOUR | Some n \<Rightarrow> Inr n)"

definition update_at :: "nat option \<Rightarrow> ('a links_scheme \<Rightarrow> 'a links_scheme) \<Rightarrow> 'a heap \<Rightarrow> 'a heap result" where
  "update_at p f h = rbind (load h p) (\<lambda>n. Inr (h(the p \<mapsto> f n)))"

definition set_next :: "nat option \<Rightarrow> nat option \<Rightarrow> 'a heap \<Rightarrow> 'a heap result" where
  "set_next p q = update_at p (\<lambda>n. n\<lparr>l_next := q\<rparr>)"

definition set_prev :: "nat option \<Rightarrow> nat option \<Rightarrow> 'a heap \<Rightarrow> 'a heap result" where
  "set_prev p q = update_at p (\<lambda>n. n\<lparr>l_prev := q\<rparr>)"

lemma load_simps [simp]:
  "load h None = Inl UNDEFINED_BEHAVIOUR"
  "h a = Some n \<Longrightarrow> load h (Some a) = Inr n"
  by (simp_all add: load_def)

lemma set_link_simps [simp]:
  "h a = Some n \<Longrightarrow> set_next (Some a) q h = Inr (h(a \<mapsto> n\<lparr>l_next := q\<rparr>))"
  "h a = Some n \<Longrightarrow> set_prev (Some a) q h = Inr (h(a \<mapsto> n\<lparr>l_prev := q\<rparr>))"
  by (simp_all add: set_next_def set_prev_def update_at_def)

section \<open>Segments\<close>

text \<open>The first and the last node of a sequence, or a default.\<close>

definition first_or :: "nat list \<Rightarrow> nat option \<Rightarrow> nat option" where
  "first_or xs q = (case xs of [] \<Rightarrow> q | x # _ \<Rightarrow> Some x)"

definition last_or :: "nat list \<Rightarrow> nat option \<Rightarrow> nat option" where
  "last_or xs p = (if xs = [] then p else Some (last xs))"

lemma first_or_simps [simp]: "first_or [] q = q" "first_or (x # xs) q = Some x" "first_or (xs @ ys) q = first_or xs (first_or ys q)"
  by (simp_all add: first_or_def split: list.splits)

lemma last_or_simps [simp]: "last_or [] p = p" "last_or (xs @ [x]) p = Some x" "last_or (x # xs) p = last_or xs (Some x)"
  "last_or (xs @ ys) p = last_or ys (last_or xs p)"
  by (simp_all add: last_or_def)

lemma first_or_None [simp]: "first_or xs None = None \<longleftrightarrow> xs = []"
  by (cases xs) simp_all

lemma last_or_None [simp]: "last_or xs None = None \<longleftrightarrow> xs = []"
  by (simp add: last_or_def)

lemma first_last_or_nonempty:
  "us \<noteq> [] \<Longrightarrow> first_or us (Some q) = first_or us None" "us \<noteq> [] \<Longrightarrow> last_or us (Some p) = last_or us None"
  "us \<noteq> [] \<Longrightarrow> first_or us (first_or vs q') = first_or us None" "us \<noteq> [] \<Longrightarrow> last_or us (last_or vs p') = last_or us None"
  by (auto simp: first_or_def last_or_def split: list.splits)

text \<open>\<open>seg h p xs q\<close>: the nodes \<open>xs\<close> are linked one to the next, the first points back to \<open>p\<close> and the last on to \<open>q\<close>.\<close>

fun seg :: "'a heap \<Rightarrow> nat option \<Rightarrow> nat list \<Rightarrow> nat option \<Rightarrow> bool" where
  "seg h p [] q = True"
| "seg h p (x # xs) q = ((case h x of None \<Rightarrow> False | Some n \<Rightarrow> l_prev n = p \<and> l_next n = first_or xs q) \<and> seg h (Some x) xs q)"

lemma seg_append [simp]: "seg h p (xs @ ys) q \<longleftrightarrow> seg h p xs (first_or ys q) \<and> seg h (last_or xs p) ys q"
  by (induction xs arbitrary: p) (auto split: option.splits)

lemma seg_cong: "(\<And>x. x \<in> set xs \<Longrightarrow> h x = h' x) \<Longrightarrow> seg h p xs q = seg h' p xs q"
  by (induction xs arbitrary: p) simp_all

lemma seg_upd [simp]: "x \<notin> set xs \<Longrightarrow> seg (h(x := v)) p xs q = seg h p xs q"
  by (rule seg_cong) auto

lemma seg_domD: "seg h p xs q \<Longrightarrow> x \<in> set xs \<Longrightarrow> \<exists>n. h x = Some n"
  by (induction xs arbitrary: p) (auto split: option.splits)

text \<open>Changing the outer links of a segment.\<close>

lemma seg_set_first:
  "seg h p (x # xs) q \<Longrightarrow> distinct (x # xs) \<Longrightarrow> \<exists>n. h x = Some n \<and> seg (h(x \<mapsto> n\<lparr>l_prev := p'\<rparr>)) p' (x # xs) q"
  by (auto split: option.splits)

lemma seg_set_last:
  "seg h p (xs @ [x]) q \<Longrightarrow> distinct (xs @ [x]) \<Longrightarrow> \<exists>n. h x = Some n \<and> seg (h(x \<mapsto> n\<lparr>l_next := q'\<rparr>)) p (xs @ [x]) q'"
  by (auto split: option.splits)

section \<open>Lists\<close>

text \<open>A whole list: nothing before it, nothing behind it, and no other node in the heap.\<close>

definition linked :: "'a heap \<Rightarrow> nat list \<Rightarrow> bool" where
  "linked h xs \<longleftrightarrow> distinct xs \<and> dom h = set xs \<and> seg h None xs None"

lemma linked_Nil [simp]: "linked Map.empty []" "linked h [] \<longleftrightarrow> h = Map.empty"
  by (auto simp: linked_def)

text \<open>The content of the nodes without their links: what the components store.\<close>

definition contents :: "('a links_scheme \<Rightarrow> 'b) \<Rightarrow> 'a heap \<Rightarrow> nat list \<Rightarrow> 'b list" where
  "contents f h xs = map (\<lambda>x. f (the (h x))) xs"

lemma contents_simps [simp]:
  "contents f h [] = []" "contents f h (x # xs) = f (the (h x)) # contents f h xs"
  "contents f h (xs @ ys) = contents f h xs @ contents f h ys" "length (contents f h xs) = length xs"
  by (simp_all add: contents_def)

lemma contents_cong: "(\<And>x. x \<in> set xs \<Longrightarrow> f (the (h x)) = f (the (h' x))) \<Longrightarrow> contents f h xs = contents f h' xs"
  by (simp add: contents_def)

lemma contents_upd [simp]: "x \<notin> set xs \<Longrightarrow> contents f (h(x := v)) xs = contents f h xs"
  by (rule contents_cong) auto

lemma linked_node: "linked h xs \<Longrightarrow> x \<in> set xs \<Longrightarrow> \<exists>n. h x = Some n"
  unfolding linked_def using seg_domD by blast

lemma linked_middle:
  assumes "linked h (xs @ x # ys)"
  shows "\<exists>n. h x = Some n \<and> l_prev n = last_or xs None \<and> l_next n = first_or ys None"
  using assms by (auto simp: linked_def split: option.splits)

section \<open>Adding and unlinking nodes\<close>

text \<open>Functions of a node that do not depend on its links.\<close>

definition link_free :: "('a links_scheme \<Rightarrow> 'b) \<Rightarrow> bool" where
  "link_free f \<longleftrightarrow> (\<forall>n v. f (n\<lparr>l_next := v\<rparr>) = f n \<and> f (n\<lparr>l_prev := v\<rparr>) = f n)"

lemma link_freeD: "link_free f \<Longrightarrow> f (n\<lparr>l_next := v\<rparr>) = f n" "link_free f \<Longrightarrow> f (n\<lparr>l_prev := v\<rparr>) = f n"
  by (simp_all add: link_free_def)

text \<open>Joining the neighbours \<open>p\<close> and \<open>q\<close> of a node to each other.\<close>

definition join :: "nat option \<Rightarrow> nat option \<Rightarrow> 'a heap \<Rightarrow> 'a heap result" where
  "join p q h = rbind (if p = None then Inr h else set_next p q h) (\<lambda>h. if q = None then Inr h else set_prev q p h)"

lemma seg_join:
  assumes "seg h p0 xs (Some x)" "seg h (Some x) ys q0" "distinct (xs @ x # ys)" "xs \<noteq> [] \<or> p0 = None" "ys \<noteq> [] \<or> q0 = None"
    and "link_free f"
  shows "\<exists>h'. join (last_or xs p0) (first_or ys q0) h = Inr h' \<and> h' x = h x \<and> dom h' = dom h
    \<and> seg h' p0 xs (first_or ys q0) \<and> seg h' (last_or xs p0) ys q0
    \<and> (\<forall>y. map_option f (h' y) = map_option f (h y))"
proof -
  consider "xs = []" "ys = []" | y ys' where "xs = []" "ys = y # ys'" | xs' z where "xs = xs' @ [z]" "ys = []"
    | xs' z y ys' where "xs = xs' @ [z]" "ys = y # ys'"
    by (metis list.exhaust rev_exhaust)
  then show ?thesis
  proof cases
    case 1
    then show ?thesis using assms by (auto simp: join_def link_freeD[OF assms(6)])
  next
    case (2 y ys')
    then obtain n where "h y = Some n" "l_next n = first_or ys' q0" "seg h (Some y) ys' q0"
      using assms by (auto split: option.splits)
    then show ?thesis using 2 assms by (auto simp: join_def link_freeD[OF assms(6)])
  next
    case (3 xs' z)
    then obtain n where "h z = Some n" "l_prev n = last_or xs' p0" "seg h p0 xs' (Some z)"
      using assms by (auto split: option.splits)
    then show ?thesis using 3 assms by (auto simp: join_def link_freeD[OF assms(6)])
  next
    case (4 xs' z y ys')
    then obtain n m where "h z = Some n" "l_prev n = last_or xs' p0" "seg h p0 xs' (Some z)"
      "h y = Some m" "l_next m = first_or ys' q0" "seg h (Some y) ys' q0"
      using assms by (auto split: option.splits)
    then show ?thesis using 4 assms by (auto simp: join_def link_freeD[OF assms(6)])
  qed
qed

lemma linked_unlink:
  assumes "linked h (xs @ x # ys)" "link_free f"
  shows "\<exists>h'. join (last_or xs None) (first_or ys None) h = Inr h' \<and> h' x = h x \<and> linked (h'(x := None)) (xs @ ys)
    \<and> dom h' = dom h \<and> (\<forall>y. map_option f (h' y) = map_option f (h y))"
proof -
  have "seg h None xs (Some x)" "seg h (Some x) ys None" "distinct (xs @ x # ys)"
    using assms(1) by (auto simp: linked_def split: option.splits)
  from seg_join[OF this _ _ assms(2)] obtain h' where h': "join (last_or xs None) (first_or ys None) h = Inr h'" "h' x = h x"
    "dom h' = dom h" "seg h' None xs (first_or ys None)" "seg h' (last_or xs None) ys None"
    "\<forall>y. map_option f (h' y) = map_option f (h y)" by auto
  moreover have "dom (h'(x := None)) = set (xs @ ys)" using assms(1) h'(3) by (auto simp: linked_def)
  ultimately show ?thesis using assms(1) by (intro exI[of _ h']) (simp add: linked_def)
qed

lemma linked_snoc:
  assumes "linked h xs" "x \<notin> set xs" "l_prev n = last_or xs None" "l_next n = None" "link_free f"
  shows "\<exists>h'. (if xs = [] then Inr h else set_next (last_or xs None) (Some x) h) = Inr h' \<and> linked (h'(x \<mapsto> n)) (xs @ [x])
    \<and> (\<forall>y. map_option f (h' y) = map_option f (h y)) \<and> h' x = h x"
proof (cases xs rule: rev_cases)
  case Nil
  then show ?thesis using assms by (auto simp: linked_def link_freeD[OF assms(5)])
next
  case (snoc ys z)
  then obtain m where "h z = Some m" "l_prev m = last_or ys None" "seg h None ys (Some z)"
    using assms(1) by (auto simp: linked_def split: option.splits)
  then show ?thesis using snoc assms by (auto simp: linked_def link_freeD[OF assms(5)])
qed

lemma linked_cons:
  assumes "linked h xs" "x \<notin> set xs" "l_next n = first_or xs None" "l_prev n = None" "link_free f"
  shows "\<exists>h'. (if xs = [] then Inr h else set_prev (first_or xs None) (Some x) h) = Inr h' \<and> linked (h'(x \<mapsto> n)) (x # xs)
    \<and> (\<forall>y. map_option f (h' y) = map_option f (h y)) \<and> h' x = h x"
proof (cases xs)
  case Nil
  then show ?thesis using assms by (auto simp: linked_def link_freeD[OF assms(5)])
next
  case (Cons y ys)
  then obtain m where "h y = Some m" "l_next m = first_or ys None" "seg h (Some y) ys None"
    using assms(1) by (auto simp: linked_def split: option.splits)
  then show ?thesis using Cons assms by (auto simp: linked_def link_freeD[OF assms(5)])
qed

lemma contents_eqI: "(\<And>y. y \<in> set xs \<Longrightarrow> map_option f (h' y) = map_option f (h y)) \<Longrightarrow> set xs \<subseteq> dom h \<Longrightarrow> contents f h' xs = contents f h xs"
  by (rule contents_cong) (metis (no_types) domD map_option_eq_Some option.sel subsetD)

end
