(* ===== verification/RequestCaches.thy ===== *)
theory RequestCaches
  imports LinkedLists
begin

text \<open>
  The cache of outstanding requests of a reactor (\<^verbatim>\<open>AsyncComm/RequestCache\<close>): a hand-made doubly linked list with a map from
  request ids to its nodes. Shown: every sequence of operations runs without touching memory it does not own, its loops end, and
  its results are those of a plain queue of requests.
\<close>

section \<open>The cache\<close>

text \<open>\<^verbatim>\<open>boost::xtime\<close>: seconds and nanoseconds.\<close>

type_synonym xtime = "int \<times> int"

definition xtime_le :: "xtime \<Rightarrow> xtime \<Rightarrow> bool" where
  "xtime_le a b \<longleftrightarrow> fst a < fst b \<or> fst a = fst b \<and> snd a \<le> snd b"

text \<open>The handler of a connection and the dispatch handler of a request are object addresses; a purged node has a null handler.\<close>

record cache_node = links +
  n_expire :: xtime
  n_id :: u32
  n_handler :: "nat option"
  n_dh :: nat

text \<open>\<open>rc_fresh\<close> is the address the next allocation returns.\<close>

record request_cache =
  rc_heap :: "nat \<rightharpoonup> cache_node"
  rc_id_map :: "u32 \<rightharpoonup> nat"
  rc_head :: "nat option"
  rc_tail :: "nat option"
  rc_fresh :: nat

definition rc_new :: request_cache where
  "rc_new = \<lparr>rc_heap = Map.empty, rc_id_map = Map.empty, rc_head = None, rc_tail = None, rc_fresh = 0\<rparr>"

definition rc_insert :: "u32 \<Rightarrow> nat \<Rightarrow> nat \<Rightarrow> xtime \<Rightarrow> request_cache \<Rightarrow> request_cache result" where
  "rc_insert i handler dh expire rc =
     (if rc_id_map rc i \<noteq> None then Inl FAILED_EXPECTATION
      else let a = rc_fresh rc;
               node = \<lparr>l_prev = None, l_next = None, n_expire = expire, n_id = i, n_handler = Some handler, n_dh = dh\<rparr> in
      rbind (if rc_head rc = None
             then Inr (rc\<lparr>rc_heap := (rc_heap rc)(a \<mapsto> node), rc_head := Some a, rc_tail := Some a\<rparr>)
             else rbind (set_prev (rc_tail rc) (Some a) (rc_heap rc)) (\<lambda>h.
               Inr (rc\<lparr>rc_heap := h(a \<mapsto> node\<lparr>l_next := rc_tail rc\<rparr>), rc_tail := Some a\<rparr>)))
        (\<lambda>rc. Inr (rc\<lparr>rc_id_map := (rc_id_map rc)(i \<mapsto> a), rc_fresh := Suc a\<rparr>)))"

definition rc_remove :: "u32 \<Rightarrow> request_cache \<Rightarrow> (nat option \<times> request_cache) result" where
  "rc_remove i rc =
     (case rc_id_map rc i of
        None \<Rightarrow> Inr (None, rc)
      | Some a \<Rightarrow>
        rbind (load (rc_heap rc) (Some a)) (\<lambda>node.
        rbind (if l_prev node = None then Inr (rc\<lparr>rc_tail := l_next node\<rparr>)
               else rbind (set_next (l_prev node) (l_next node) (rc_heap rc)) (\<lambda>h. Inr (rc\<lparr>rc_heap := h\<rparr>))) (\<lambda>rc.
        rbind (if l_next node = None then Inr (rc\<lparr>rc_head := l_prev node\<rparr>)
               else rbind (set_prev (l_next node) (l_prev node) (rc_heap rc)) (\<lambda>h. Inr (rc\<lparr>rc_heap := h\<rparr>))) (\<lambda>rc.
        Inr (Some (n_dh node), rc\<lparr>rc_id_map := (rc_id_map rc)(i := None), rc_heap := (rc_heap rc)(a := None)\<rparr>)))))"

text \<open>\<^verbatim>\<open>get_next_timeout\<close> yields the handler and dispatch handler of an expired request, or the next expiry time (zero if there is
  none). Not to return is the value \<^term>\<open>None\<close>.\<close>

datatype timeout = Expired nat nat | Next_timeout xtime

definition rc_pop_head :: "nat \<Rightarrow> cache_node \<Rightarrow> request_cache \<Rightarrow> request_cache result" where
  "rc_pop_head a node rc =
     rbind (case l_prev node of
        Some p \<Rightarrow> rbind (set_next (Some p) None (rc_heap rc)) (\<lambda>h. Inr (rc\<lparr>rc_heap := h, rc_head := Some p\<rparr>))
      | None \<Rightarrow> Inr (rc\<lparr>rc_head := None, rc_tail := None\<rparr>))
      (\<lambda>rc. if rc_id_map rc (n_id node) = None then Inl UNDEFINED_BEHAVIOUR
            else Inr (rc\<lparr>rc_id_map := (rc_id_map rc)(n_id node := None), rc_heap := (rc_heap rc)(a := None)\<rparr>))"

partial_function (option) rc_get_next_timeout :: "xtime \<Rightarrow> request_cache \<Rightarrow> (timeout \<times> request_cache) result option" where
  "rc_get_next_timeout now rc =
     (case rc_head rc of
        None \<Rightarrow> Some (Inr (Next_timeout (0, 0), rc))
      | Some a \<Rightarrow> (case rc_heap rc a of
          None \<Rightarrow> Some (Inl UNDEFINED_BEHAVIOUR)
        | Some node \<Rightarrow>
          if \<not> xtime_le (n_expire node) now then Some (Inr (Next_timeout (n_expire node), rc))
          else (case rc_pop_head a node rc of
              Inl e \<Rightarrow> Some (Inl e)
            | Inr rc' \<Rightarrow> (case n_handler node of
                Some h \<Rightarrow> Some (Inr (Expired h (n_dh node), rc'))
              | None \<Rightarrow> rc_get_next_timeout now rc'))))"

text \<open>\<^verbatim>\<open>purge_requests\<close> walks the list from the tail; the result lists the dispatch handlers that get an error event.\<close>

partial_function (option) rc_purge_loop ::
    "nat \<Rightarrow> nat option \<Rightarrow> (nat \<rightharpoonup> cache_node) \<Rightarrow> nat list \<Rightarrow> ((nat \<rightharpoonup> cache_node) \<times> nat list) result option" where
  "rc_purge_loop handler p h out =
     (case p of
        None \<Rightarrow> Some (Inr (h, out))
      | Some a \<Rightarrow> (case h a of
          None \<Rightarrow> Some (Inl UNDEFINED_BEHAVIOUR)
        | Some node \<Rightarrow>
          if n_handler node = Some handler
          then rc_purge_loop handler (l_next node) (h(a \<mapsto> node\<lparr>n_handler := None\<rparr>)) (out @ [n_dh node])
          else rc_purge_loop handler (l_next node) h out))"

definition rc_purge_requests :: "nat \<Rightarrow> request_cache \<Rightarrow> (nat list \<times> request_cache) result option" where
  "rc_purge_requests handler rc =
     map_option (\<lambda>r. rbind r (\<lambda>(h, out). Inr (out, rc\<lparr>rc_heap := h\<rparr>))) (rc_purge_loop handler (rc_tail rc) (rc_heap rc) [])"

section \<open>Specification\<close>

text \<open>The requests, oldest first.\<close>

record request =
  r_id :: u32
  r_expire :: xtime
  r_handler :: "nat option"
  r_dh :: nat

definition request_of :: "cache_node \<Rightarrow> request" where
  "request_of n = \<lparr>r_id = n_id n, r_expire = n_expire n, r_handler = n_handler n, r_dh = n_dh n\<rparr>"

definition q_insert :: "u32 \<Rightarrow> nat \<Rightarrow> nat \<Rightarrow> xtime \<Rightarrow> request list \<Rightarrow> request list result" where
  "q_insert i handler dh expire q =
     (if i \<in> r_id ` set q then Inl FAILED_EXPECTATION
      else Inr (q @ [\<lparr>r_id = i, r_expire = expire, r_handler = Some handler, r_dh = dh\<rparr>]))"

definition q_remove :: "u32 \<Rightarrow> request list \<Rightarrow> nat option \<times> request list" where
  "q_remove i q = (map_option r_dh (find (\<lambda>r. r_id r = i) q), filter (\<lambda>r. r_id r \<noteq> i) q)"

fun q_next_timeout :: "xtime \<Rightarrow> request list \<Rightarrow> timeout \<times> request list" where
  "q_next_timeout now [] = (Next_timeout (0, 0), [])"
| "q_next_timeout now (r # q) =
     (if \<not> xtime_le (r_expire r) now then (Next_timeout (r_expire r), r # q)
      else case r_handler r of Some h \<Rightarrow> (Expired h (r_dh r), q) | None \<Rightarrow> q_next_timeout now q)"

definition q_purge :: "nat \<Rightarrow> request list \<Rightarrow> nat list \<times> request list" where
  "q_purge handler q =
     (map r_dh (rev (filter (\<lambda>r. r_handler r = Some handler) q)),
      map (\<lambda>r. if r_handler r = Some handler then r\<lparr>r_handler := None\<rparr> else r) q)"

section \<open>Refinement\<close>

text \<open>The cache with the nodes \<open>xs\<close>, from tail to head.\<close>

definition rc_inv :: "request_cache \<Rightarrow> nat list \<Rightarrow> bool" where
  "rc_inv rc xs \<longleftrightarrow> linked (rc_heap rc) xs \<and> rc_tail rc = first_or xs None \<and> rc_head rc = last_or xs None
     \<and> (\<forall>a \<in> set xs. a < rc_fresh rc)
     \<and> (\<forall>i a. rc_id_map rc i = Some a \<longleftrightarrow> a \<in> set xs \<and> n_id (the (rc_heap rc a)) = i)"

definition rc_queue :: "request_cache \<Rightarrow> nat list \<Rightarrow> request list" where
  "rc_queue rc xs = rev (contents request_of (rc_heap rc) xs)"

lemma request_of_simps [simp]:
  "r_id (request_of n) = n_id n" "r_dh (request_of n) = n_dh n" "r_handler (request_of n) = n_handler n"
  "r_expire (request_of n) = n_expire n" "link_free request_of"
  unfolding link_free_def request_of_def by simp_all

lemma rc_inv_new: "rc_inv rc_new []" "rc_queue rc_new [] = []"
  by (simp_all add: rc_inv_def rc_new_def rc_queue_def)

lemma rc_inv_ids: "rc_inv rc xs \<Longrightarrow> i \<in> r_id ` set (rc_queue rc xs) \<longleftrightarrow> rc_id_map rc i \<noteq> None"
  by (auto simp: rc_inv_def rc_queue_def contents_def image_iff)

lemma same_ids:
  assumes "\<forall>y. map_option request_of (h' y) = map_option request_of (h y)" "y \<in> dom h"
  shows "n_id (the (h' y)) = n_id (the (h y))"
proof -
  from assms(2) obtain n where n: "h y = Some n" by blast
  with assms(1) obtain n' where "h' y = Some n'" "request_of n' = request_of n" by (metis map_option_eq_Some)
  with n show ?thesis by (simp add: request_of_def)
qed

lemma rc_inv_id: "rc_inv rc xs \<Longrightarrow> y \<in> set xs \<Longrightarrow> rc_id_map rc (n_id (the (rc_heap rc y))) = Some y"
  by (simp add: rc_inv_def)

lemma rc_insert_refines:
  assumes inv: "rc_inv rc xs" and q: "q_insert i handler dh expire (rc_queue rc xs) = Inr q"
  shows "\<exists>rc' xs'. rc_insert i handler dh expire rc = Inr rc' \<and> rc_inv rc' xs' \<and> rc_queue rc' xs' = q"
proof -
  let ?a = "rc_fresh rc" and ?h = "rc_heap rc"
  let ?n = "\<lparr>l_prev = None, l_next = first_or xs None, n_expire = expire, n_id = i, n_handler = Some handler, n_dh = dh\<rparr>"
  have new: "rc_id_map rc i = None" using q rc_inv_ids[OF inv] by (auto simp: q_insert_def split: if_splits)
  have l: "linked ?h xs" and a: "?a \<notin> set xs" and ht: "rc_tail rc = first_or xs None" "rc_head rc = last_or xs None"
    using inv by (auto simp: rc_inv_def)
  from linked_cons[OF l a, of ?n request_of] obtain h' where h':
    "(if xs = [] then Inr ?h else set_prev (first_or xs None) (Some ?a) ?h) = Inr h'" "linked (h'(?a \<mapsto> ?n)) (?a # xs)"
    "\<forall>y. map_option request_of (h' y) = map_option request_of (?h y)" by auto
  let ?rc = "rc\<lparr>rc_heap := h'(?a \<mapsto> ?n), rc_head := last_or (?a # xs) None, rc_tail := Some ?a, rc_id_map := (rc_id_map rc)(i \<mapsto> ?a), rc_fresh := Suc ?a\<rparr>"
  have r: "rc_insert i handler dh expire rc = Inr ?rc"
    using new ht h'(1) by (cases "xs = []") (auto simp: rc_insert_def Let_def last_or_def)
  have "\<And>y. y \<in> set xs \<Longrightarrow> n_id (the (h' y)) = n_id (the (?h y))"
    by (rule same_ids[OF h'(3)]) (use l in \<open>simp add: linked_def\<close>)
  moreover have "\<And>y. y \<in> set xs \<Longrightarrow> n_id (the (?h y)) \<noteq> i" using rc_inv_id[OF inv] new by fastforce
  ultimately have i: "rc_inv ?rc (?a # xs)"
    using inv a h'(2) by (auto simp: rc_inv_def less_Suc_eq)
  have "contents request_of h' xs = contents request_of ?h xs"
    using h'(3) l by (intro contents_eqI) (auto simp: linked_def)
  then have "rc_queue ?rc (?a # xs) = q"
    using q a by (auto simp: rc_queue_def q_insert_def request_of_def split: if_splits)
  with r i show ?thesis by blast
qed

lemma rc_inv_split:
  assumes "rc_inv rc xs" "rc_id_map rc i = Some a"
  shows "\<exists>us vs n. xs = us @ a # vs \<and> rc_heap rc a = Some n \<and> n_id n = i \<and> l_prev n = last_or us None \<and> l_next n = first_or vs None"
proof -
  from assms have "a \<in> set xs" "n_id (the (rc_heap rc a)) = i" by (auto simp: rc_inv_def)
  moreover from this(1) obtain us vs where "xs = us @ a # vs" by (meson split_list)
  moreover have "linked (rc_heap rc) xs" using assms(1) by (simp add: rc_inv_def)
  ultimately obtain n where "rc_heap rc a = Some n" "l_prev n = last_or us None" "l_next n = first_or vs None" "n_id n = i"
    using linked_middle[of "rc_heap rc" us a vs] by auto
  then show ?thesis using \<open>xs = us @ a # vs\<close> by blast
qed

text \<open>Unlinking a node from the list and from the map.\<close>

lemma rc_inv_unlink:
  assumes inv: "rc_inv rc (us @ a # vs)" and n: "rc_heap rc a = Some n"
    and h': "linked (h'(a := None)) (us @ vs)" "\<forall>y. map_option request_of (h' y) = map_option request_of (rc_heap rc y)"
  shows "rc_inv (rc\<lparr>rc_heap := h'(a := None), rc_tail := first_or (us @ vs) None, rc_head := last_or (us @ vs) None,
      rc_id_map := (rc_id_map rc)(n_id n := None)\<rparr>) (us @ vs)"
    and "rev (contents request_of (h'(a := None)) (us @ vs)) = filter (\<lambda>r. r_id r \<noteq> n_id n) (rc_queue rc (us @ a # vs))"
proof -
  have l: "linked (rc_heap rc) (us @ a # vs)" and d: "a \<notin> set (us @ vs)" using inv by (auto simp: rc_inv_def linked_def)
  have ids: "\<And>y. y \<in> set (us @ vs) \<Longrightarrow> n_id (the (h' y)) = n_id (the (rc_heap rc y))"
    by (rule same_ids[OF h'(2)]) (use l in \<open>auto simp: linked_def\<close>)
  have u: "n_id (the (rc_heap rc y)) \<noteq> n_id n" if "y \<in> set (us @ vs)" for y
  proof
    assume "n_id (the (rc_heap rc y)) = n_id n"
    then have "rc_id_map rc (n_id n) = Some y" using rc_inv_id[OF inv, of y] that by auto
    moreover have "rc_id_map rc (n_id n) = Some a" using rc_inv_id[OF inv, of a] n by simp
    ultimately show False using that d by simp
  qed
  show "rc_inv (rc\<lparr>rc_heap := h'(a := None), rc_tail := first_or (us @ vs) None, rc_head := last_or (us @ vs) None,
      rc_id_map := (rc_id_map rc)(n_id n := None)\<rparr>) (us @ vs)"
    using inv h'(1) ids u d n by (auto simp: rc_inv_def)
  have "contents request_of (h'(a := None)) (us @ vs) = contents request_of (rc_heap rc) (us @ vs)"
    using h'(2) l d by (intro contents_eqI) (auto simp: linked_def)
  moreover have f: "filter (\<lambda>r. r_id r \<noteq> n_id n) (rev (contents request_of (rc_heap rc) ys)) = rev (contents request_of (rc_heap rc) ys)"
    if "set ys \<subseteq> set (us @ vs)" for ys
    by (subst filter_id_conv) (use that u in \<open>auto simp: contents_def\<close>)
  ultimately show "rev (contents request_of (h'(a := None)) (us @ vs)) = filter (\<lambda>r. r_id r \<noteq> n_id n) (rc_queue rc (us @ a # vs))"
    using n f[of us] f[of vs] by (simp add: rc_queue_def)
qed

lemma find_first: "\<forall>r \<in> set us. \<not> P r \<Longrightarrow> P x \<Longrightarrow> find P (us @ x # vs) = Some x"
  by (induction us) simp_all

lemma rc_remove_refines:
  assumes inv: "rc_inv rc xs"
  shows "\<exists>rc' xs'. rc_remove i rc = Inr (fst (q_remove i (rc_queue rc xs)), rc') \<and> rc_inv rc' xs'
    \<and> rc_queue rc' xs' = snd (q_remove i (rc_queue rc xs))"
proof (cases "rc_id_map rc i")
  case None
  then have "i \<notin> r_id ` set (rc_queue rc xs)" using rc_inv_ids[OF inv] by simp
  then have "q_remove i (rc_queue rc xs) = (None, rc_queue rc xs)"
    by (auto simp: q_remove_def find_None_iff filter_id_conv)
  then show ?thesis using None inv by (auto simp: rc_remove_def)
next
  case (Some a)
  from rc_inv_split[OF inv Some] obtain us vs n where x: "xs = us @ a # vs" and n: "rc_heap rc a = Some n" "n_id n = i"
    and ln: "l_prev n = last_or us None" "l_next n = first_or vs None" by blast
  have l: "linked (rc_heap rc) (us @ a # vs)" and ht: "rc_tail rc = first_or xs None" "rc_head rc = last_or xs None"
    using inv x by (simp_all add: rc_inv_def)
  from linked_unlink[OF l, of request_of] obtain h' where
    h': "join (last_or us None) (first_or vs None) (rc_heap rc) = Inr h'" "h' a = rc_heap rc a" "linked (h'(a := None)) (us @ vs)"
    "\<forall>y. map_option request_of (h' y) = map_option request_of (rc_heap rc y)" by auto
  let ?rc = "rc\<lparr>rc_heap := h'(a := None), rc_tail := first_or (us @ vs) None, rc_head := last_or (us @ vs) None,
      rc_id_map := (rc_id_map rc)(n_id n := None)\<rparr>"
  have "rc_remove i rc = Inr (Some (n_dh n), ?rc)"
    using h'(1) n ln Some ht x
    by (cases rc; cases "us = []"; cases "vs = []") (auto simp: rc_remove_def join_def rbind_eq_Inr_iff first_last_or_nonempty)
  moreover have "find (\<lambda>r. r_id r = i) (rc_queue rc xs) = Some (request_of n)"
  proof -
    have "\<forall>r \<in> set (rev (contents request_of (rc_heap rc) vs)). r_id r \<noteq> i"
      using rc_inv_id[OF inv] Some l x by (fastforce simp: contents_def linked_def)
    then show ?thesis using find_first[where x = "request_of n"] n by (fastforce simp: rc_queue_def x)
  qed
  ultimately show ?thesis using rc_inv_unlink[OF inv[unfolded x] n(1) h'(3,4)] n(2) x
    by (intro exI[of _ ?rc] exI[of _ "us @ vs"]) (simp add: q_remove_def rc_queue_def)
qed

lemma rc_pop_head_refines:
  assumes inv: "rc_inv rc (us @ [a])" and n: "rc_heap rc a = Some n"
  shows "\<exists>rc' us'. rc_pop_head a n rc = Inr rc' \<and> rc_inv rc' us' \<and> rc_queue rc (us @ [a]) = request_of n # rc_queue rc' us' \<and> length us' = length us"
proof -
  have l: "linked (rc_heap rc) (us @ [a])" and ht: "rc_tail rc = first_or (us @ [a]) None" "rc_head rc = Some a"
    using inv by (simp_all add: rc_inv_def)
  have ln: "l_prev n = last_or us None" using linked_middle[of "rc_heap rc" us a "[]"] l n by simp
  from linked_unlink[OF l, of request_of] obtain h' where
    h': "join (last_or us None) None (rc_heap rc) = Inr h'" "h' a = rc_heap rc a" "linked (h'(a := None)) us"
    "\<forall>y. map_option request_of (h' y) = map_option request_of (rc_heap rc y)" by auto
  let ?rc = "rc\<lparr>rc_heap := h'(a := None), rc_tail := first_or us None, rc_head := last_or us None,
      rc_id_map := (rc_id_map rc)(n_id n := None)\<rparr>"
  have "rc_id_map rc (n_id n) = Some a" using rc_inv_id[OF inv, of a] n by simp
  then have r: "rc_pop_head a n rc = Inr ?rc"
    using h'(1) ln ht
    by (cases rc; cases us rule: rev_cases) (auto simp: rc_pop_head_def join_def rbind_eq_Inr_iff first_last_or_nonempty)
  have q: "rc_queue ?rc us = filter (\<lambda>r. r_id r \<noteq> n_id n) (rc_queue rc (us @ [a]))"
    and i: "rc_inv ?rc us"
    using rc_inv_unlink[of rc us a "[]" n h'] inv n h'(3,4) by (simp_all add: rc_queue_def)
  have "rc_queue rc (us @ [a]) = request_of n # rev (contents request_of (rc_heap rc) us)" using n by (simp add: rc_queue_def)
  moreover have "contents request_of (h'(a := None)) us = contents request_of (rc_heap rc) us"
    using h'(4) l by (intro contents_eqI) (auto simp: linked_def)
  ultimately have "rc_queue rc (us @ [a]) = request_of n # rc_queue ?rc us" by (simp add: rc_queue_def)
  then show ?thesis using r i by blast
qed

lemma rc_timeout_refines:
  assumes "rc_inv rc xs"
  shows "\<exists>rc' xs'. rc_get_next_timeout now rc = Some (Inr (fst (q_next_timeout now (rc_queue rc xs)), rc')) \<and> rc_inv rc' xs'
    \<and> rc_queue rc' xs' = snd (q_next_timeout now (rc_queue rc xs))"
  using assms
proof (induction "length xs" arbitrary: rc xs)
  case 0
  then show ?case by (subst rc_get_next_timeout.simps) (auto simp: rc_inv_def rc_queue_def)
next
  case (Suc k)
  then obtain us a where x: "xs = us @ [a]" by (metis length_Suc_conv_rev)
  from Suc.prems x obtain n where n: "rc_heap rc a = Some n" and h: "rc_head rc = Some a"
    using linked_node[of "rc_heap rc" xs a] by (auto simp: rc_inv_def)
  from rc_pop_head_refines[OF Suc.prems[unfolded x] n] obtain rc' us' where
    p: "rc_pop_head a n rc = Inr rc'" "rc_inv rc' us'" "rc_queue rc xs = request_of n # rc_queue rc' us'" "length us' = length us"
    using x by blast
  show ?case
  proof (cases "xtime_le (n_expire n) now \<and> n_handler n = None")
    case True
    have "k = length us'" using Suc.hyps(2) x p(4) by simp
    from Suc.hyps(1)[OF this p(2)] True show ?thesis
      by (subst rc_get_next_timeout.simps) (simp add: h n p)
  next
    case False
    show ?thesis
    proof (cases "xtime_le (n_expire n) now")
      case True
      with False obtain hd where "n_handler n = Some hd" by auto
      with True show ?thesis
        by (subst rc_get_next_timeout.simps) (simp add: h n p(1,3), use p(2) in blast)
    next
      case False
      then have "q_next_timeout now (rc_queue rc xs) = (Next_timeout (n_expire n), rc_queue rc xs)" by (simp add: p(3))
      then show ?thesis using Suc.prems False
        by (subst rc_get_next_timeout.simps) (simp add: h n, blast)
    qed
  qed
qed

definition purged :: "nat \<Rightarrow> cache_node \<Rightarrow> cache_node" where
  "purged handler n = (if n_handler n = Some handler then n\<lparr>n_handler := None\<rparr> else n)"

lemma purged_simps [simp]: "l_prev (purged handler n) = l_prev n" "l_next (purged handler n) = l_next n" "n_id (purged handler n) = n_id n"
  "n_handler n = Some handler \<Longrightarrow> purged handler n = n\<lparr>n_handler := None\<rparr>" "n_handler n \<noteq> Some handler \<Longrightarrow> purged handler n = n"
  by (simp_all add: purged_def)

lemma rc_purge_loop_walks:
  "seg h p xs None \<Longrightarrow> distinct xs \<Longrightarrow>
    rc_purge_loop handler (first_or xs None) h out = Some (Inr (\<lambda>a. if a \<in> set xs then map_option (purged handler) (h a) else h a,
      out @ map n_dh (filter (\<lambda>n. n_handler n = Some handler) (map (\<lambda>a. the (h a)) xs))))"
proof (induction xs arbitrary: h p out)
  case Nil
  then show ?case by (subst rc_purge_loop.simps) simp
next
  case (Cons a xs)
  then obtain n where n: "h a = Some n" "l_next n = first_or xs None" "seg h (Some a) xs None" by (auto split: option.splits)
  have d: "a \<notin> set xs" "distinct xs" using Cons.prems(2) by auto
  show ?case
  proof (cases "n_handler n = Some handler")
    case True
    define h1 where "h1 = h(a \<mapsto> n\<lparr>n_handler := None\<rparr>)"
    have "seg h1 (Some a) xs None" "map (\<lambda>x. the (h1 x)) xs = map (\<lambda>x. the (h x)) xs"
      "(\<lambda>b. if b \<in> set xs then map_option (purged handler) (h1 b) else h1 b)
        = (\<lambda>b. if b \<in> set (a # xs) then map_option (purged handler) (h b) else h b)"
      using n(1,3) d True by (auto simp: h1_def fun_eq_iff)
    then show ?thesis using Cons.IH[OF _ d(2), of h1 "Some a" "out @ [n_dh n]"] True n
      by (subst rc_purge_loop.simps) (simp flip: h1_def cong: map_cong)
  next
    case False
    moreover have "(\<lambda>b. if b \<in> set xs then map_option (purged handler) (h b) else h b)
      = (\<lambda>b. if b \<in> set (a # xs) then map_option (purged handler) (h b) else h b)"
      using d n(1) False by (auto simp: fun_eq_iff)
    ultimately show ?thesis using Cons.IH[OF n(3) d(2), of out] n
      by (subst rc_purge_loop.simps) simp
  qed
qed

lemma seg_map: "(\<And>n. l_prev (f n) = l_prev n \<and> l_next (f n) = l_next n) \<Longrightarrow> seg (\<lambda>a. map_option f (h a)) p xs q = seg h p xs q"
  by (induction xs arbitrary: p) (auto split: option.splits)

lemma rc_purge_refines:
  assumes inv: "rc_inv rc xs"
  shows "\<exists>rc'. rc_purge_requests handler rc = Some (Inr (fst (q_purge handler (rc_queue rc xs)), rc')) \<and> rc_inv rc' xs
    \<and> rc_queue rc' xs = snd (q_purge handler (rc_queue rc xs))"
proof -
  let ?h = "\<lambda>a. map_option (purged handler) (rc_heap rc a)"
  have l: "distinct xs" "dom (rc_heap rc) = set xs" "seg (rc_heap rc) None xs None" and t: "rc_tail rc = first_or xs None"
    using inv by (auto simp: rc_inv_def linked_def)
  have eq: "(\<lambda>a. if a \<in> set xs then map_option (purged handler) (rc_heap rc a) else rc_heap rc a) = ?h"
    using l(2) by (auto simp: fun_eq_iff) (metis domIff option.map_disc_iff)
  have some: "\<And>a. a \<in> set xs \<Longrightarrow> \<exists>n. rc_heap rc a = Some n" using l(2) by blast
  have "map n_dh (filter (\<lambda>n. n_handler n = Some handler) (map (\<lambda>a. the (rc_heap rc a)) xs)) = fst (q_purge handler (rc_queue rc xs))"
    by (simp add: q_purge_def rc_queue_def contents_def rev_map[symmetric] filter_map rev_filter o_def)
  with rc_purge_loop_walks[OF l(3,1), of handler "[]"] have
    r: "rc_purge_requests handler rc = Some (Inr (fst (q_purge handler (rc_queue rc xs)), rc\<lparr>rc_heap := ?h\<rparr>))"
    by (simp add: rc_purge_requests_def t eq)
  have "linked ?h xs" using l by (auto simp: linked_def seg_map dom_def)
  moreover have "\<And>a. a \<in> set xs \<Longrightarrow> n_id (the (?h a)) = n_id (the (rc_heap rc a))" using some by fastforce
  ultimately have "rc_inv (rc\<lparr>rc_heap := ?h\<rparr>) xs" using inv by (auto simp: rc_inv_def)
  moreover have "contents request_of ?h xs = map (\<lambda>r. if r_handler r = Some handler then r\<lparr>r_handler := None\<rparr> else r) (contents request_of (rc_heap rc) xs)"
    using some by (fastforce simp: contents_def purged_def request_of_def)
  then have "rc_queue (rc\<lparr>rc_heap := ?h\<rparr>) xs = snd (q_purge handler (rc_queue rc xs))"
    by (simp add: q_purge_def rc_queue_def rev_map)
  ultimately show ?thesis using r by blast
qed

section \<open>Sequences of operations\<close>

datatype rc_op = Op_insert u32 nat nat xtime | Op_remove u32 | Op_timeout xtime | Op_purge nat

datatype rc_out = Inserted | Refused | Removed "nat option" | Timeout timeout | Purged "nat list"

text \<open>A refused insertion throws and leaves the cache as it is.\<close>

definition rc_step :: "rc_op \<Rightarrow> request_cache \<Rightarrow> (rc_out \<times> request_cache) result option" where
  "rc_step p rc = (case p of
      Op_insert i handler dh expire \<Rightarrow> Some (case rc_insert i handler dh expire rc of
          Inr rc \<Rightarrow> Inr (Inserted, rc)
        | Inl e \<Rightarrow> if e = FAILED_EXPECTATION then Inr (Refused, rc) else Inl e)
    | Op_remove i \<Rightarrow> Some (rbind (rc_remove i rc) (\<lambda>(r, rc). Inr (Removed r, rc)))
    | Op_timeout now \<Rightarrow> map_option (\<lambda>x. rbind x (\<lambda>(r, rc). Inr (Timeout r, rc))) (rc_get_next_timeout now rc)
    | Op_purge handler \<Rightarrow> map_option (\<lambda>x. rbind x (\<lambda>(r, rc). Inr (Purged r, rc))) (rc_purge_requests handler rc))"

definition q_step :: "rc_op \<Rightarrow> request list \<Rightarrow> rc_out \<times> request list" where
  "q_step p q = (case p of
      Op_insert i handler dh expire \<Rightarrow> (case q_insert i handler dh expire q of Inr q \<Rightarrow> (Inserted, q) | Inl e \<Rightarrow> (Refused, q))
    | Op_remove i \<Rightarrow> (let (r, q) = q_remove i q in (Removed r, q))
    | Op_timeout now \<Rightarrow> (let (r, q) = q_next_timeout now q in (Timeout r, q))
    | Op_purge handler \<Rightarrow> (let (r, q) = q_purge handler q in (Purged r, q)))"

fun rc_run :: "rc_op list \<Rightarrow> request_cache \<Rightarrow> (rc_out list \<times> request_cache) result option" where
  "rc_run [] rc = Some (Inr ([], rc))"
| "rc_run (p # ps) rc = (case rc_step p rc of
      None \<Rightarrow> None
    | Some (Inl e) \<Rightarrow> Some (Inl e)
    | Some (Inr (r, rc)) \<Rightarrow> map_option (\<lambda>x. rbind x (\<lambda>(rs, rc). Inr (r # rs, rc))) (rc_run ps rc))"

fun q_run :: "rc_op list \<Rightarrow> request list \<Rightarrow> rc_out list \<times> request list" where
  "q_run [] q = ([], q)"
| "q_run (p # ps) q = (let (r, q) = q_step p q; (rs, q) = q_run ps q in (r # rs, q))"

lemma rc_step_refines:
  assumes "rc_inv rc xs"
  shows "\<exists>rc' xs'. rc_step p rc = Some (Inr (fst (q_step p (rc_queue rc xs)), rc')) \<and> rc_inv rc' xs'
    \<and> rc_queue rc' xs' = snd (q_step p (rc_queue rc xs))"
proof (cases p)
  case (Op_insert i handler dh expire)
  show ?thesis
  proof (cases "q_insert i handler dh expire (rc_queue rc xs)")
    case (Inl e)
    then have "rc_insert i handler dh expire rc = Inl FAILED_EXPECTATION"
      using rc_inv_ids[OF assms] by (auto simp: q_insert_def rc_insert_def split: if_splits)
    then show ?thesis using Op_insert Inl assms by (auto simp: rc_step_def q_step_def)
  next
    case (Inr q)
    then show ?thesis using rc_insert_refines[OF assms Inr] Op_insert by (auto simp: rc_step_def q_step_def)
  qed
next
  case (Op_remove i)
  then show ?thesis using rc_remove_refines[OF assms, of i] by (auto simp: rc_step_def q_step_def split: prod.splits)
next
  case (Op_timeout now)
  then show ?thesis using rc_timeout_refines[OF assms, of now] by (auto simp: rc_step_def q_step_def split: prod.splits)
next
  case (Op_purge handler)
  then show ?thesis using rc_purge_refines[OF assms, of handler] by (auto simp: rc_step_def q_step_def split: prod.splits)
qed

lemma rc_run_refines:
  assumes "rc_inv rc xs"
  shows "\<exists>rc' xs'. rc_run ps rc = Some (Inr (fst (q_run ps (rc_queue rc xs)), rc')) \<and> rc_inv rc' xs'
    \<and> rc_queue rc' xs' = snd (q_run ps (rc_queue rc xs))"
  using assms
proof (induction ps arbitrary: rc xs)
  case Nil
  then show ?case by auto
next
  case (Cons p ps)
  from rc_step_refines[OF Cons.prems, of p] obtain rc1 xs1 where
    s: "rc_step p rc = Some (Inr (fst (q_step p (rc_queue rc xs)), rc1))" "rc_inv rc1 xs1" "rc_queue rc1 xs1 = snd (q_step p (rc_queue rc xs))"
    by blast
  from Cons.IH[OF s(2)] obtain rc' xs' where
    "rc_run ps rc1 = Some (Inr (fst (q_run ps (rc_queue rc1 xs1)), rc'))" "rc_inv rc' xs'" "rc_queue rc' xs' = snd (q_run ps (rc_queue rc1 xs1))"
    by blast
  then show ?case using s by (auto simp: split_beta)
qed


text \<open>Requests are kept in arrival order while their timeouts differ: one with a short timeout is not reported as long as an older one
  has not expired.\<close>

lemma short_timeout_waits:
  assumes "i \<noteq> j" "\<not> xtime_le e1 now"
  shows "\<exists>rc. rc_run [Op_insert i h d e1, Op_insert j h d' e2, Op_timeout now] rc_new
    = Some (Inr ([Inserted, Inserted, Timeout (Next_timeout e1)], rc))"
  using rc_run_refines[OF rc_inv_new(1), of "[Op_insert i h d e1, Op_insert j h d' e2, Op_timeout now]"] assms
  by (simp add: rc_inv_new(2) q_step_def q_insert_def) blast

end
