(* ===== verification/LocationCaches.thy ===== *)
theory LocationCaches
  imports LinkedLists "HOL-Library.Product_Lexorder"
begin

text \<open>
  The client's cache of range locations (\<^verbatim>\<open>Hypertable/Lib/LocationCache\<close>): an ordered map from table and end row to nodes of a
  hand-linked list in order of use. Shown: every sequence of operations gives the results of a plain list of cached ranges in
  order of use; a lookup returns a cached range that contains the row; the cache stays within its capacity and never evicts a
  pegged entry; and an insertion hangs exactly when a full cache holds nothing but pegged entries.
\<close>

section \<open>Keys\<close>

datatype location_cache_key = Location_cache_key (lk_table: u32) (lk_end: cstr)

text \<open>\<^verbatim>\<open>operator<\<close>: a null end row is behind all others of its table.\<close>

definition lk_less :: "location_cache_key \<Rightarrow> location_cache_key \<Rightarrow> bool" where
  "lk_less x y =
     (if lk_table x \<noteq> lk_table y then lk_table x < lk_table y
      else (case lk_end y of
          None \<Rightarrow> lk_end x \<noteq> None
        | Some b \<Rightarrow> (case lk_end x of None \<Rightarrow> False | Some a \<Rightarrow> a < b)))"

instantiation location_cache_key :: linorder
begin

definition less_location_cache_key :: "location_cache_key \<Rightarrow> location_cache_key \<Rightarrow> bool" where
  "less_location_cache_key x y = lk_less x y"

definition less_eq_location_cache_key :: "location_cache_key \<Rightarrow> location_cache_key \<Rightarrow> bool" where
  "less_eq_location_cache_key x y = (lk_less x y \<or> x = y)"

instance
proof
  fix x y z :: location_cache_key
  note defs = less_location_cache_key_def less_eq_location_cache_key_def lk_less_def
  show "x < y \<longleftrightarrow> x \<le> y \<and> \<not> y \<le> x" by (cases x; cases y) (auto simp: defs split: option.splits if_splits)
  show "x \<le> x" by (simp add: defs)
  show "x \<le> y \<Longrightarrow> y \<le> z \<Longrightarrow> x \<le> z"
    by (cases x; cases y; cases z) (auto simp: defs split: option.splits if_splits)
  show "x \<le> y \<Longrightarrow> y \<le> x \<Longrightarrow> x = y"
    by (cases x; cases y) (auto simp: defs split: option.splits if_splits)
  show "x \<le> y \<or> y \<le> x"
    by (cases x; cases y) (auto simp: defs split: option.splits if_splits)
qed

end

text \<open>\<^verbatim>\<open>std::map\<close> as an association list in key order.\<close>

definition om_find :: "'k :: linorder \<Rightarrow> ('k \<times> 'v) list \<Rightarrow> 'v option" where
  "om_find k m = map_of m k"

definition om_lower_bound :: "'k :: linorder \<Rightarrow> ('k \<times> 'v) list \<Rightarrow> ('k \<times> 'v) option" where
  "om_lower_bound k m = find (\<lambda>(k', _). \<not> k' < k) m"

fun om_insert :: "'k :: linorder \<Rightarrow> 'v \<Rightarrow> ('k \<times> 'v) list \<Rightarrow> ('k \<times> 'v) list" where
  "om_insert k v [] = [(k, v)]"
| "om_insert k v ((k', v') # m) =
     (if k < k' then (k, v) # (k', v') # m else if k = k' then (k', v') # m else (k', v') # om_insert k v m)"

definition om_erase :: "'k :: linorder \<Rightarrow> ('k \<times> 'v) list \<Rightarrow> ('k \<times> 'v) list" where
  "om_erase k m = filter (\<lambda>(k', _). k' \<noteq> k) m"

section \<open>The cache\<close>

text \<open>Rows and locations are strings without a zero byte. An iterator of the map is the key it stands at.\<close>

record location_value = links +
  map_iter :: location_cache_key
  v_start_row :: bytes
  v_end_row :: bytes
  v_location :: bytes
  v_pegged :: bool

record range_location_info =
  rli_start_row :: bytes
  rli_end_row :: bytes
  rli_location :: bytes

text \<open>\<open>lc_fresh\<close> is the address the next allocation returns.\<close>

record location_cache =
  lc_heap :: "nat \<rightharpoonup> location_value"
  m_location_map :: "(location_cache_key \<times> nat) list"
  m_location_strings :: "bytes list"
  lc_head :: "nat option"
  lc_tail :: "nat option"
  m_max_entries :: u32
  lc_fresh :: nat

definition lc_new :: "u32 \<Rightarrow> location_cache" where
  "lc_new max_entries = \<lparr>lc_heap = Map.empty, m_location_map = [], m_location_strings = [], lc_head = None, lc_tail = None,
     m_max_entries = max_entries, lc_fresh = 0\<rparr>"

definition move_to_head :: "nat option \<Rightarrow> location_cache \<Rightarrow> location_cache result" where
  "move_to_head p lc =
     (if lc_head lc = p then Inr lc
      else rbind (load (lc_heap lc) p) (\<lambda>v.
        rbind (set_prev (l_next v) (l_prev v) (lc_heap lc)) (\<lambda>h.
        rbind (if l_prev v = None then Inr (lc\<lparr>lc_heap := h, lc_tail := l_next v\<rparr>)
               else rbind (set_next (l_prev v) (l_next v) h) (\<lambda>h. Inr (lc\<lparr>lc_heap := h\<rparr>))) (\<lambda>lc.
        rbind (set_next p None (lc_heap lc)) (\<lambda>h.
        rbind (set_prev p (lc_head lc) h) (\<lambda>h.
        rbind (set_next (lc_head lc) p h) (\<lambda>h.
        Inr (lc\<lparr>lc_heap := h, lc_head := p\<rparr>))))))))"

definition lc_remove :: "nat option \<Rightarrow> location_cache \<Rightarrow> location_cache result" where
  "lc_remove p lc =
     rbind (load (lc_heap lc) p) (\<lambda>v.
     rbind (if lc_tail lc = p
            then if l_next v \<noteq> None then rbind (set_prev (l_next v) None (lc_heap lc)) (\<lambda>h. Inr (lc\<lparr>lc_heap := h, lc_tail := l_next v\<rparr>))
                 else Inr (lc\<lparr>lc_tail := None, lc_head := None\<rparr>)
            else if lc_head lc = p
            then rbind (set_next (l_prev v) None (lc_heap lc)) (\<lambda>h. Inr (lc\<lparr>lc_heap := h, lc_head := l_prev v\<rparr>))
            else rbind (set_prev (l_next v) (l_prev v) (lc_heap lc)) (\<lambda>h.
                 rbind (set_next (l_prev v) (l_next v) h) (\<lambda>h. Inr (lc\<lparr>lc_heap := h\<rparr>)))) (\<lambda>lc.
     Inr (lc\<lparr>m_location_map := om_erase (map_iter v) (m_location_map lc), lc_heap := (lc_heap lc)(the p := None)\<rparr>)))"

definition get_constant_location_str :: "bytes \<Rightarrow> location_cache \<Rightarrow> bytes \<times> location_cache" where
  "get_constant_location_str loc lc =
     (if loc \<in> set (m_location_strings lc) then (loc, lc) else (loc, lc\<lparr>m_location_strings := loc # m_location_strings lc\<rparr>))"

text \<open>The loop of \<^verbatim>\<open>insert\<close> that makes room; not to return is the value \<^term>\<open>None\<close>.\<close>

partial_function (option) make_room :: "location_cache \<Rightarrow> location_cache result option" where
  "make_room lc =
     (if length (m_location_map lc) < unat (m_max_entries lc) then Some (Inr lc)
      else (case load (lc_heap lc) (lc_tail lc) of
          Inl e \<Rightarrow> Some (Inl e)
        | Inr v \<Rightarrow> (case if v_pegged v then move_to_head (lc_tail lc) lc else lc_remove (lc_tail lc) lc of
              Inl e \<Rightarrow> Some (Inl e)
            | Inr lc \<Rightarrow> make_room lc)))"

definition add_to_head :: "location_value \<Rightarrow> location_cache \<Rightarrow> location_cache result" where
  "add_to_head v lc =
     (let a = lc_fresh lc in
      rbind (if lc_head lc = None
             then Inr (lc\<lparr>lc_heap := (lc_heap lc)(a \<mapsto> v\<lparr>l_next := None, l_prev := None\<rparr>), lc_head := Some a, lc_tail := Some a\<rparr>)
             else rbind (set_next (lc_head lc) (Some a) (lc_heap lc)) (\<lambda>h.
               Inr (lc\<lparr>lc_heap := h(a \<mapsto> v\<lparr>l_prev := lc_head lc, l_next := None\<rparr>), lc_head := Some a\<rparr>))) (\<lambda>lc.
      Inr (lc\<lparr>m_location_map := om_insert (map_iter v) a (m_location_map lc), lc_fresh := Suc a\<rparr>)))"

definition lc_insert :: "u32 \<Rightarrow> range_location_info \<Rightarrow> bool \<Rightarrow> location_cache \<Rightarrow> location_cache result option" where
  "lc_insert table_id info pegged lc =
     (let (loc, lc) = get_constant_location_str (rli_location info) lc;
          key = Location_cache_key table_id (if rli_end_row info = [] then None else Some (rli_end_row info));
          newval = \<lparr>l_prev = None, l_next = None, map_iter = key, v_start_row = rli_start_row info, v_end_row = rli_end_row info,
            v_location = loc, v_pegged = pegged\<rparr> in
      case (case om_find key (m_location_map lc) of None \<Rightarrow> Inr lc | Some p \<Rightarrow> lc_remove (Some p) lc) of
        Inl e \<Rightarrow> Some (Inl e)
      | Inr lc \<Rightarrow> map_option (\<lambda>r. rbind r (add_to_head newval)) (make_room lc))"

definition lc_lookup :: "u32 \<Rightarrow> bytes \<Rightarrow> bool \<Rightarrow> location_cache \<Rightarrow> (range_location_info option \<times> location_cache) result" where
  "lc_lookup table_id rowkey incl lc =
     (case om_lower_bound (Location_cache_key table_id (Some rowkey)) (m_location_map lc) of
        None \<Rightarrow> Inr (None, lc)
      | Some (k, p) \<Rightarrow>
        if lk_table k \<noteq> table_id then Inr (None, lc)
        else rbind (load (lc_heap lc) (Some p)) (\<lambda>v.
          if (if incl then rowkey < v_start_row v else rowkey \<le> v_start_row v) then Inr (None, lc)
          else rbind (move_to_head (Some p) lc) (\<lambda>lc.
            Inr (Some \<lparr>rli_start_row = v_start_row v, rli_end_row = v_end_row v, rli_location = v_location v\<rparr>, lc))))"

definition lc_invalidate :: "u32 \<Rightarrow> bytes \<Rightarrow> location_cache \<Rightarrow> (bool \<times> location_cache) result" where
  "lc_invalidate table_id rowkey lc =
     (case om_lower_bound (Location_cache_key table_id (Some rowkey)) (m_location_map lc) of
        None \<Rightarrow> Inr (False, lc)
      | Some (k, p) \<Rightarrow>
        if lk_table k \<noteq> table_id then Inr (False, lc)
        else rbind (load (lc_heap lc) (Some p)) (\<lambda>v.
          if rowkey < v_start_row v then Inr (False, lc)
          else rbind (lc_remove (Some p) lc) (\<lambda>lc. Inr (True, lc))))"

section \<open>Specification\<close>

text \<open>The cached ranges, least recently used first.\<close>

record location_entry =
  e_key :: location_cache_key
  e_start :: bytes
  e_end :: bytes
  e_location :: bytes
  e_pegged :: bool

definition entry_of :: "location_value \<Rightarrow> location_entry" where
  "entry_of v = \<lparr>e_key = map_iter v, e_start = v_start_row v, e_end = v_end_row v, e_location = v_location v, e_pegged = v_pegged v\<rparr>"

definition info_of :: "location_entry \<Rightarrow> range_location_info" where
  "info_of e = \<lparr>rli_start_row = e_start e, rli_end_row = e_end e, rli_location = e_location e\<rparr>"

text \<open>The entry with the least key that is not below \<open>k\<close>.\<close>

definition at_least :: "location_cache_key \<Rightarrow> location_entry list \<Rightarrow> location_entry option" where
  "at_least k es = (case sort_key e_key (filter (\<lambda>e. k \<le> e_key e) es) of [] \<Rightarrow> None | e # _ \<Rightarrow> Some e)"

text \<open>Evicting \<open>k\<close> entries: pegged ones are moved to the recently used end instead. With nothing but pegged entries this does not
  end; an empty list is a null pointer.\<close>

fun evict :: "nat \<Rightarrow> location_entry list \<Rightarrow> location_entry list result option" where
  "evict 0 es = Some (Inr es)"
| "evict (Suc k) es = (case dropWhile e_pegged es of
      [] \<Rightarrow> if es = [] then Some (Inl UNDEFINED_BEHAVIOUR) else None
    | e # rest \<Rightarrow> evict k (rest @ takeWhile e_pegged es))"

definition s_insert :: "nat \<Rightarrow> u32 \<Rightarrow> range_location_info \<Rightarrow> bool \<Rightarrow> location_entry list \<Rightarrow> location_entry list result option" where
  "s_insert n table_id info pegged es =
     (let key = Location_cache_key table_id (if rli_end_row info = [] then None else Some (rli_end_row info));
          es = filter (\<lambda>e. e_key e \<noteq> key) es in
      map_option (\<lambda>r. rbind r (\<lambda>es. Inr (es @ [\<lparr>e_key = key, e_start = rli_start_row info, e_end = rli_end_row info,
        e_location = rli_location info, e_pegged = pegged\<rparr>]))) (evict (Suc (length es) - n) es))"

definition s_hit :: "u32 \<Rightarrow> bytes \<Rightarrow> (bytes \<Rightarrow> bool) \<Rightarrow> location_entry list \<Rightarrow> location_entry option" where
  "s_hit table_id rowkey below es =
     (case at_least (Location_cache_key table_id (Some rowkey)) es of
        None \<Rightarrow> None
      | Some e \<Rightarrow> if lk_table (e_key e) \<noteq> table_id \<or> below (e_start e) then None else Some e)"

definition s_lookup :: "u32 \<Rightarrow> bytes \<Rightarrow> bool \<Rightarrow> location_entry list \<Rightarrow> range_location_info option \<times> location_entry list" where
  "s_lookup table_id rowkey incl es =
     (case s_hit table_id rowkey (\<lambda>s. if incl then rowkey < s else rowkey \<le> s) es of
        None \<Rightarrow> (None, es)
      | Some e \<Rightarrow> (Some (info_of e), filter (\<lambda>e'. e_key e' \<noteq> e_key e) es @ [e]))"

definition s_invalidate :: "u32 \<Rightarrow> bytes \<Rightarrow> location_entry list \<Rightarrow> bool \<times> location_entry list" where
  "s_invalidate table_id rowkey es =
     (case s_hit table_id rowkey (\<lambda>s. rowkey < s) es of
        None \<Rightarrow> (False, es)
      | Some e \<Rightarrow> (True, filter (\<lambda>e'. e_key e' \<noteq> e_key e) es))"

section \<open>Refinement\<close>

text \<open>The cache with the nodes \<open>xs\<close>, from tail to head.\<close>

definition lc_inv :: "location_cache \<Rightarrow> nat list \<Rightarrow> bool" where
  "lc_inv lc xs \<longleftrightarrow> linked (lc_heap lc) xs \<and> lc_tail lc = first_or xs None \<and> lc_head lc = last_or xs None
     \<and> (\<forall>a \<in> set xs. a < lc_fresh lc) \<and> sorted_wrt (<) (map fst (m_location_map lc))
     \<and> (\<forall>k a. (k, a) \<in> set (m_location_map lc) \<longleftrightarrow> a \<in> set xs \<and> map_iter (the (lc_heap lc a)) = k)"

definition lc_entries :: "location_cache \<Rightarrow> nat list \<Rightarrow> location_entry list" where
  "lc_entries lc xs = contents entry_of (lc_heap lc) xs"

lemma sorted_keys_distinct: "sorted_wrt (<) (map fst m) \<Longrightarrow> distinct (map fst (m :: ('k :: linorder \<times> 'v) list))"
  by (simp add: strict_sorted_iff)

lemma om_find_iff: "sorted_wrt (<) (map fst m) \<Longrightarrow> om_find k m = Some a \<longleftrightarrow> (k, a) \<in> set m"
  by (simp add: om_find_def sorted_keys_distinct map_of_eq_Some_iff)

lemma om_find_None: "om_find k m = None \<longleftrightarrow> k \<notin> fst ` set m"
  by (simp add: om_find_def map_of_eq_None_iff)

lemma om_lower_bound_Some:
  assumes "sorted_wrt (<) (map fst m)" "om_lower_bound k m = Some (k', a)"
  shows "(k', a) \<in> set m" "k \<le> k'" "\<forall>x \<in> set m. k \<le> fst x \<longrightarrow> k' \<le> fst x"
proof -
  from assms(2) obtain i where i: "i < length m" "\<not> fst (m ! i) < k" "m ! i = (k', a)" "\<forall>j < i. fst (m ! j) < k"
    unfolding om_lower_bound_def find_Some_iff by (metis (no_types, lifting) case_prod_beta fst_conv)
  then show "(k', a) \<in> set m" "k \<le> k'" by (auto dest: nth_mem)
  show "\<forall>x \<in> set m. k \<le> fst x \<longrightarrow> k' \<le> fst x"
  proof (intro ballI impI)
    fix x assume "x \<in> set m" "k \<le> fst x"
    then obtain j where j: "j < length m" "m ! j = x" "\<not> j < i" using i(4) by (metis in_set_conv_nth leD)
    then show "k' \<le> fst x" using i(1,3) sorted_wrt_nth_less[OF assms(1), of i j] by (cases "i = j") (auto intro: less_imp_le)
  qed
qed

lemma om_lower_bound_None: "om_lower_bound k m = None \<longleftrightarrow> (\<forall>x \<in> set m. fst x < k)"
  by (auto simp: om_lower_bound_def find_None_iff)

lemma set_om_insert: "k \<notin> fst ` set m \<Longrightarrow> set (om_insert k v m) = insert (k, v) (set m)"
  by (induction k v m rule: om_insert.induct) auto

lemma sorted_om_insert: "sorted_wrt (<) (map fst m) \<Longrightarrow> sorted_wrt (<) (map fst (om_insert k v m))"
proof (induction k v m rule: om_insert.induct)
  case (2 k v k' v' m)
  have "set (map fst (om_insert k v m)) \<subseteq> insert k (fst ` set m)" for m
    by (induction k v m rule: om_insert.induct) auto
  with 2 show ?case by (fastforce dest: less_trans)
qed simp

lemma set_om_erase: "set (om_erase k m) = {x \<in> set m. fst x \<noteq> k}"
  by (auto simp: om_erase_def)

lemma sorted_om_erase: "sorted_wrt (<) (map fst m) \<Longrightarrow> sorted_wrt (<) (map fst (om_erase k m))"
  by (induction m) (auto simp: om_erase_def)

lemma at_least_Some:
  assumes "distinct (map e_key es)" "e \<in> set es" "k \<le> e_key e" "\<forall>e' \<in> set es. k \<le> e_key e' \<longrightarrow> e_key e \<le> e_key e'"
  shows "at_least k es = Some e"
proof -
  let ?s = "sort_key e_key (filter (\<lambda>e. k \<le> e_key e) es)"
  have m: "set ?s = {e \<in> set es. k \<le> e_key e}" by auto
  with assms(2,3) obtain e' r where s: "?s = e' # r" by (cases ?s) auto
  have "e' \<in> set es" "k \<le> e_key e'" using m s by auto
  moreover have "e_key e' \<le> e_key e"
  proof -
    have "e \<in> set (e' # r)" using m assms(2,3) s by auto
    moreover have "sorted (map e_key (e' # r))" using sorted_sort_key[of e_key "filter (\<lambda>e. k \<le> e_key e) es"] s by simp
    ultimately show ?thesis by auto
  qed
  ultimately have "e_key e' = e_key e" using assms(4) by auto
  then have "e' = e" using assms(1,2) \<open>e' \<in> set es\<close> by (meson distinct_map inj_onD)
  then show ?thesis by (simp add: at_least_def s)
qed

lemma at_least_None: "\<forall>e \<in> set es. e_key e < k \<Longrightarrow> at_least k es = None"
  by (simp add: at_least_def filter_empty_conv not_le split: list.splits)

lemma entry_of_simps [simp]: "e_key (entry_of v) = map_iter v" "e_pegged (entry_of v) = v_pegged v" "e_start (entry_of v) = v_start_row v"
  "info_of (entry_of v) = \<lparr>rli_start_row = v_start_row v, rli_end_row = v_end_row v, rli_location = v_location v\<rparr>"
  "link_free entry_of" "link_free map_iter"
  unfolding link_free_def entry_of_def info_of_def by simp_all

lemma lc_inv_new: "lc_inv (lc_new n) []" "lc_entries (lc_new n) [] = []"
  by (simp_all add: lc_inv_def lc_new_def lc_entries_def)

text \<open>The invariant without the pointers to the ends.\<close>

lemma lc_inv_key: "lc_inv lc xs \<Longrightarrow> a \<in> set xs \<Longrightarrow> (map_iter (the (lc_heap lc a)), a) \<in> set (m_location_map lc)"
  by (simp add: lc_inv_def)

lemma lc_inv_inj:
  assumes "lc_inv lc xs" "a \<in> set xs" "b \<in> set xs" "map_iter (the (lc_heap lc a)) = map_iter (the (lc_heap lc b))"
  shows "a = b"
proof -
  have "sorted_wrt (<) (map fst (m_location_map lc))" using assms(1) by (simp add: lc_inv_def)
  from om_find_iff[OF this] lc_inv_key[OF assms(1,2)] lc_inv_key[OF assms(1,3)] assms(4) show ?thesis by (metis option.inject)
qed

lemma lc_entries_distinct: "lc_inv lc xs \<Longrightarrow> distinct (map e_key (lc_entries lc xs))"
  by (auto simp: lc_entries_def contents_def distinct_map comp_def inj_on_def lc_inv_inj) (auto simp: lc_inv_def linked_def)

lemma lc_length:
  assumes "lc_inv lc xs"
  shows "length (m_location_map lc) = length xs"
proof -
  have s: "set (m_location_map lc) = (\<lambda>a. (map_iter (the (lc_heap lc a)), a)) ` set xs" using assms by (auto simp: lc_inv_def)
  have "distinct (m_location_map lc)" "distinct xs"
    using assms sorted_keys_distinct distinct_map by (auto simp: lc_inv_def linked_def)
  then have "length (m_location_map lc) = card (set (m_location_map lc))" "length xs = card (set xs)" by (simp_all add: distinct_card)
  then show ?thesis unfolding s by (simp add: card_image inj_on_def)
qed

lemma set_links_commute:
  "h z = Some n \<Longrightarrow> h y = Some m \<Longrightarrow> z \<noteq> y \<Longrightarrow>
    rbind (set_prev (Some y) p h) (set_next (Some z) q) = rbind (set_next (Some z) q h) (set_prev (Some y) p)"
  by (simp add: fun_upd_twist)

lemma same_keys:
  assumes "\<forall>y. map_option entry_of (h' y) = map_option entry_of (h y)" "y \<in> dom h"
  shows "map_iter (the (h' y)) = map_iter (the (h y))"
proof -
  from assms(2) obtain n where n: "h y = Some n" by blast
  with assms(1) obtain n' where "h' y = Some n'" "entry_of n' = entry_of n" by (metis map_option_eq_Some)
  with n show ?thesis by (simp add: entry_of_def)
qed

lemma lc_entries_filter:
  assumes "lc_inv lc (us @ a # vs)"
  shows "filter (\<lambda>e. e_key e \<noteq> map_iter (the (lc_heap lc a))) (lc_entries lc (us @ a # vs)) = lc_entries lc (us @ vs)"
proof -
  have d: "distinct (us @ a # vs)" using assms by (simp add: lc_inv_def linked_def)
  have "filter (\<lambda>e. e_key e \<noteq> map_iter (the (lc_heap lc a))) (contents entry_of (lc_heap lc) ys) = contents entry_of (lc_heap lc) ys"
    if "set ys \<subseteq> set (us @ vs)" for ys
  proof (subst filter_id_conv, intro ballI)
    fix e assume "e \<in> set (contents entry_of (lc_heap lc) ys)"
    then obtain b where b: "b \<in> set ys" "e = entry_of (the (lc_heap lc b))" by (auto simp: contents_def)
    then have "b \<noteq> a" using that d by auto
    then show "e_key e \<noteq> map_iter (the (lc_heap lc a))" using lc_inv_inj[OF assms, of b a] b that by auto
  qed
  from this[of us] this[of vs] show ?thesis by (simp add: lc_entries_def)
qed

lemma lc_inv_unlink:
  assumes inv: "lc_inv lc (us @ a # vs)" and v: "lc_heap lc a = Some v"
    and h': "linked (h'(a := None)) (us @ vs)" "\<forall>y. map_option entry_of (h' y) = map_option entry_of (lc_heap lc y)"
  shows "lc_inv (lc\<lparr>lc_heap := h'(a := None), lc_tail := first_or (us @ vs) None, lc_head := last_or (us @ vs) None,
      m_location_map := om_erase (map_iter v) (m_location_map lc)\<rparr>) (us @ vs)"
    and "contents entry_of (h'(a := None)) (us @ vs) = lc_entries lc (us @ vs)"
proof -
  have l: "linked (lc_heap lc) (us @ a # vs)" and d: "a \<notin> set (us @ vs)" using inv by (auto simp: lc_inv_def linked_def)
  have ids: "\<And>y. y \<in> set (us @ vs) \<Longrightarrow> map_iter (the (h' y)) = map_iter (the (lc_heap lc y))"
    by (rule same_keys[OF h'(2)]) (use l in \<open>auto simp: linked_def\<close>)
  have u: "map_iter (the (lc_heap lc y)) \<noteq> map_iter v" if "y \<in> set (us @ vs)" for y
    using lc_inv_inj[OF inv, of y a] that v d by auto
  show "lc_inv (lc\<lparr>lc_heap := h'(a := None), lc_tail := first_or (us @ vs) None, lc_head := last_or (us @ vs) None,
      m_location_map := om_erase (map_iter v) (m_location_map lc)\<rparr>) (us @ vs)"
    using inv h'(1) ids u d v by (auto simp: lc_inv_def set_om_erase sorted_om_erase)
  show "contents entry_of (h'(a := None)) (us @ vs) = lc_entries lc (us @ vs)"
    unfolding lc_entries_def using h'(2) l d by (intro contents_eqI) (auto simp: linked_def)
qed

lemma lc_inv_middle:
  assumes "lc_inv lc (us @ a # vs)"
  shows "\<exists>v. lc_heap lc a = Some v \<and> l_prev v = last_or us None \<and> l_next v = first_or vs None"
  using linked_middle[of "lc_heap lc" us a vs] assms by (simp add: lc_inv_def)

text \<open>Unlinking by the three branches of \<^verbatim>\<open>remove\<close>.\<close>

lemma join_cases:
  assumes "linked h (us @ a # vs)" "h a = Some v" "l_prev v = last_or us None" "l_next v = first_or vs None"
  shows "join (last_or us None) (first_or vs None) h =
    (if us = [] then if vs = [] then Inr h else set_prev (l_next v) None h
     else if vs = [] then set_next (l_prev v) None h
     else rbind (set_prev (l_next v) (l_prev v) h) (set_next (l_prev v) (l_next v)))"
proof (cases "us = [] \<or> vs = []")
  case True
  then show ?thesis using assms by (auto simp: join_def rbind_Inr_right)
next
  case False
  then obtain us' z y vs' where x: "us = us' @ [z]" "vs = y # vs'" by (metis list.exhaust rev_exhaust)
  then obtain n m where "h z = Some n" "h y = Some m" "z \<noteq> y" using assms(1) by (auto simp: linked_def split: option.splits)
  then show ?thesis using False assms x set_links_commute[of h z n y m] by (simp add: join_def)
qed

lemma lc_remove_refines:
  assumes inv: "lc_inv lc (us @ a # vs)"
  shows "\<exists>lc'. lc_remove (Some a) lc = Inr lc' \<and> lc_inv lc' (us @ vs) \<and> lc_entries lc' (us @ vs) = lc_entries lc (us @ vs)
    \<and> m_max_entries lc' = m_max_entries lc"
proof -
  from lc_inv_middle[OF inv] obtain v where v: "lc_heap lc a = Some v" "l_prev v = last_or us None" "l_next v = first_or vs None" by blast
  have l: "linked (lc_heap lc) (us @ a # vs)" and ht: "lc_tail lc = first_or (us @ a # vs) None" "lc_head lc = last_or (us @ a # vs) None"
    using inv by (simp_all add: lc_inv_def)
  have d: "distinct (us @ a # vs)" using l by (simp add: linked_def)
  from linked_unlink[OF l, of entry_of] obtain h' where
    h': "join (last_or us None) (first_or vs None) (lc_heap lc) = Inr h'" "linked (h'(a := None)) (us @ vs)"
    "\<forall>y. map_option entry_of (h' y) = map_option entry_of (lc_heap lc y)" by auto
  let ?lc = "lc\<lparr>lc_heap := h'(a := None), lc_tail := first_or (us @ vs) None, lc_head := last_or (us @ vs) None,
      m_location_map := om_erase (map_iter v) (m_location_map lc)\<rparr>"
  have t: "us \<noteq> [] \<Longrightarrow> lc_tail lc \<noteq> Some a" "vs \<noteq> [] \<Longrightarrow> lc_head lc \<noteq> Some a"
    using d ht by (cases us; cases vs rule: rev_cases; auto)+
  have "lc_remove (Some a) lc = Inr ?lc"
    using h'(1)[unfolded join_cases[OF l v]] v ht t
    by (cases lc; cases "us = []"; cases "vs = []") (auto simp: lc_remove_def rbind_eq_Inr_iff first_last_or_nonempty)
  then show ?thesis using lc_inv_unlink[OF inv v(1) h'(2,3)] by (simp add: lc_entries_def)
qed

lemma lc_entries_eqI:
  assumes "\<forall>y. map_option entry_of (h' y) = map_option entry_of (lc_heap lc y)" "set ys \<subseteq> dom (lc_heap lc)" "lc_heap lc' = h'"
  shows "lc_entries lc' ys = lc_entries lc ys"
  unfolding lc_entries_def using assms by (intro contents_eqI) auto

lemma move_to_head_refines:
  assumes inv: "lc_inv lc (us @ a # vs)"
  shows "\<exists>lc'. move_to_head (Some a) lc = Inr lc' \<and> lc_inv lc' (us @ vs @ [a]) \<and> lc_entries lc' (us @ vs @ [a]) = lc_entries lc (us @ vs @ [a])
    \<and> m_max_entries lc' = m_max_entries lc"
proof (cases "vs = []")
  case True
  then show ?thesis using inv by (auto simp: move_to_head_def lc_inv_def)
next
  case False
  then obtain ws z where vs: "vs = ws @ [z]" by (metis rev_exhaust)
  from lc_inv_middle[OF inv] obtain v where v: "lc_heap lc a = Some v" "l_prev v = last_or us None" "l_next v = first_or vs None" by blast
  have l: "linked (lc_heap lc) (us @ a # vs)" and ht: "lc_tail lc = first_or (us @ a # vs) None" "lc_head lc = Some z"
    using inv vs by (simp_all add: lc_inv_def)
  have d: "distinct (us @ a # vs)" using l by (simp add: linked_def)
  from linked_unlink[OF l, of entry_of] obtain h' where
    h': "join (last_or us None) (first_or vs None) (lc_heap lc) = Inr h'" "h' a = Some v" "linked (h'(a := None)) (us @ vs)"
    "dom h' = dom (lc_heap lc)" "\<forall>y. map_option entry_of (h' y) = map_option entry_of (lc_heap lc y)" using v(1) by auto
  define v' where "v' = v\<lparr>l_next := None, l_prev := Some z\<rparr>"
  obtain m where m: "h' z = Some m" "z \<noteq> a" using linked_node[OF h'(3), of z] vs d by auto
  have "l_prev v' = last_or (us @ vs) None" "l_next v' = None" using vs by (simp_all add: v'_def)
  from linked_snoc[OF h'(3) _ this, of a entry_of] d vs m
  have l': "linked (h'(z \<mapsto> m\<lparr>l_next := Some a\<rparr>, a \<mapsto> v')) (us @ vs @ [a])" by auto
  let ?h = "h'(a \<mapsto> v', z \<mapsto> m\<lparr>l_next := Some a\<rparr>)"
  have h: "?h = h'(z \<mapsto> m\<lparr>l_next := Some a\<rparr>, a \<mapsto> v')" using m(2) by (simp add: fun_upd_twist)
  let ?lc = "lc\<lparr>lc_heap := ?h, lc_tail := first_or (us @ vs) None, lc_head := Some a\<rparr>"
  have "move_to_head (Some a) lc = Inr ?lc"
    using h'(1)[unfolded join_cases[OF l v]] v ht m h'(2) False
    by (cases lc; cases "us = []") (auto simp: move_to_head_def rbind_eq_Inr_iff first_last_or_nonempty v'_def)
  moreover have e: "\<forall>y. map_option entry_of (?h y) = map_option entry_of (lc_heap lc y)"
    using h'(2) spec[OF h'(5), of z] m v(1) link_freeD[OF entry_of_simps(5)] h'(5) by (auto simp: v'_def)
  moreover have k: "\<And>y. y \<in> set (us @ a # vs) \<Longrightarrow> map_iter (the (?h y)) = map_iter (the (lc_heap lc y))"
    by (rule same_keys[OF e]) (use l in \<open>auto simp: linked_def\<close>)
  then have "lc_inv ?lc (us @ vs @ [a])"
    using inv l' h False unfolding lc_inv_def by (auto simp: first_last_or_nonempty simp del: fun_upd_apply)
  moreover have "lc_entries ?lc (us @ vs @ [a]) = lc_entries lc (us @ vs @ [a])"
    by (rule lc_entries_eqI[OF e]) (use l in \<open>auto simp: linked_def\<close>)
  ultimately show ?thesis by (intro exI[of _ ?lc]) simp
qed

lemma add_to_head_refines:
  assumes inv: "lc_inv lc xs" and new: "map_iter v \<notin> e_key ` set (lc_entries lc xs)"
  shows "\<exists>lc' xs'. add_to_head v lc = Inr lc' \<and> lc_inv lc' xs' \<and> lc_entries lc' xs' = lc_entries lc xs @ [entry_of v]
    \<and> m_max_entries lc' = m_max_entries lc"
proof -
  let ?a = "lc_fresh lc" and ?h = "lc_heap lc"
  define v' where "v' = v\<lparr>l_prev := last_or xs None, l_next := None\<rparr>"
  have l: "linked ?h xs" and a: "?a \<notin> set xs" and ht: "lc_tail lc = first_or xs None" "lc_head lc = last_or xs None"
    using inv by (auto simp: lc_inv_def)
  from linked_snoc[OF l a, of v' entry_of] obtain h' where h':
    "(if xs = [] then Inr ?h else set_next (last_or xs None) (Some ?a) ?h) = Inr h'" "linked (h'(?a \<mapsto> v')) (xs @ [?a])"
    "\<forall>y. map_option entry_of (h' y) = map_option entry_of (?h y)" by (auto simp: v'_def)
  let ?lc = "lc\<lparr>lc_heap := h'(?a \<mapsto> v'), lc_head := Some ?a, lc_tail := first_or (xs @ [?a]) None,
    m_location_map := om_insert (map_iter v) ?a (m_location_map lc), lc_fresh := Suc ?a\<rparr>"
  have r: "add_to_head v lc = Inr ?lc"
    using ht h'(1) by (cases lc; cases "xs = []") (auto simp: add_to_head_def Let_def v'_def first_last_or_nonempty)
  have k: "\<And>y. y \<in> set xs \<Longrightarrow> map_iter (the (h' y)) = map_iter (the (?h y))"
    by (rule same_keys[OF h'(3)]) (use l in \<open>simp add: linked_def\<close>)
  have "map_iter v \<notin> fst ` set (m_location_map lc)"
    using new inv by (force simp: lc_inv_def lc_entries_def contents_def image_image)
  moreover have "map_iter v' = map_iter v" by (simp add: v'_def)
  ultimately have i: "lc_inv ?lc (xs @ [?a])"
    using inv a h'(2) k by (auto simp: lc_inv_def less_Suc_eq set_om_insert sorted_om_insert)
  have "contents entry_of h' xs = contents entry_of ?h xs"
    using h'(3) l by (intro contents_eqI) (auto simp: linked_def)
  moreover have "entry_of v' = entry_of v" by (simp add: v'_def entry_of_def)
  ultimately have "lc_entries ?lc (xs @ [?a]) = lc_entries lc xs @ [entry_of v]" using a by (simp add: lc_entries_def)
  with r i show ?thesis by (intro exI[of _ ?lc] exI[of _ "xs @ [?a]"]) simp
qed

lemma make_room_done: "lc_inv lc xs \<Longrightarrow> length xs < unat (m_max_entries lc) \<Longrightarrow> make_room lc = Some (Inr lc)"
  by (subst make_room.simps) (simp add: lc_length)

lemma lc_tail_node:
  assumes "lc_inv lc (a # xs)"
  shows "lc_tail lc = Some a" "\<exists>v. load (lc_heap lc) (Some a) = Inr v \<and> lc_entries lc (a # xs) = entry_of v # lc_entries lc xs"
  using assms lc_inv_middle[of lc "[]" a xs] by (auto simp: lc_inv_def lc_entries_def)

text \<open>One round of the loop: a pegged entry goes to the head, another one is dropped.\<close>

lemma make_room_pegged:
  assumes inv: "lc_inv lc (a # xs)" and full: "\<not> length (a # xs) < unat (m_max_entries lc)"
    and p: "lc_entries lc (a # xs) = e # es" "e_pegged e"
  shows "\<exists>lc'. move_to_head (lc_tail lc) lc = Inr lc' \<and> make_room lc = make_room lc' \<and> lc_inv lc' (xs @ [a])
    \<and> lc_entries lc' (xs @ [a]) = es @ [e] \<and> m_max_entries lc' = m_max_entries lc"
proof -
  from lc_tail_node[OF inv] obtain v where v: "lc_tail lc = Some a" "load (lc_heap lc) (Some a) = Inr v" "e = entry_of v" "es = lc_entries lc xs"
    using p by auto
  from move_to_head_refines[of lc "[]" a xs] inv obtain lc' where m: "move_to_head (Some a) lc = Inr lc'" "lc_inv lc' (xs @ [a])"
    "lc_entries lc' (xs @ [a]) = lc_entries lc (xs @ [a])" "m_max_entries lc' = m_max_entries lc" by auto
  moreover have "make_room lc = make_room lc'"
    using full v p m lc_length[OF inv] by (subst make_room.simps) simp
  moreover have "lc_entries lc (xs @ [a]) = es @ [e]" using v p by (simp add: lc_entries_def)
  ultimately show ?thesis using v by auto
qed

lemma make_room_unpegged:
  assumes inv: "lc_inv lc (a # xs)" and full: "\<not> length (a # xs) < unat (m_max_entries lc)"
    and p: "lc_entries lc (a # xs) = e # es" "\<not> e_pegged e"
  shows "\<exists>lc'. make_room lc = make_room lc' \<and> lc_inv lc' xs \<and> lc_entries lc' xs = es \<and> m_max_entries lc' = m_max_entries lc"
proof -
  from lc_tail_node[OF inv] obtain v where v: "lc_tail lc = Some a" "load (lc_heap lc) (Some a) = Inr v" "e = entry_of v" "es = lc_entries lc xs"
    using p by auto
  from lc_remove_refines[of lc "[]" a xs] inv obtain lc' where m: "lc_remove (Some a) lc = Inr lc'" "lc_inv lc' xs"
    "lc_entries lc' xs = lc_entries lc xs" "m_max_entries lc' = m_max_entries lc" by auto
  moreover have "make_room lc = make_room lc'"
    using full v p m lc_length[OF inv] by (subst make_room.simps) simp
  ultimately show ?thesis using v by auto
qed

lemma make_room_rotate:
  assumes "lc_inv lc xs" "\<not> length xs < unat (m_max_entries lc)" "lc_entries lc xs = ps @ es" "\<forall>e \<in> set ps. e_pegged e"
  shows "\<exists>lc' xs'. make_room lc = make_room lc' \<and> lc_inv lc' xs' \<and> lc_entries lc' xs' = es @ ps \<and> m_max_entries lc' = m_max_entries lc \<and> length xs' = length xs"
  using assms
proof (induction ps arbitrary: lc xs es)
  case Nil
  then show ?case by auto
next
  case (Cons p ps)
  from Cons.prems(3) obtain a ys where x: "xs = a # ys" by (cases xs) (auto simp: lc_entries_def)
  from make_room_pegged[of lc a ys p "ps @ es"] Cons.prems x obtain lc1 where 1: "make_room lc = make_room lc1" "lc_inv lc1 (ys @ [a])"
    "lc_entries lc1 (ys @ [a]) = ps @ es @ [p]" "m_max_entries lc1 = m_max_entries lc" by auto
  from Cons.IH[OF 1(2) _ 1(3)] 1 Cons.prems(2,4) x show ?case by auto
qed

definition stuck :: "location_cache \<Rightarrow> bool" where
  "stuck lc \<longleftrightarrow> (\<exists>xs. lc_inv lc xs \<and> xs \<noteq> [] \<and> (\<forall>e \<in> set (lc_entries lc xs). e_pegged e) \<and> \<not> length xs < unat (m_max_entries lc))"

lemma stuck_step:
  assumes "stuck lc"
  shows "\<not> length (m_location_map lc) < unat (m_max_entries lc)"
    and "\<exists>v lc'. load (lc_heap lc) (lc_tail lc) = Inr v \<and> v_pegged v \<and> move_to_head (lc_tail lc) lc = Inr lc' \<and> stuck lc'"
proof -
  from assms obtain xs where s: "lc_inv lc xs" "xs \<noteq> []" "\<forall>e \<in> set (lc_entries lc xs). e_pegged e" "\<not> length xs < unat (m_max_entries lc)"
    by (auto simp: stuck_def)
  then show "\<not> length (m_location_map lc) < unat (m_max_entries lc)" by (simp add: lc_length)
  from s(2) obtain a ys where x: "xs = a # ys" by (cases xs) auto
  from lc_tail_node[OF s(1)[unfolded x]] obtain v where v: "lc_tail lc = Some a" "load (lc_heap lc) (Some a) = Inr v"
    "lc_entries lc (a # ys) = entry_of v # lc_entries lc ys" by auto
  moreover from make_room_pegged[OF s(1)[unfolded x] s(4)[unfolded x] v(3)] s(3) x v obtain lc' where
    "move_to_head (lc_tail lc) lc = Inr lc'" "lc_inv lc' (ys @ [a])" "lc_entries lc' (ys @ [a]) = lc_entries lc ys @ [entry_of v]"
    "m_max_entries lc' = m_max_entries lc" by auto
  moreover from this have "stuck lc'" unfolding stuck_def using s(3,4) v(3) x by (intro exI[of _ "ys @ [a]"]) auto
  moreover have "v_pegged v" using s(3) v(3) x by simp
  ultimately show "\<exists>v lc'. load (lc_heap lc) (lc_tail lc) = Inr v \<and> v_pegged v \<and> move_to_head (lc_tail lc) lc = Inr lc' \<and> stuck lc'"
    by auto
qed

lemma make_room_hangs: "stuck lc \<Longrightarrow> make_room lc = None"
proof -
  have "\<not> stuck lc" if "make_room lc = Some r" for r
  proof (rule make_room.raw_induct[OF _ that])
    show "\<And>f lc y. (\<And>lc y. f lc = Some y \<Longrightarrow> \<not> stuck lc) \<Longrightarrow>
      (if length (m_location_map lc) < unat (m_max_entries lc) then Some (Inr lc)
      else (case load (lc_heap lc) (lc_tail lc) of
          Inl e \<Rightarrow> Some (Inl e)
        | Inr v \<Rightarrow> (case if v_pegged v then move_to_head (lc_tail lc) lc else lc_remove (lc_tail lc) lc of
              Inl e \<Rightarrow> Some (Inl e)
            | Inr lc \<Rightarrow> f lc))) = Some y \<Longrightarrow> \<not> stuck lc"
      using stuck_step by fastforce
  qed
  then show "stuck lc \<Longrightarrow> make_room lc = None" by (cases "make_room lc") auto
qed

lemma evict_length: "evict k es = Some (Inr es') \<Longrightarrow> length es = k + length es'"
proof (induction k arbitrary: es)
  case (Suc k)
  then obtain e r where d: "dropWhile e_pegged es = e # r" "evict k (r @ takeWhile e_pegged es) = Some (Inr es')"
    by (auto split: list.splits if_splits)
  have "length es = length (takeWhile e_pegged es) + length (dropWhile e_pegged es)"
    by (metis length_append takeWhile_dropWhile_id)
  then show ?case using Suc.IH[OF d(2)] d(1) by simp
qed simp

lemma make_room_refines:
  assumes "lc_inv lc xs" "Suc (length xs) - unat (m_max_entries lc) = k"
  shows "case evict k (lc_entries lc xs) of
      None \<Rightarrow> make_room lc = None
    | Some (Inl e) \<Rightarrow> make_room lc = Some (Inl e)
    | Some (Inr es) \<Rightarrow> \<exists>lc' xs'. make_room lc = Some (Inr lc') \<and> lc_inv lc' xs' \<and> lc_entries lc' xs' = es \<and> m_max_entries lc' = m_max_entries lc"
  using assms
proof (induction k arbitrary: lc xs)
  case 0
  then show ?case using make_room_done[OF 0(1)] by auto
next
  case (Suc k)
  let ?es = "lc_entries lc xs"
  have full: "\<not> length xs < unat (m_max_entries lc)" using Suc.prems(2) by simp
  show ?case
  proof (cases "dropWhile e_pegged ?es")
    case Nil
    then have peg: "\<forall>e \<in> set ?es. e_pegged e" by (simp add: dropWhile_eq_Nil_conv)
    show ?thesis
    proof (cases "xs = []")
      case True
      then have "?es = []" "lc_tail lc = None" using Suc.prems(1) by (simp_all add: lc_entries_def lc_inv_def)
      moreover have "make_room lc = Some (Inl UNDEFINED_BEHAVIOUR)"
        using True full lc_length[OF Suc.prems(1)] calculation(2) by (subst make_room.simps) simp
      ultimately show ?thesis by simp
    next
      case False
      then have "stuck lc" using Suc.prems(1) peg full by (auto simp: stuck_def)
      moreover have "?es \<noteq> []" using False by (auto simp: lc_entries_def contents_def)
      ultimately show ?thesis using Nil make_room_hangs by (simp del: dropWhile_eq_Nil_conv)
    qed
  next
    case (Cons e r)
    let ?p = "takeWhile e_pegged ?es"
    have es: "?es = ?p @ e # r" using Cons by (metis takeWhile_dropWhile_id)
    from make_room_rotate[OF Suc.prems(1) full es] obtain lc1 xs1 where 1: "make_room lc = make_room lc1" "lc_inv lc1 xs1"
      "lc_entries lc1 xs1 = e # r @ ?p" "m_max_entries lc1 = m_max_entries lc" "length xs1 = length xs"
      by (auto dest: set_takeWhileD)
    obtain a ys where x: "xs1 = a # ys" using 1(3) by (cases xs1) (auto simp: lc_entries_def)
    have "\<not> e_pegged e" using Cons by (metis hd_dropWhile list.distinct(1) list.sel(1))
    from make_room_unpegged[of lc1 a ys e "r @ ?p"] 1 x full this obtain lc2 where 2: "make_room lc1 = make_room lc2" "lc_inv lc2 ys"
      "lc_entries lc2 ys = r @ ?p" "m_max_entries lc2 = m_max_entries lc" by auto
    have "Suc (length ys) - unat (m_max_entries lc2) = k" using Suc.prems(2) 1(5) 2(4) x by simp
    from Suc.IH[OF 2(2) this] show ?thesis using 1(1) 2 Cons by (simp split: option.splits sum.splits)
  qed
qed

lemma evict_subset: "evict k es = Some (Inr es') \<Longrightarrow> set es' \<subseteq> set es"
proof (induction k arbitrary: es)
  case (Suc k)
  then obtain e r where d: "dropWhile e_pegged es = e # r" "evict k (r @ takeWhile e_pegged es) = Some (Inr es')"
    by (auto split: list.splits if_splits)
  have "set r \<subseteq> set es" "set (takeWhile e_pegged es) \<subseteq> set es"
    using d(1) by (metis set_dropWhileD set_subset_Cons subset_iff) (auto dest: set_takeWhileD)
  then show ?case using Suc.IH[OF d(2)] by auto
qed simp

lemma lc_remove_key:
  assumes inv: "lc_inv lc xs"
  shows "\<exists>lc' xs'. (case om_find key (m_location_map lc) of None \<Rightarrow> Inr lc | Some p \<Rightarrow> lc_remove (Some p) lc) = Inr lc' \<and> lc_inv lc' xs'
    \<and> lc_entries lc' xs' = filter (\<lambda>e. e_key e \<noteq> key) (lc_entries lc xs) \<and> m_max_entries lc' = m_max_entries lc"
proof (cases "om_find key (m_location_map lc)")
  case None
  then have "\<forall>e \<in> set (lc_entries lc xs). e_key e \<noteq> key"
    using lc_inv_key[OF inv] by (force simp: om_find_None lc_entries_def contents_def)
  then have "filter (\<lambda>e. e_key e \<noteq> key) (lc_entries lc xs) = lc_entries lc xs" by (simp add: filter_id_conv)
  then show ?thesis using None inv by auto
next
  case (Some p)
  have "sorted_wrt (<) (map fst (m_location_map lc))" using inv by (simp add: lc_inv_def)
  from om_find_iff[OF this] Some have p: "p \<in> set xs" "map_iter (the (lc_heap lc p)) = key" using inv by (auto simp: lc_inv_def)
  then obtain us vs where x: "xs = us @ p # vs" by (meson split_list)
  from lc_remove_refines[OF inv[unfolded x]] lc_entries_filter[OF inv[unfolded x]] show ?thesis using Some p(2) x by auto
qed

lemma lc_insert_refines:
  assumes inv: "lc_inv lc xs"
  shows "case s_insert (unat (m_max_entries lc)) t info pegged (lc_entries lc xs) of
      None \<Rightarrow> lc_insert t info pegged lc = None
    | Some (Inl e) \<Rightarrow> lc_insert t info pegged lc = Some (Inl e)
    | Some (Inr es) \<Rightarrow> \<exists>lc' xs'. lc_insert t info pegged lc = Some (Inr lc') \<and> lc_inv lc' xs' \<and> lc_entries lc' xs' = es
        \<and> m_max_entries lc' = m_max_entries lc"
proof -
  define key where "key = Location_cache_key t (if rli_end_row info = [] then None else Some (rli_end_row info))"
  define lc0 where "lc0 = snd (get_constant_location_str (rli_location info) lc)"
  have g: "get_constant_location_str (rli_location info) lc = (rli_location info, lc0)" "lc_inv lc0 xs"
    "lc_entries lc0 xs = lc_entries lc xs" "m_max_entries lc0 = m_max_entries lc"
    using inv by (simp_all add: lc0_def get_constant_location_str_def lc_inv_def lc_entries_def)
  from lc_remove_key[OF g(2), of key] g obtain lc1 xs1 where
    1: "(case om_find key (m_location_map lc0) of None \<Rightarrow> Inr lc0 | Some p \<Rightarrow> lc_remove (Some p) lc0) = Inr lc1" "lc_inv lc1 xs1"
    "lc_entries lc1 xs1 = filter (\<lambda>e. e_key e \<noteq> key) (lc_entries lc xs)" "m_max_entries lc1 = m_max_entries lc" by auto
  let ?v = "\<lparr>l_prev = None, l_next = None, map_iter = key, v_start_row = rli_start_row info, v_end_row = rli_end_row info,
            v_location = rli_location info, v_pegged = pegged\<rparr>"
  let ?e = "\<lparr>e_key = key, e_start = rli_start_row info, e_end = rli_end_row info, e_location = rli_location info, e_pegged = pegged\<rparr>"
  let ?k = "Suc (length (lc_entries lc1 xs1)) - unat (m_max_entries lc)"
  have i: "lc_insert t info pegged lc = map_option (\<lambda>r. rbind r (add_to_head ?v)) (make_room lc1)"
    using 1(1) by (simp add: lc_insert_def g(1) Let_def flip: key_def)
  have s: "s_insert (unat (m_max_entries lc)) t info pegged (lc_entries lc xs)
      = map_option (\<lambda>r. rbind r (\<lambda>es. Inr (es @ [?e]))) (evict ?k (lc_entries lc1 xs1))"
    by (simp add: s_insert_def Let_def 1(3) flip: key_def)
  have r: "case evict ?k (lc_entries lc1 xs1) of
      None \<Rightarrow> make_room lc1 = None
    | Some (Inl e) \<Rightarrow> make_room lc1 = Some (Inl e)
    | Some (Inr es) \<Rightarrow> \<exists>lc' xs'. make_room lc1 = Some (Inr lc') \<and> lc_inv lc' xs' \<and> lc_entries lc' xs' = es \<and> m_max_entries lc' = m_max_entries lc1"
    by (rule make_room_refines[OF 1(2)]) (simp add: 1(4) lc_entries_def)
  show ?thesis
  proof (cases "\<exists>es. evict ?k (lc_entries lc1 xs1) = Some (Inr es)")
    case True
    then obtain es where es: "evict ?k (lc_entries lc1 xs1) = Some (Inr es)" by blast
    with r obtain lc2 xs2 where 2: "make_room lc1 = Some (Inr lc2)" "lc_inv lc2 xs2" "lc_entries lc2 xs2 = es"
      "m_max_entries lc2 = m_max_entries lc1" by auto
    have "map_iter ?v \<notin> e_key ` set (lc_entries lc2 xs2)" using evict_subset[OF es] 1(3) 2(3) by auto
    from add_to_head_refines[OF 2(2) this] show ?thesis unfolding s i using es 2 1(4) by (auto simp: entry_of_def)
  next
    case False
    then show ?thesis unfolding s i using r by (auto split: option.splits sum.splits)
  qed
qed

lemma lc_hit:
  assumes inv: "lc_inv lc xs"
  shows "case om_lower_bound k (m_location_map lc) of
      None \<Rightarrow> at_least k (lc_entries lc xs) = None
    | Some (k', p) \<Rightarrow> \<exists>us vs v. xs = us @ p # vs \<and> lc_heap lc p = Some v \<and> map_iter v = k' \<and> at_least k (lc_entries lc xs) = Some (entry_of v)"
proof (cases "om_lower_bound k (m_location_map lc)")
  case None
  then have "\<forall>e \<in> set (lc_entries lc xs). e_key e < k"
    using lc_inv_key[OF inv] by (force simp: om_lower_bound_None lc_entries_def contents_def)
  then show ?thesis using None at_least_None by simp
next
  case (Some kp)
  obtain k' p where kp: "kp = (k', p)" by (cases kp)
  have "sorted_wrt (<) (map fst (m_location_map lc))" using inv by (simp add: lc_inv_def)
  note lb = om_lower_bound_Some[OF this Some[unfolded kp]]
  have p: "p \<in> set xs" "map_iter (the (lc_heap lc p)) = k'" using lb(1) inv by (auto simp: lc_inv_def)
  then obtain us vs where x: "xs = us @ p # vs" by (meson split_list)
  from lc_inv_middle[OF inv[unfolded x]] obtain v where v: "lc_heap lc p = Some v" by blast
  have "at_least k (lc_entries lc xs) = Some (entry_of v)"
  proof (rule at_least_Some[OF lc_entries_distinct[OF inv]])
    show "entry_of v \<in> set (lc_entries lc xs)" using p(1) v by (force simp: lc_entries_def contents_def)
    show "k \<le> e_key (entry_of v)" using lb(2) p(2) v by simp
    show "\<forall>e' \<in> set (lc_entries lc xs). k \<le> e_key e' \<longrightarrow> e_key (entry_of v) \<le> e_key e'"
      using lb(3) lc_inv_key[OF inv] p(2) v by (force simp: lc_entries_def contents_def)
  qed
  then show ?thesis using Some kp x v p(2) by auto
qed

lemma lc_lookup_refines:
  assumes inv: "lc_inv lc xs"
  shows "\<exists>lc' xs'. lc_lookup t row incl lc = Inr (fst (s_lookup t row incl (lc_entries lc xs)), lc') \<and> lc_inv lc' xs'
    \<and> lc_entries lc' xs' = snd (s_lookup t row incl (lc_entries lc xs)) \<and> m_max_entries lc' = m_max_entries lc"
proof (cases "om_lower_bound (Location_cache_key t (Some row)) (m_location_map lc)")
  case None
  then show ?thesis using lc_hit[OF inv, of "Location_cache_key t (Some row)"] inv by (auto simp: lc_lookup_def s_lookup_def s_hit_def)
next
  case (Some kp)
  then obtain k p us vs v where x: "om_lower_bound (Location_cache_key t (Some row)) (m_location_map lc) = Some (k, p)" "xs = us @ p # vs"
    "lc_heap lc p = Some v" "map_iter v = k" "at_least (Location_cache_key t (Some row)) (lc_entries lc xs) = Some (entry_of v)"
    using lc_hit[OF inv, of "Location_cache_key t (Some row)"] by (cases kp) auto
  show ?thesis
  proof (cases "lk_table k \<noteq> t \<or> (if incl then row < v_start_row v else row \<le> v_start_row v)")
    case True
    then show ?thesis using x inv by (auto simp: lc_lookup_def s_lookup_def s_hit_def)
  next
    case False
    have f: "filter (\<lambda>e. e_key e \<noteq> k) (lc_entries lc xs) = lc_entries lc (us @ vs)" using lc_entries_filter[of lc us p vs] inv x by simp
    have "s_hit t row (\<lambda>s. if incl then row < s else row \<le> s) (lc_entries lc xs) = Some (entry_of v)"
      using False x(4,5) by (auto simp: s_hit_def)
    then have s: "s_lookup t row incl (lc_entries lc xs) = (Some (info_of (entry_of v)), lc_entries lc (us @ vs @ [p]))"
      using f x(3,4) by (simp add: s_lookup_def lc_entries_def)
    from move_to_head_refines[of lc us p vs] inv x(2) obtain lc' where
      "move_to_head (Some p) lc = Inr lc'" "lc_inv lc' (us @ vs @ [p])" "lc_entries lc' (us @ vs @ [p]) = lc_entries lc (us @ vs @ [p])"
      "m_max_entries lc' = m_max_entries lc" by auto
    then show ?thesis unfolding s using False x(1,3) by (auto simp: lc_lookup_def)
  qed
qed

lemma lc_invalidate_refines:
  assumes inv: "lc_inv lc xs"
  shows "\<exists>lc' xs'. lc_invalidate t row lc = Inr (fst (s_invalidate t row (lc_entries lc xs)), lc') \<and> lc_inv lc' xs'
    \<and> lc_entries lc' xs' = snd (s_invalidate t row (lc_entries lc xs)) \<and> m_max_entries lc' = m_max_entries lc"
proof (cases "om_lower_bound (Location_cache_key t (Some row)) (m_location_map lc)")
  case None
  then show ?thesis using lc_hit[OF inv, of "Location_cache_key t (Some row)"] inv by (auto simp: lc_invalidate_def s_invalidate_def s_hit_def)
next
  case (Some kp)
  then obtain k p us vs v where x: "om_lower_bound (Location_cache_key t (Some row)) (m_location_map lc) = Some (k, p)" "xs = us @ p # vs"
    "lc_heap lc p = Some v" "map_iter v = k" "at_least (Location_cache_key t (Some row)) (lc_entries lc xs) = Some (entry_of v)"
    using lc_hit[OF inv, of "Location_cache_key t (Some row)"] by (cases kp) auto
  show ?thesis
  proof (cases "lk_table k \<noteq> t \<or> row < v_start_row v")
    case True
    then show ?thesis using x inv by (auto simp: lc_invalidate_def s_invalidate_def s_hit_def)
  next
    case False
    have f: "filter (\<lambda>e. e_key e \<noteq> k) (lc_entries lc xs) = lc_entries lc (us @ vs)" using lc_entries_filter[of lc us p vs] inv x by simp
    have "s_invalidate t row (lc_entries lc xs) = (True, lc_entries lc (us @ vs))"
      using False x(4,5) f by (auto simp: s_hit_def s_invalidate_def)
    moreover from lc_remove_refines[of lc us p vs] inv x(2) obtain lc' where
      "lc_remove (Some p) lc = Inr lc'" "lc_inv lc' (us @ vs)" "lc_entries lc' (us @ vs) = lc_entries lc (us @ vs)"
      "m_max_entries lc' = m_max_entries lc" by auto
    ultimately show ?thesis using False x(1,3) by (auto simp: lc_invalidate_def)
  qed
qed

section \<open>Sequences of operations\<close>

datatype lc_op = Lc_insert u32 range_location_info bool | Lc_lookup u32 bytes bool | Lc_invalidate u32 bytes

datatype lc_out = Done | Found "range_location_info option" | Invalidated bool

definition lc_step :: "lc_op \<Rightarrow> location_cache \<Rightarrow> (lc_out \<times> location_cache) result option" where
  "lc_step p lc = (case p of
      Lc_insert t info pegged \<Rightarrow> map_option (\<lambda>r. rbind r (\<lambda>lc. Inr (Done, lc))) (lc_insert t info pegged lc)
    | Lc_lookup t row incl \<Rightarrow> Some (rbind (lc_lookup t row incl lc) (\<lambda>(r, lc). Inr (Found r, lc)))
    | Lc_invalidate t row \<Rightarrow> Some (rbind (lc_invalidate t row lc) (\<lambda>(r, lc). Inr (Invalidated r, lc))))"

definition s_step :: "nat \<Rightarrow> lc_op \<Rightarrow> location_entry list \<Rightarrow> (lc_out \<times> location_entry list) result option" where
  "s_step n p es = (case p of
      Lc_insert t info pegged \<Rightarrow> map_option (\<lambda>r. rbind r (\<lambda>es. Inr (Done, es))) (s_insert n t info pegged es)
    | Lc_lookup t row incl \<Rightarrow> (let (r, es) = s_lookup t row incl es in Some (Inr (Found r, es)))
    | Lc_invalidate t row \<Rightarrow> (let (r, es) = s_invalidate t row es in Some (Inr (Invalidated r, es))))"

fun lc_run :: "lc_op list \<Rightarrow> location_cache \<Rightarrow> (lc_out list \<times> location_cache) result option" where
  "lc_run [] lc = Some (Inr ([], lc))"
| "lc_run (p # ps) lc = (case lc_step p lc of
      None \<Rightarrow> None
    | Some (Inl e) \<Rightarrow> Some (Inl e)
    | Some (Inr (r, lc)) \<Rightarrow> map_option (\<lambda>x. rbind x (\<lambda>(rs, lc). Inr (r # rs, lc))) (lc_run ps lc))"

fun s_run :: "nat \<Rightarrow> lc_op list \<Rightarrow> location_entry list \<Rightarrow> (lc_out list \<times> location_entry list) result option" where
  "s_run n [] es = Some (Inr ([], es))"
| "s_run n (p # ps) es = (case s_step n p es of
      None \<Rightarrow> None
    | Some (Inl e) \<Rightarrow> Some (Inl e)
    | Some (Inr (r, es)) \<Rightarrow> map_option (\<lambda>x. rbind x (\<lambda>(rs, es). Inr (r # rs, es))) (s_run n ps es))"

text \<open>\<open>implements c s\<close>: the outcome \<open>c\<close> of the cache is the outcome \<open>s\<close> of the list - the same failure to return, the same error, or the
  same result and a cache that stands for the list.\<close>

definition implements :: "u32 \<Rightarrow> ('o \<times> location_cache) result option \<Rightarrow> ('o \<times> location_entry list) result option \<Rightarrow> bool" where
  "implements n c s = (case s of
      None \<Rightarrow> c = None
    | Some (Inl e) \<Rightarrow> c = Some (Inl e)
    | Some (Inr (r, es)) \<Rightarrow> \<exists>lc xs. c = Some (Inr (r, lc)) \<and> lc_inv lc xs \<and> lc_entries lc xs = es \<and> m_max_entries lc = n)"

lemma lc_step_refines:
  assumes "lc_inv lc xs"
  shows "implements (m_max_entries lc) (lc_step p lc) (s_step (unat (m_max_entries lc)) p (lc_entries lc xs))"
proof (cases p)
  case (Lc_insert t info pegged)
  then show ?thesis using lc_insert_refines[OF assms, of t info pegged]
    by (auto simp: implements_def lc_step_def s_step_def split: option.splits sum.splits)
next
  case (Lc_lookup t row incl)
  then show ?thesis using lc_lookup_refines[OF assms, of t row incl]
    by (auto simp: implements_def lc_step_def s_step_def split: prod.splits)
next
  case (Lc_invalidate t row)
  then show ?thesis using lc_invalidate_refines[OF assms, of t row]
    by (auto simp: implements_def lc_step_def s_step_def split: prod.splits)
qed

lemma lc_run_refines:
  "lc_inv lc xs \<Longrightarrow> implements (m_max_entries lc) (lc_run ps lc) (s_run (unat (m_max_entries lc)) ps (lc_entries lc xs))"
proof (induction ps arbitrary: lc xs)
  case Nil
  then show ?case by (auto simp: implements_def)
next
  case (Cons p ps)
  let ?s = "s_step (unat (m_max_entries lc)) p (lc_entries lc xs)"
  note step = lc_step_refines[OF Cons.prems, of p]
  show ?case
  proof (cases "\<exists>r es. ?s = Some (Inr (r, es))")
    case True
    then obtain r es where s: "?s = Some (Inr (r, es))" by blast
    with step obtain lc1 xs1 where c: "lc_step p lc = Some (Inr (r, lc1))" "lc_inv lc1 xs1" "lc_entries lc1 xs1 = es"
      "m_max_entries lc1 = m_max_entries lc" by (auto simp: implements_def)
    from Cons.IH[OF c(2)] show ?thesis using s c
      by (auto simp: implements_def split: option.splits sum.splits)
  next
    case False
    then show ?thesis using step by (auto simp: implements_def split: option.splits sum.splits)
  qed
qed

text \<open>C17. The location cache implements a list of ranges in order of use: for any capacity and any sequence of insertions, lookups and
  invalidations applied to a new cache, every operation gives the result it gives on the list, follows no bad pointer unless the list
  specification says so (capacity zero), and fails to return only when the specification does.\<close>

theorem location_cache_refines:
  "implements n (lc_run ps (lc_new n)) (s_run (unat n) ps [])"
  using lc_run_refines[OF lc_inv_new(1), of n ps] by (simp add: lc_inv_new(2)) (simp add: lc_new_def)

section \<open>What the cache guarantees\<close>

definition key_for :: "u32 \<Rightarrow> range_location_info \<Rightarrow> location_cache_key" where
  "key_for t info = Location_cache_key t (if rli_end_row info = [] then None else Some (rli_end_row info))"

definition entry_for :: "u32 \<Rightarrow> range_location_info \<Rightarrow> bool \<Rightarrow> location_entry" where
  "entry_for t info pegged = \<lparr>e_key = key_for t info, e_start = rli_start_row info, e_end = rli_end_row info,
     e_location = rli_location info, e_pegged = pegged\<rparr>"

lemma entry_for_simps [simp]: "e_key (entry_for t info p) = key_for t info" "info_of (entry_for t info p) = info" "e_pegged (entry_for t info p) = p"
  "e_start (entry_for t info p) = rli_start_row info" "lk_table (key_for t info) = t"
  by (simp_all add: entry_for_def info_of_def key_for_def)

text \<open>A range contains the rows behind its start row (or at it) up to its end row; an empty end row stands for the end of the table.\<close>

definition contains :: "bool \<Rightarrow> range_location_info \<Rightarrow> bytes \<Rightarrow> bool" where
  "contains incl info row \<longleftrightarrow> (if incl then rli_start_row info \<le> row else rli_start_row info < row)
     \<and> (rli_end_row info = [] \<or> row \<le> rli_end_row info)"

lemma key_for_le_iff: "Location_cache_key t (Some row) \<le> key_for t info \<longleftrightarrow> rli_end_row info = [] \<or> row \<le> rli_end_row info"
  by (auto simp: key_for_def less_eq_location_cache_key_def lk_less_def)

lemma s_insert_eq:
  "s_insert n t info pegged es = map_option (\<lambda>r. rbind r (\<lambda>es. Inr (es @ [entry_for t info pegged])))
     (evict (Suc (length (filter (\<lambda>e. e_key e \<noteq> key_for t info) es)) - n) (filter (\<lambda>e. e_key e \<noteq> key_for t info) es))"
  by (simp add: s_insert_def Let_def entry_for_def key_for_def)

lemma evict_pegged: "evict k es = Some (Inr es') \<Longrightarrow> e \<in> set es \<Longrightarrow> e_pegged e \<Longrightarrow> e \<in> set es'"
proof (induction k arbitrary: es)
  case (Suc k)
  then obtain e' r where d: "dropWhile e_pegged es = e' # r" "evict k (r @ takeWhile e_pegged es) = Some (Inr es')"
    by (auto split: list.splits if_splits)
  have es: "es = takeWhile e_pegged es @ e' # r" using d(1) by (metis takeWhile_dropWhile_id)
  have "\<not> e_pegged e'" using d(1) by (metis hd_dropWhile list.distinct(1) list.sel(1))
  then have "e \<in> set (r @ takeWhile e_pegged es)" using Suc.prems(2,3) es by (metis Un_iff set_ConsD set_append)
  then show ?case using Suc.IH[OF d(2)] Suc.prems(3) by blast
qed simp

text \<open>What holds of the list after the operations \<open>S\<close>.\<close>

definition s_good :: "nat \<Rightarrow> lc_op set \<Rightarrow> location_entry list \<Rightarrow> bool" where
  "s_good n S es \<longleftrightarrow> length es \<le> n \<and> (\<forall>e \<in> set es. \<exists>t info p. Lc_insert t info p \<in> S \<and> e = entry_for t info p)"

lemma s_good_insert:
  assumes g: "s_good n S es" and n: "0 < n"
  shows "if n \<le> length (filter (\<lambda>e. e_key e \<noteq> key_for t info) es) \<and> (\<forall>e \<in> set es. e_key e \<noteq> key_for t info \<longrightarrow> e_pegged e)
    then s_insert n t info p es = None
    else \<exists>es'. s_insert n t info p es = Some (Inr es') \<and> s_good n (insert (Lc_insert t info p) S) es'"
proof -
  let ?f = "filter (\<lambda>e. e_key e \<noteq> key_for t info) es"
  have l: "length ?f \<le> n" by (rule order_trans[OF length_filter_le]) (use g in \<open>simp add: s_good_def\<close>)
  have new: "s_good n (insert (Lc_insert t info p) S) (es' @ [entry_for t info p])" if "set es' \<subseteq> set ?f" "length es' < n" for es'
  proof -
    have "\<exists>t' info' p'. Lc_insert t' info' p' \<in> insert (Lc_insert t info p) S \<and> e = entry_for t' info' p'"
      if e: "e \<in> set (es' @ [entry_for t info p])" for e
    proof (cases "e = entry_for t info p")
      case True
      then show ?thesis by blast
    next
      case False
      then have "e \<in> set es" using e \<open>set es' \<subseteq> set ?f\<close> by auto
      then show ?thesis using g unfolding s_good_def by blast
    qed
    then show ?thesis using that(2) by (simp add: s_good_def)
  qed
  show ?thesis
  proof (cases "length ?f < n")
    case True
    then have "Suc (length ?f) - n = 0" by simp
    then show ?thesis using True new[of ?f] by (simp add: s_insert_eq)
  next
    case False
    then have k: "Suc (length ?f) - n = Suc 0" and ne: "?f \<noteq> []" using l n by auto
    show ?thesis
    proof (cases "dropWhile e_pegged ?f")
      case Nil
      then have "evict (Suc 0) ?f = None" using ne by (simp del: dropWhile_eq_Nil_conv)
      moreover have "\<forall>e \<in> set es. e_key e \<noteq> key_for t info \<longrightarrow> e_pegged e" using Nil by auto
      ultimately show ?thesis using False by (simp add: s_insert_eq k del: evict.simps)
    next
      case (Cons e r)
      obtain p where p: "?f = p @ e # r" "p = takeWhile e_pegged ?f" using Cons by (metis takeWhile_dropWhile_id)
      have f: "set ?f = set (p @ e # r)" "length ?f = length (p @ e # r)" by (simp_all only: p(1))
      have "set (r @ p) \<subseteq> set ?f" "length (r @ p) < n" "e \<in> set ?f" using l unfolding f by auto
      moreover have "\<not> e_pegged e" using Cons by (metis hd_dropWhile list.distinct(1) list.sel(1))
      moreover have "evict (Suc 0) ?f = Some (Inr (r @ p))" using Cons p(2) by simp
      ultimately show ?thesis using new[of "r @ p"] by (auto simp: s_insert_eq k simp del: evict.simps)
    qed
  qed
qed

lemma s_good_step:
  assumes g: "s_good n S es" and n: "0 < n" and s: "s_step n p es = Some (Inr (r, es'))"
  shows "s_good n (insert p S) es'"
proof (cases p)
  case (Lc_insert t info pegged)
  then show ?thesis using s s_good_insert[OF g n, of t info pegged] by (auto simp: s_step_def split: if_splits)
next
  case (Lc_lookup t row incl)
  have "length (filter (\<lambda>e'. e_key e' \<noteq> e_key e) es @ [e]) \<le> n" if "e \<in> set es" for e
    using that g length_filter_less[of e es "\<lambda>e'. e_key e' \<noteq> e_key e"] by (simp add: s_good_def)
  moreover have "e \<in> set es" if "s_hit t row b es = Some e" for b e
    using that by (auto simp: s_hit_def at_least_def split: option.splits list.splits if_splits) (metis filter_is_subset list.set_intros(1) set_sort subsetD)
  ultimately show ?thesis using s g Lc_lookup by (fastforce simp: s_step_def s_lookup_def s_good_def split: option.splits)
next
  case (Lc_invalidate t row)
  have "length (filter (\<lambda>e'. e_key e' \<noteq> e_key e) es) \<le> n" for e :: location_entry
    by (rule order_trans[OF length_filter_le]) (use g in \<open>simp add: s_good_def\<close>)
  then show ?thesis using s g Lc_invalidate by (fastforce simp: s_step_def s_invalidate_def s_good_def split: option.splits)
qed

lemma s_good_run: "s_good n S es \<Longrightarrow> 0 < n \<Longrightarrow> s_run n ps es = Some (Inr (rs, es')) \<Longrightarrow> s_good n (S \<union> set ps) es'"
proof (induction ps arbitrary: S es rs)
  case (Cons p ps)
  then obtain r es1 rs1 where 1: "s_step n p es = Some (Inr (r, es1))" "s_run n ps es1 = Some (Inr (rs1, es'))"
    by (auto simp: rbind_eq_Inr_iff split: option.splits sum.splits prod.splits)
  from Cons.IH[OF s_good_step[OF Cons.prems(1,2) 1(1)] Cons.prems(2) 1(2)] show ?case by simp
qed simp

lemma lc_reachable:
  assumes "lc_run ps (lc_new n) = Some (Inr (rs, lc))" "n \<noteq> 0"
  obtains xs where "lc_inv lc xs" "s_good (unat n) (set ps) (lc_entries lc xs)" "m_max_entries lc = n" "0 < unat n"
proof -
  have n: "0 < unat n" using assms(2) by (simp add: unat_gt_0)
  have "implements n (lc_run ps (lc_new n)) (s_run (unat n) ps [])"
    using lc_run_refines[OF lc_inv_new(1), of n ps] by (simp add: lc_inv_new(2)) (simp add: lc_new_def)
  with assms(1) obtain xs where x: "s_run (unat n) ps [] = Some (Inr (rs, lc_entries lc xs))" "lc_inv lc xs" "m_max_entries lc = n"
    by (auto simp: implements_def split: option.splits sum.splits)
  have "s_good (unat n) {} []" by (simp add: s_good_def)
  from s_good_run[OF this n x(1)] x n show ?thesis by (intro that) auto
qed

lemma key_for_order:
  "key_for t info \<le> key_for t info' \<longleftrightarrow> rli_end_row info' = [] \<or> rli_end_row info \<noteq> [] \<and> rli_end_row info \<le> rli_end_row info'"
  "t \<noteq> t' \<Longrightarrow> key_for t info \<le> key_for t' info' \<longleftrightarrow> t < t'" "t \<noteq> t' \<Longrightarrow> Location_cache_key t r \<le> key_for t' info' \<longleftrightarrow> t < t'"
  by (auto simp: key_for_def less_eq_location_cache_key_def lk_less_def)

lemma at_least_SomeD:
  assumes "at_least k es = Some e"
  shows "e \<in> set es \<and> k \<le> e_key e"
proof -
  from assms obtain r where "sort_key e_key (filter (\<lambda>e. k \<le> e_key e) es) = e # r" by (auto simp: at_least_def split: list.splits)
  from arg_cong[OF this, of set] show ?thesis by auto
qed

lemma lc_lookup_sound:
  assumes "lc_inv lc xs" "s_good n S (lc_entries lc xs)" "lc_lookup t row incl lc = Inr (Some info, lc')"
  shows "(\<exists>p. Lc_insert t info p \<in> S) \<and> contains incl info row"
proof -
  from lc_lookup_refines[OF assms(1), of t row incl] assms(3)
  have "fst (s_lookup t row incl (lc_entries lc xs)) = Some info" by auto
  then obtain e where e: "at_least (Location_cache_key t (Some row)) (lc_entries lc xs) = Some e" "lk_table (e_key e) = t"
    "\<not> (if incl then row < e_start e else row \<le> e_start e)" "info = info_of e"
    by (auto simp: s_lookup_def s_hit_def split: option.splits if_splits)
  from at_least_SomeD[OF e(1)] assms(2) obtain t' info' p where i: "Lc_insert t' info' p \<in> S" "e = entry_for t' info' p"
    "Location_cache_key t (Some row) \<le> e_key e" by (auto simp: s_good_def)
  then show ?thesis using e by (auto simp: contains_def key_for_le_iff)
qed

lemma lc_lookup_complete:
  assumes inv: "lc_inv lc xs" and g: "s_good (unat n) S (lc_entries lc xs)" and n: "m_max_entries lc = n" "0 < unat n"
    and ins: "lc_insert t info p lc = Some (Inr lc1)" and c: "contains incl info row"
    and others: "\<And>info' p'. Lc_insert t info' p' \<in> S \<Longrightarrow> rli_end_row info' = [] \<or> rli_end_row info' < row
      \<or> rli_end_row info \<noteq> [] \<and> rli_end_row info \<le> rli_end_row info'"
  shows "\<exists>lc2. lc_lookup t row incl lc1 = Inr (Some info, lc2)"
proof -
  from s_good_insert[OF g n(2), of t info p] lc_insert_refines[OF inv, of t info p] ins n(1)
  obtain es xs1 where 1: "s_insert (unat n) t info p (lc_entries lc xs) = Some (Inr es)" "lc_inv lc1 xs1" "lc_entries lc1 xs1 = es"
    by (auto split: if_splits)
  from 1(1) obtain es0 j where "evict j (filter (\<lambda>e. e_key e \<noteq> key_for t info) (lc_entries lc xs)) = Some (Inr es0)"
    "es = es0 @ [entry_for t info p]"
    by (auto simp: s_insert_eq rbind_eq_Inr_iff)
  then have es: "es = es0 @ [entry_for t info p]" "set es0 \<subseteq> set (lc_entries lc xs)" using evict_subset by fastforce+
  let ?k = "Location_cache_key t (Some row)"
  have "at_least ?k es = Some (entry_for t info p)"
  proof (rule at_least_Some)
    show "distinct (map e_key es)" using lc_entries_distinct[OF 1(2)] 1(3) by simp
    show "entry_for t info p \<in> set es" "?k \<le> e_key (entry_for t info p)" using es(1) c by (auto simp: key_for_le_iff contains_def)
    show "\<forall>e' \<in> set es. ?k \<le> e_key e' \<longrightarrow> e_key (entry_for t info p) \<le> e_key e'"
    proof (intro ballI impI)
      fix e' assume e': "e' \<in> set es" "?k \<le> e_key e'"
      show "e_key (entry_for t info p) \<le> e_key e'"
      proof (cases "e' = entry_for t info p")
        case False
        then obtain t' info' p' where i: "Lc_insert t' info' p' \<in> S" "e' = entry_for t' info' p'"
        proof -
          have "e' \<in> set (lc_entries lc xs)" using False e'(1) es by auto
          then show ?thesis using g that unfolding s_good_def by blast
        qed
        show ?thesis
        proof (cases "t' = t")
          case True
          then show ?thesis using others[of info' p'] i e'(2) by (auto simp: key_for_order key_for_le_iff)
        next
          case False
          then show ?thesis using e'(2) i by (simp add: key_for_order)
        qed
      qed simp
    qed
  qed
  then have "fst (s_lookup t row incl (lc_entries lc1 xs1)) = Some info"
    using c 1(3) by (auto simp: s_lookup_def s_hit_def contains_def)
  then show ?thesis using lc_lookup_refines[OF 1(2), of t row incl] by auto
qed

text \<open>A small cache: one pegged range.\<close>

definition info_a :: range_location_info where
  "info_a = \<lparr>rli_start_row = [], rli_end_row = [0x6d], rli_location = [0x61]\<rparr>"

definition info_b :: range_location_info where
  "info_b = \<lparr>rli_start_row = [0x6d], rli_end_row = [], rli_location = [0x62]\<rparr>"

lemma one_pegged:
  assumes "n \<noteq> 0"
  shows "\<exists>lc xs. lc_run [Lc_insert 1 info_a True] (lc_new n) = Some (Inr ([Done], lc)) \<and> lc_inv lc xs
    \<and> lc_entries lc xs = [entry_for 1 info_a True] \<and> m_max_entries lc = n"
proof -
  have "Suc 0 - unat n = 0" using assms by (simp add: unat_gt_0 Suc_le_eq)
  then have "s_run (unat n) [Lc_insert 1 info_a True] [] = Some (Inr ([Done], [entry_for 1 info_a True]))"
    by (simp add: s_step_def s_insert_eq)
  moreover have "implements n (lc_run [Lc_insert 1 info_a True] (lc_new n)) (s_run (unat n) [Lc_insert 1 info_a True] [])"
    using lc_run_refines[OF lc_inv_new(1), of n "[Lc_insert 1 info_a True]"] by (simp add: lc_inv_new(2) del: lc_run.simps s_run.simps) (simp add: lc_new_def del: lc_run.simps s_run.simps)
  ultimately show ?thesis by (simp add: implements_def del: lc_run.simps s_run.simps)
qed

lemma keys_ab: "key_for 1 info_a \<noteq> key_for 1 info_b"
  by (simp add: key_for_def info_a_def info_b_def)

lemma insert_second:
  assumes "lc_inv lc xs" "lc_entries lc xs = [entry_for 1 info_a True]" "m_max_entries lc = 2"
  shows "\<exists>lc1. lc_insert 1 info_b False lc = Some (Inr lc1)"
  using lc_insert_refines[OF assms(1), of 1 info_b False] assms(2,3) keys_ab by (auto simp: s_insert_eq)

text \<open>Lookups are right. After any sequence of operations, a lookup that succeeds returns a range that was inserted for the table and
  that contains the row; and a range that has just been inserted is returned for every row it contains, unless a range of the same
  table was inserted before that ends between the row and the end of the new range.\<close>

lemma location_cache_lookup:
  assumes "lc_run ps (lc_new n) = Some (Inr (outs, lc))" "n \<noteq> 0"
  shows "(lc_lookup t row incl lc = Inr (Some info, lc') \<longrightarrow> (\<exists>p. Lc_insert t info p \<in> set ps) \<and> contains incl info row)
    \<and> (lc_insert t info p lc = Some (Inr lc1) \<and> contains incl info row
        \<and> (\<forall>info' p'. Lc_insert t info' p' \<in> set ps \<longrightarrow> rli_end_row info' = [] \<or> rli_end_row info' < row
            \<or> rli_end_row info \<noteq> [] \<and> rli_end_row info \<le> rli_end_row info')
        \<longrightarrow> (\<exists>lc2. lc_lookup t row incl lc1 = Inr (Some info, lc2)))"
proof -
  from lc_reachable[OF assms] obtain xs where "lc_inv lc xs" "s_good (unat n) (set ps) (lc_entries lc xs)" "m_max_entries lc = n" "0 < unat n" .
  then show ?thesis using lc_lookup_sound[of lc xs "unat n" "set ps"] lc_lookup_complete[of lc xs n "set ps"] by blast
qed

text \<open>The cache keeps to its capacity and to its pegged entries. After any sequence of operations on a cache of nonzero capacity the
  map holds at most that many entries, and an insertion leaves every pegged entry of another key in place, with all its fields.\<close>

lemma location_cache_capacity:
  assumes "lc_run ps (lc_new n) = Some (Inr (outs, lc))" "n \<noteq> 0"
  shows "length (m_location_map lc) \<le> unat n
    \<and> (lc_insert t info p lc = Some (Inr lc1) \<and> (k, a) \<in> set (m_location_map lc) \<and> lc_heap lc a = Some v \<and> v_pegged v \<and> k \<noteq> key_for t info
      \<longrightarrow> (\<exists>a' v'. (k, a') \<in> set (m_location_map lc1) \<and> lc_heap lc1 a' = Some v' \<and> entry_of v' = entry_of v))"
proof -
  from lc_reachable[OF assms] obtain xs where x: "lc_inv lc xs" "s_good (unat n) (set ps) (lc_entries lc xs)" "m_max_entries lc = n" "0 < unat n" .
  have "length (m_location_map lc) \<le> unat n" using x(2) lc_length[OF x(1)] by (simp add: s_good_def lc_entries_def)
  moreover have "\<exists>a' v'. (k, a') \<in> set (m_location_map lc1) \<and> lc_heap lc1 a' = Some v' \<and> entry_of v' = entry_of v"
    if i: "lc_insert t info p lc = Some (Inr lc1)" "(k, a) \<in> set (m_location_map lc)" "lc_heap lc a = Some v" "v_pegged v" "k \<noteq> key_for t info"
  proof -
    from s_good_insert[OF x(2,4), of t info p] lc_insert_refines[OF x(1), of t info p] i(1) x(3)
    obtain es xs1 where 1: "s_insert (unat n) t info p (lc_entries lc xs) = Some (Inr es)" "lc_inv lc1 xs1" "lc_entries lc1 xs1 = es"
      by (auto split: if_splits)
    have "a \<in> set xs" "map_iter v = k" using x(1) i(2,3) by (auto simp: lc_inv_def)
    then have "entry_of v \<in> set (lc_entries lc xs)" "e_key (entry_of v) \<noteq> key_for t info"
      using i(3,5) by (force simp: lc_entries_def contents_def)+
    then have "entry_of v \<in> set es" using 1(1) i(4) by (auto simp: s_insert_eq rbind_eq_Inr_iff evict_pegged)
    then obtain a' where a': "a' \<in> set xs1" "entry_of (the (lc_heap lc1 a')) = entry_of v" using 1(3) by (auto simp: lc_entries_def contents_def)
    moreover obtain v' where "lc_heap lc1 a' = Some v'" using linked_node[of "lc_heap lc1" xs1 a'] 1(2) a'(1) by (auto simp: lc_inv_def)
    moreover have "map_iter (the (lc_heap lc1 a')) = k" using a'(2) \<open>map_iter v = k\<close> by (simp add: entry_of_def)
    ultimately show ?thesis using lc_inv_key[OF 1(2) a'(1)] by auto
  qed
  ultimately show ?thesis by blast
qed

text \<open>C18. When an insertion returns. After any sequence of operations on a cache of nonzero capacity an insertion succeeds, except in one
  case, in which it never returns: the entries with other keys fill the cache and all of them are pegged.\<close>

theorem location_insert_returns:
  assumes "lc_run ps (lc_new n) = Some (Inr (outs, lc))" "n \<noteq> 0"
  shows "let others = filter (\<lambda>(k, _). k \<noteq> key_for t info) (m_location_map lc) in
    if unat n \<le> length others \<and> (\<forall>(k, a) \<in> set others. v_pegged (the (lc_heap lc a)))
    then lc_insert t info p lc = None
    else \<exists>lc1. lc_insert t info p lc = Some (Inr lc1)"
proof -
  from lc_reachable[OF assms] obtain xs where x: "lc_inv lc xs" "s_good (unat n) (set ps) (lc_entries lc xs)" "m_max_entries lc = n" "0 < unat n" .
  let ?o = "filter (\<lambda>(k, _). k \<noteq> key_for t info) (m_location_map lc)" and ?f = "filter (\<lambda>e. e_key e \<noteq> key_for t info) (lc_entries lc xs)"
  have "distinct (m_location_map lc)" using sorted_keys_distinct[of "m_location_map lc"] x(1) by (simp add: lc_inv_def distinct_map)
  then have d: "distinct ?o" "distinct xs" using x(1) by (simp_all add: lc_inv_def linked_def)
  have s: "set ?o = (\<lambda>a. (map_iter (the (lc_heap lc a)), a)) ` {a \<in> set xs. map_iter (the (lc_heap lc a)) \<noteq> key_for t info}"
    using x(1) by (auto simp: lc_inv_def)
  have "length ?o = card (set ?o)" by (rule distinct_card[OF d(1), symmetric])
  also have "\<dots> = card {a \<in> set xs. map_iter (the (lc_heap lc a)) \<noteq> key_for t info}" unfolding s by (simp add: card_image inj_on_def)
  also have "\<dots> = length (filter (\<lambda>a. map_iter (the (lc_heap lc a)) \<noteq> key_for t info) xs)"
    using distinct_card[OF distinct_filter[OF d(2), of "\<lambda>a. map_iter (the (lc_heap lc a)) \<noteq> key_for t info"]] by simp
  also have "\<dots> = length ?f" by (simp add: lc_entries_def contents_def filter_map comp_def)
  finally have l: "length ?o = length ?f" .
  have "(\<forall>(k, a) \<in> set ?o. v_pegged (the (lc_heap lc a))) \<longleftrightarrow> (\<forall>e \<in> set (lc_entries lc xs). e_key e \<noteq> key_for t info \<longrightarrow> e_pegged e)"
    unfolding s by (auto simp: lc_entries_def contents_def)
  then show ?thesis using s_good_insert[OF x(2,4), of t info p] lc_insert_refines[OF x(1), of t info p] l x(3)
    by (auto simp: Let_def split: if_splits)
qed

theorem location_insert_returns_witness:
  "\<exists>lc lc1. lc_run [Lc_insert 1 info_a True] (lc_new 1) = Some (Inr ([Done], lc)) \<and> lc_insert 1 info_b False lc = None
    \<and> lc_insert 1 info_a False lc = Some (Inr lc1)"
proof -
  from one_pegged[of 1] obtain lc xs where a: "lc_run [Lc_insert 1 info_a True] (lc_new 1) = Some (Inr ([Done], lc))" "lc_inv lc xs"
    "lc_entries lc xs = [entry_for 1 info_a True]" "m_max_entries lc = 1" by auto
  from a(3) obtain x where x: "xs = [x]" "entry_of (the (lc_heap lc x)) = entry_for 1 info_a True" by (auto simp: lc_entries_def contents_def)
  from lc_inv_middle[of lc "[]" x "[]"] a(2) x(1) obtain v where v: "lc_heap lc x = Some v" by auto
  have e: "v_pegged v" "map_iter v = key_for 1 info_a" using x(2) v by (auto simp: entry_of_def entry_for_def)
  have "length (m_location_map lc) = 1" "(key_for 1 info_a, x) \<in> set (m_location_map lc)"
    using lc_length[OF a(2)] lc_inv_key[OF a(2), of x] x(1) v e(2) by simp_all
  then have m: "m_location_map lc = [(key_for 1 info_a, x)]" by (cases "m_location_map lc") auto
  have "lc_insert 1 info_b False lc = None"
    using location_insert_returns[OF a(1), where t = 1 and info = info_b and p = False] m v e(1) keys_ab by (auto simp: Let_def)
  moreover have "\<exists>lc1. lc_insert 1 info_a False lc = Some (Inr lc1)"
    using location_insert_returns[OF a(1), where t = 1 and info = info_a and p = False] m by (auto simp: Let_def)
  ultimately show ?thesis using a(1) by blast
qed

end
