(* ===== verification/IOHandlers.thy ===== *)
theory IOHandlers
  imports CommMessages RequestCaches
begin

text \<open>
  The data connection of the communication layer (\<^verbatim>\<open>AsyncComm/IOHandlerData\<close>, the Linux version): reading messages off a
  non-blocking socket and writing queued messages to it. Shown: the read loop always ends; messages are delivered whole and in
  order however the network cuts the stream into pieces - with one exception, a cut right behind a header, for which the code
  delivers a message whose body was never read; the write path neither loses, repeats nor reorders bytes and asks to be woken
  exactly while something is queued.
\<close>

section \<open>Reading from a socket\<close>

datatype errno = EINTR | EAGAIN | ECONNREFUSED | Other_errno

text \<open>What a socket has to give, in order: bytes, failures of single calls, the end of the stream. A call of \<^verbatim>\<open>read\<close> returns bytes of
  one item only, at most as many as asked for; on an exhausted socket it fails with \<^verbatim>\<open>EAGAIN\<close>.\<close>

datatype sock_in = Arrived bytes | Failed errno | End_of_stream

text \<open>\<^verbatim>\<open>et_socket_read\<close> with \<open>nleft\<close> bytes still to read and \<open>got\<close> already read: the return value (minus one for a failure), the bytes
  stored, the error stored, the end-of-file flag, and the socket.\<close>

fun et_socket_read :: "nat \<Rightarrow> bytes \<Rightarrow> sock_in list \<Rightarrow> u64 \<times> bytes \<times> errno option \<times> bool \<times> sock_in list" where
  "et_socket_read nleft got [] =
     (if nleft = 0 then (of_nat (length got), got, None, False, [])
      else (if got \<noteq> [] then of_nat (length got) else -1, got, Some EAGAIN, False, []))"
| "et_socket_read nleft got (i # s) =
     (if nleft = 0 then (of_nat (length got), got, None, False, i # s)
      else (case i of
          Failed e \<Rightarrow> if e = EINTR then et_socket_read nleft got s
            else (if got \<noteq> [] then of_nat (length got) else -1, got, Some e, False, s)
        | End_of_stream \<Rightarrow> (of_nat (length got), got, None, True, i # s)
        | Arrived bs \<Rightarrow>
            if bs = [] then (of_nat (length got), got, None, True, s)
            else if length bs \<le> nleft then et_socket_read (nleft - length bs) (got @ bs) s
            else (of_nat (length got + nleft), got @ take nleft bs, None, False, Arrived (drop nleft bs) # s)))"

section \<open>Incoming messages\<close>

text \<open>A byte of the message buffer that has not been written is \<^term>\<open>None\<close>. The events are those delivered to the application, a
  message together with the dispatch handler of the request it answers.\<close>

datatype io_event = Message_event "byte option list" "nat option" | Disconnect_event "error option" | Timeout_event nat

record io_conn =
  m_message_header :: bytes
  m_message_header_remaining :: u64
  m_got_header :: bool
  m_message :: "byte option list"
  m_message_ptr :: nat
  m_message_remaining :: u64
  io_sock :: "sock_in list"
  io_requests :: request_cache
  io_events :: "io_event list"

definition reset_incoming_message_state :: "io_conn \<Rightarrow> io_conn" where
  "reset_incoming_message_state c = c\<lparr>m_got_header := False, m_message_header_remaining := of_nat hb_header_length, m_message := [],
     m_message_ptr := 0, m_message_remaining := 0\<rparr>"

text \<open>Storing bytes into a buffer at an offset; outside of it is undefined.\<close>

definition store_at :: "nat \<Rightarrow> 'a list \<Rightarrow> 'a list \<Rightarrow> 'a list result" where
  "store_at off xs buf = (if off + length xs \<le> length buf then Inr (take off buf @ xs @ drop (off + length xs) buf) else Inl UNDEFINED_BEHAVIOUR)"

text \<open>The header is complete: allocate the message and copy the header into it.\<close>

definition start_message :: "io_conn \<Rightarrow> io_conn result" where
  "start_message c =
     (let total_len = h_total_len (header_of (m_message_header c)) in
      rbind (store_at 0 (map Some (m_message_header c)) (replicate (unat total_len) None)) (\<lambda>m.
      Inr (c\<lparr>m_got_header := True, m_message_header_remaining := 0, m_message := m, m_message_ptr := hb_header_length,
        m_message_remaining := ucast total_len - of_nat hb_header_length\<rparr>)))"

text \<open>The message is complete: a request, or a response somebody waits for, is delivered; another response is dropped.\<close>

definition finish_message :: "io_conn \<Rightarrow> io_conn result" where
  "finish_message c =
     (let h = header_of (map the (take hb_header_length (m_message c))) in
      rbind (if h_flags h AND FLAGS_BIT_REQUEST \<noteq> 0 then Inr (Some None, io_requests c)
             else if h_id h = 0 then Inr (None, io_requests c)
             else rbind (rc_remove (h_id h) (io_requests c)) (\<lambda>(dh, rc). Inr (map_option Some dh, rc))) (\<lambda>(deliver, rc).
      Inr (reset_incoming_message_state (c\<lparr>io_requests := rc,
        io_events := io_events c @ (case deliver of None \<Rightarrow> [] | Some dh \<Rightarrow> [Message_event (m_message c) dh])\<rparr>))))"

text \<open>The two halves of the loop body. They leave the loop (with the end-of-file flag), close the connection (refused or not), or go on
  with the value of \<^verbatim>\<open>error\<close>.\<close>

datatype phase = Break bool | Close bool | Continue "errno option"

definition header_phase :: "errno option \<Rightarrow> io_conn \<Rightarrow> (phase \<times> io_conn) result" where
  "header_phase err c =
     (if m_got_header c then Inr (Continue err, c)
      else
        let rem = m_message_header_remaining c;
            (nread, data, e, eof, s) = et_socket_read (unat rem) [] (io_sock c);
            err = (if e = None then err else e) in
        rbind (store_at (hb_header_length - unat rem) data (m_message_header c)) (\<lambda>hdr.
        let c = c\<lparr>io_sock := s, m_message_header := hdr\<rparr> in
        if nread = -1 then Inr (if err = Some EAGAIN then Break eof else Close (e = Some ECONNREFUSED), c)
        else if nread < rem then
          let c = c\<lparr>m_message_header_remaining := rem - nread\<rparr> in
          Inr (if err = Some EAGAIN then Break eof else if eof then Break True else Continue None, c)
        else rbind (start_message c) (\<lambda>c. Inr (if eof then Break True else Continue err, c))))"

text \<open>\<^verbatim>\<open>nread\<close> is unsigned: the test \<^verbatim>\<open>nread < 0\<close> never succeeds, and a failed read counts as more than enough.\<close>

definition body_phase :: "errno option \<Rightarrow> io_conn \<Rightarrow> (phase \<times> io_conn) result" where
  "body_phase err c =
     (if \<not> m_got_header c then Inr (Continue err, c)
      else
        let rem = m_message_remaining c;
            (nread, data, e, eof, s) = et_socket_read (unat rem) [] (io_sock c);
            err = (if e = None then err else e) in
        rbind (store_at (m_message_ptr c) (map Some data) (m_message c)) (\<lambda>m.
        let c = c\<lparr>io_sock := s, m_message := m\<rparr> in
        if nread < rem then
          let c = c\<lparr>m_message_ptr := m_message_ptr c + unat nread, m_message_remaining := rem - nread\<rparr> in
          Inr (if err = Some EAGAIN then Break eof else if eof then Break True else Continue None, c)
        else rbind (finish_message c) (\<lambda>c. Inr (if eof then Break True else Continue err, c))))"

section \<open>The read loop ends\<close>

fun sock_size :: "sock_in list \<Rightarrow> nat" where
  "sock_size [] = 0"
| "sock_size (Arrived bs # s) = Suc (length bs) + sock_size s"
| "sock_size (i # s) = Suc (sock_size s)"

definition at_boundary :: "io_conn \<Rightarrow> bool" where
  "at_boundary c \<longleftrightarrow> \<not> m_got_header c \<and> m_message_header_remaining c \<noteq> 0"

lemma et_read_size: "et_socket_read nleft got s = (nread, data, e, eof, s') \<Longrightarrow> sock_size s' \<le> sock_size s"
proof (induction s arbitrary: nleft got)
  case (Cons i s)
  have "sock_size s' \<le> sock_size s" if "et_socket_read l g s = (nread, data, e, eof, s')" for l g by (rule Cons.IH[OF that])
  then show ?case using Cons.prems by (cases i) (fastforce split: if_splits)+
qed (auto split: if_splits)

lemma et_read_progress:
  "et_socket_read nleft got s = (nread, data, e, eof, s') \<Longrightarrow> nleft \<noteq> 0 \<Longrightarrow> \<not> eof \<Longrightarrow> s \<noteq> [] \<Longrightarrow> sock_size s' < sock_size s"
proof (cases s)
  case (Cons i r)
  assume a: "et_socket_read nleft got s = (nread, data, e, eof, s')" "nleft \<noteq> 0" "\<not> eof"
  show ?thesis
  proof (cases i)
    case (Arrived bs)
    then show ?thesis using a Cons et_read_size[of "nleft - length bs" "got @ bs" r nread data e eof s']
      by (auto split: if_splits)
  next
    case (Failed e')
    then show ?thesis using a Cons et_read_size[of nleft got r nread data e eof s'] by (auto split: if_splits)
  next
    case End_of_stream
    then show ?thesis using a Cons by (auto split: if_splits)
  qed
qed simp

text \<open>A phase that goes on has not been given the whole socket back: it consumed something, or it stood inside a message and
  brought the connection to a message boundary.\<close>

lemma header_phase_progress:
  assumes "header_phase err c = Inr (Continue err', c')"
  shows "sock_size (io_sock c') \<le> sock_size (io_sock c)" and "at_boundary c \<Longrightarrow> sock_size (io_sock c') < sock_size (io_sock c)"
proof -
  obtain nread data e eof s where r: "et_socket_read (unat (m_message_header_remaining c)) [] (io_sock c) = (nread, data, e, eof, s)"
    by (metis prod_cases5)
  have s: "m_got_header c \<or> io_sock c' = s \<and> \<not> eof" and g: "m_got_header c \<Longrightarrow> c' = c"
    using assms r by (auto simp: header_phase_def Let_def rbind_eq_Inr_iff start_message_def split: if_splits)
  then show "sock_size (io_sock c') \<le> sock_size (io_sock c)" using et_read_size[OF r] by auto
  assume b: "at_boundary c"
  then have u: "unat (m_message_header_remaining c) \<noteq> 0" "\<not> m_got_header c" by (auto simp: at_boundary_def unat_eq_0)
  have "io_sock c \<noteq> []"
  proof
    assume "io_sock c = []"
    then have "nread = -1" "e = Some EAGAIN" using r u(1) by auto
    then show False using assms r u(2) by (auto simp: header_phase_def Let_def rbind_eq_Inr_iff split: if_splits)
  qed
  then show "sock_size (io_sock c') < sock_size (io_sock c)" using et_read_progress[OF r u(1)] s u(2) by auto
qed

lemma finish_message_boundary: "finish_message c = Inr c' \<Longrightarrow> at_boundary c' \<and> io_sock c' = io_sock c"
  by (auto simp: finish_message_def Let_def rbind_eq_Inr_iff reset_incoming_message_state_def at_boundary_def hb_header_length_def)

lemma body_phase_progress:
  assumes "body_phase err c = Inr (Continue err', c')"
  shows "sock_size (io_sock c') \<le> sock_size (io_sock c)"
    and "m_got_header c \<Longrightarrow> at_boundary c' \<or> sock_size (io_sock c') < sock_size (io_sock c)"
    and "\<not> m_got_header c \<Longrightarrow> c' = c"
proof -
  obtain nread data e eof s where r: "et_socket_read (unat (m_message_remaining c)) [] (io_sock c) = (nread, data, e, eof, s)"
    by (metis prod_cases5)
  show g: "\<not> m_got_header c \<Longrightarrow> c' = c" using assms by (simp add: body_phase_def)
  have s: "\<not> m_got_header c \<or> io_sock c' = s \<and> \<not> eof"
    using assms r finish_message_boundary by (fastforce simp: body_phase_def Let_def rbind_eq_Inr_iff split: if_splits)
  then show "sock_size (io_sock c') \<le> sock_size (io_sock c)" using et_read_size[OF r] g by auto
  assume h: "m_got_header c"
  show "at_boundary c' \<or> sock_size (io_sock c') < sock_size (io_sock c)"
  proof (cases "nread < m_message_remaining c")
    case True
    then have u: "unat (m_message_remaining c) \<noteq> 0" by (auto simp: unat_eq_0)
    have "io_sock c \<noteq> []"
    proof
      assume "io_sock c = []"
      then have "e = Some EAGAIN" using r u by auto
      then show False using assms r h True by (auto simp: body_phase_def Let_def rbind_eq_Inr_iff split: if_splits)
    qed
    then show ?thesis using et_read_progress[OF r u] s h by auto
  next
    case False
    then show ?thesis using assms r h finish_message_boundary
      by (fastforce simp: body_phase_def Let_def rbind_eq_Inr_iff split: if_splits)
  qed
qed

lemma header_phase_got:
  assumes "header_phase err c = Inr (Continue err', c')" "\<not> at_boundary c"
  shows "m_got_header c'"
proof (cases "m_got_header c")
  case False
  then have z: "m_message_header_remaining c = 0" using assms(2) by (simp add: at_boundary_def)
  have "et_socket_read 0 [] (io_sock c) = (0, [], None, False, io_sock c)" by (cases "io_sock c") auto
  then show ?thesis using assms(1) False z
    by (auto simp: header_phase_def Let_def rbind_eq_Inr_iff start_message_def store_at_def split: if_splits)
qed (use assms in \<open>simp add: header_phase_def\<close>)

function read_loop :: "errno option \<Rightarrow> io_conn \<Rightarrow> (phase \<times> io_conn) result" where
  "read_loop err c =
     (case header_phase err c of
        Inl x \<Rightarrow> Inl x
      | Inr (Break eof, c1) \<Rightarrow> Inr (Break eof, c1)
      | Inr (Close refused, c1) \<Rightarrow> Inr (Close refused, c1)
      | Inr (Continue err1, c1) \<Rightarrow>
        (case body_phase err1 c1 of
           Inl x \<Rightarrow> Inl x
         | Inr (Break eof, c2) \<Rightarrow> Inr (Break eof, c2)
         | Inr (Close refused, c2) \<Rightarrow> Inr (Close refused, c2)
         | Inr (Continue err2, c2) \<Rightarrow> read_loop err2 c2))"
  by pat_completeness auto

termination
proof (relation "measure (\<lambda>(err, c). 2 * sock_size (io_sock c) + (if at_boundary c then 0 else 1))", goal_cases)
  case (2 err c p1 ph c1 err1 p2 ph2 c2 err2)
  then have h: "header_phase err c = Inr (Continue err1, c1)" and b: "body_phase err1 c1 = Inr (Continue err2, c2)" by auto
  show ?case
  proof (cases "at_boundary c")
    case True
    then show ?thesis using header_phase_progress(2)[OF h] body_phase_progress(1)[OF b] by (auto simp: at_boundary_def)
  next
    case False
    then show ?thesis using header_phase_progress(1)[OF h] body_phase_progress(1)[OF b] body_phase_progress(2)[OF b header_phase_got[OF h False]] by auto
  qed
qed simp

declare read_loop.simps [simp del]

section \<open>Events of a connection\<close>

record epoll_event =
  ep_in :: bool
  ep_rdhup :: bool
  ep_err :: bool
  ep_hup :: bool

text \<open>Closing: the requests of the connection fail, and the application is told. \<open>self\<close> is the address of the handler.\<close>

definition disconnect :: "nat \<Rightarrow> error option \<Rightarrow> io_conn \<Rightarrow> (bool \<times> io_conn) result option" where
  "disconnect self err c =
     map_option (\<lambda>r. rbind r (\<lambda>(dhs, rc).
       Inr (True, c\<lparr>io_requests := rc, io_events := io_events c @ map Timeout_event dhs @ [Disconnect_event err]\<rparr>)))
       (rc_purge_requests self (io_requests c))"

text \<open>\<^verbatim>\<open>handle_event\<close> after the write half; \<open>et\<close> says whether the program is built for edge-triggered polling.\<close>

definition handle_event :: "bool \<Rightarrow> epoll_event \<Rightarrow> nat \<Rightarrow> io_conn \<Rightarrow> (bool \<times> io_conn) result option" where
  "handle_event et ev self c =
     (case if ep_in ev then read_loop None c else Inr (Break False, c) of
        Inl x \<Rightarrow> Some (Inl x)
      | Inr (Close refused, c) \<Rightarrow> disconnect self (if refused then Some COMM_CONNECT_ERROR else None) c
      | Inr (Break eof, c) \<Rightarrow>
          if (if et then ep_rdhup ev else eof) \<or> ep_err ev \<or> ep_hup ev then disconnect self None c else Some (Inr (False, c))
      | Inr (Continue _, c) \<Rightarrow> Some (Inr (False, c)))"

definition io_conn_new :: "request_cache \<Rightarrow> io_conn" where
  "io_conn_new rc = \<lparr>m_message_header = replicate 16 0, m_message_header_remaining = 16, m_got_header = False, m_message = [],
     m_message_ptr = 0, m_message_remaining = 0, io_sock = [], io_requests = rc, io_events = []\<rparr>"

text \<open>Data becomes readable and the connection handles the event; this happens again and again.\<close>

fun receive :: "bool \<Rightarrow> nat \<Rightarrow> sock_in list list \<Rightarrow> io_conn \<Rightarrow> (bool \<times> io_conn) result option" where
  "receive et self [] c = Some (Inr (False, c))"
| "receive et self (b # bs) c =
     (case handle_event et \<lparr>ep_in = True, ep_rdhup = False, ep_err = False, ep_hup = False\<rparr> self (c\<lparr>io_sock := io_sock c @ b\<rparr>) of
        Some (Inr (False, c)) \<Rightarrow> receive et self bs c
      | r \<Rightarrow> r)"

section \<open>Framing\<close>

text \<open>A socket that only gives data, in pieces and with interruptions, and the data it gives.\<close>

definition flowing :: "sock_in list \<Rightarrow> bool" where
  "flowing s \<longleftrightarrow> (\<forall>i \<in> set s. i = Failed EINTR \<or> (\<exists>bs. i = Arrived bs \<and> bs \<noteq> []))"

fun data_of :: "sock_in list \<Rightarrow> bytes" where
  "data_of [] = []"
| "data_of (Arrived bs # s) = bs @ data_of s"
| "data_of (i # s) = data_of s"

lemma flowing_simps [simp]: "flowing []" "flowing (Arrived bs # s) \<longleftrightarrow> bs \<noteq> [] \<and> flowing s" "flowing (Failed e # s) \<longleftrightarrow> e = EINTR \<and> flowing s"
  "\<not> flowing (End_of_stream # s)" "flowing (s @ s') \<longleftrightarrow> flowing s \<and> flowing s'"
  by (auto simp: flowing_def)

lemma data_of_append [simp]: "data_of (s @ s') = data_of s @ data_of s'"
  by (induction s rule: data_of.induct) auto

lemma et_read_enough:
  "flowing s \<Longrightarrow> k \<le> length (data_of s) \<Longrightarrow>
    \<exists>s'. et_socket_read k got s = (of_nat (length got + k), got @ take k (data_of s), None, False, s') \<and> flowing s' \<and> data_of s' = drop k (data_of s)"
proof (induction s arbitrary: k got rule: data_of.induct)
  case (2 bs s)
  show ?case
  proof (cases "k = 0 \<or> k < length bs")
    case False
    then have "length bs \<le> k" "k - length bs \<le> length (data_of s)" using 2 by auto
    from 2(1)[OF _ this(2), of "got @ bs"] False 2(2) this(1) show ?thesis by auto
  qed (use 2 in auto)
qed auto

lemma et_read_short:
  "flowing s \<Longrightarrow> length (data_of s) < k \<Longrightarrow>
    et_socket_read k got s = (if got @ data_of s \<noteq> [] then of_nat (length (got @ data_of s)) else -1, got @ data_of s, Some EAGAIN, False, [])"
  by (induction s arbitrary: k got rule: data_of.induct) auto

text \<open>A complete request message: its header carries its length and the request flag.\<close>

definition request_message :: "bytes \<Rightarrow> bool" where
  "request_message m \<longleftrightarrow> 16 \<le> length m \<and> length m < 2 ^ 32 \<and> h_total_len (header_of m) = of_nat (length m)
     \<and> h_flags (header_of m) AND FLAGS_BIT_REQUEST \<noteq> 0"

text \<open>The connection has received the bytes \<open>left\<close> of a message.\<close>

definition receiving :: "io_conn \<Rightarrow> bytes \<Rightarrow> bool" where
  "receiving c left \<longleftrightarrow> length (m_message_header c) = 16 \<and>
     (if length left < 16
      then \<not> m_got_header c \<and> m_message_header_remaining c = of_nat (16 - length left) \<and> take (length left) (m_message_header c) = left
      else m_got_header c \<and> (let n = unat (h_total_len (header_of left)) in length left \<le> n
        \<and> m_message c = map Some left @ replicate (n - length left) None \<and> m_message_ptr c = length left
        \<and> m_message_remaining c = of_nat (n - length left)))"

lemma header_of_append: "16 \<le> length b \<Longrightarrow> header_of (b @ r) = header_of b"
  by (auto simp: header_of_def nth_append)

lemma unat_of_nat_u64: "n < 2 ^ 32 \<Longrightarrow> unat (of_nat n :: u64) = n"
  by (rule unat_of_nat_small) simp

lemma small_not_minus_one: "n < 2 ^ 32 \<Longrightarrow> (of_nat n :: u64) \<noteq> -1"
proof
  assume a: "n < 2 ^ 32" "(of_nat n :: u64) = -1"
  have "unat (of_nat (Suc n) :: u64) = Suc n" by (rule unat_of_nat_small) (use a(1) in simp)
  moreover have "(of_nat (Suc n) :: u64) = 0" using a(2) by simp
  ultimately show False by simp
qed

lemma request_message_len:
  assumes "request_message m"
  shows "unat (h_total_len (header_of m)) = length m" "(ucast (h_total_len (header_of m)) :: u64) = of_nat (length m)"
proof -
  show u: "unat (h_total_len (header_of m)) = length m" using assms by (simp add: request_message_def unat_of_nat_small)
  show "(ucast (h_total_len (header_of m)) :: u64) = of_nat (length m)"
    using of_nat_unat[of "h_total_len (header_of m)", where 'a = "64 word"] u by simp
qed

lemma header_of_prefix:
  assumes "left @ d = m @ rest" "16 \<le> length left" "16 \<le> length m"
  shows "header_of left = header_of m"
proof -
  have t: "take 16 left = take 16 m" using arg_cong[OF assms(1), of "take 16"] assms(2,3) by simp
  have "header_of left = header_of (take 16 left)" "header_of m = header_of (take 16 m)"
    using header_of_append[of "take 16 left" "drop 16 left"] header_of_append[of "take 16 m" "drop 16 m"] assms(2,3) by simp_all
  then show ?thesis using t by simp
qed

lemma start_message_ok:
  assumes "length (m_message_header c) = 16" "header_of (m_message_header c) = header_of m" "request_message m"
  shows "\<exists>c'. start_message c = Inr c' \<and> receiving c' (m_message_header c) \<and> io_sock c' = io_sock c \<and> io_events c' = io_events c
    \<and> io_requests c' = io_requests c"
proof -
  have l: "16 \<le> length m" using assms(3) by (simp add: request_message_def)
  then have "store_at 0 (map Some (m_message_header c)) (replicate (length m) None)
      = Inr (map Some (m_message_header c) @ replicate (length m - 16) None)"
    using assms(1) by (simp add: store_at_def)
  moreover have "(of_nat (length m) - of_nat hb_header_length :: u64) = of_nat (length m - 16)"
    using l by (simp add: hb_header_length_def of_nat_diff)
  ultimately show ?thesis using assms request_message_len[OF assms(3)] l
    by (simp add: start_message_def Let_def receiving_def hb_header_length_def)
qed

lemma header_phase_full:
  assumes "\<not> m_got_header c" "et_socket_read (unat (m_message_header_remaining c)) [] (io_sock c) = (m_message_header_remaining c, data, None, False, s')"
    and "m_message_header_remaining c \<noteq> -1" "store_at (16 - unat (m_message_header_remaining c)) data (m_message_header c) = Inr hdr"
    and "start_message (c\<lparr>io_sock := s', m_message_header := hdr\<rparr>) = Inr c'"
  shows "header_phase err c = Inr (Continue err, c')"
  using assms by (simp add: header_phase_def hb_header_length_def)

lemma body_phase_full:
  assumes "m_got_header c" "et_socket_read (unat (m_message_remaining c)) [] (io_sock c) = (m_message_remaining c, data, None, False, s')"
    and "store_at (m_message_ptr c) (map Some data) (m_message c) = Inr m" "finish_message (c\<lparr>io_sock := s', m_message := m\<rparr>) = Inr c'"
  shows "body_phase err c = Inr (Continue err, c')"
  using assms by (simp add: body_phase_def)

text \<open>A header read to its end.\<close>

lemma header_phase_enough:
  assumes r: "receiving c left" and s: "flowing (io_sock c)" "left @ data_of (io_sock c) = m' @ rest" and m: "request_message m"
    and m': "m = m' @ x" "16 \<le> length m'"
  shows "\<exists>c' left'. header_phase err c = Inr (Continue err, c') \<and> receiving c' left' \<and> flowing (io_sock c') \<and> 16 \<le> length left'
    \<and> (if length left < 16 then length left' = 16 else left' = left)
    \<and> left' @ data_of (io_sock c') = m' @ rest \<and> io_events c' = io_events c \<and> io_requests c' = io_requests c"
proof (cases "length left < 16")
  case False
  then show ?thesis using r s by (intro exI[of _ c] exI[of _ left]) (simp add: header_phase_def receiving_def)
next
  case True
  let ?k = "16 - length left" and ?d = "data_of (io_sock c)"
  have "16 \<le> length (left @ ?d)" using s(2) m'(2) by simp
  then have k: "?k \<le> length ?d" by simp
  from et_read_enough[OF s(1) k, of "[]"] obtain s' where e: "et_socket_read ?k [] (io_sock c) = (of_nat ?k, take ?k ?d, None, False, s')"
    "flowing s'" "data_of s' = drop ?k ?d" by auto
  have u: "unat (m_message_header_remaining c) = ?k" "m_message_header_remaining c = of_nat ?k"
    using r True unat_of_nat_u64[of ?k] by (auto simp: receiving_def)
  have n1: "(of_nat ?k :: u64) \<noteq> -1" by (rule small_not_minus_one) simp
  let ?h = "left @ take ?k ?d"
  have h: "store_at (16 - ?k) (take ?k ?d) (m_message_header c) = Inr ?h"
    using r True k by (auto simp: store_at_def receiving_def)
  have l: "length ?h = 16" using True k by simp
  have p: "?h @ drop ?k ?d = m' @ rest" using s(2) by simp
  have "header_of ?h = header_of m" using header_of_prefix[OF p] l m' header_of_append[of m' x] by simp
  with start_message_ok[of "c\<lparr>io_sock := s', m_message_header := ?h\<rparr>" m] l m obtain c' where
    c': "start_message (c\<lparr>io_sock := s', m_message_header := ?h\<rparr>) = Inr c'" "receiving c' ?h" "io_sock c' = s'"
      "io_events c' = io_events c" "io_requests c' = io_requests c" by auto
  have "header_phase err c = Inr (Continue err, c')"
    by (rule header_phase_full[where s' = s' and hdr = ?h and data = "take ?k ?d"])
      (use r True e(1) h n1 c'(1) u in \<open>simp_all add: receiving_def\<close>)
  then show ?thesis using c' e(2,3) l p True by (intro exI[of _ c'] exI[of _ ?h]) simp
qed

text \<open>A body read to its end.\<close>

lemma body_phase_enough:
  assumes r: "receiving c left" and s: "flowing (io_sock c)" "left @ data_of (io_sock c) = m @ rest" and m: "request_message m"
    and l: "16 \<le> length left"
  shows "\<exists>c'. body_phase err c = Inr (Continue err, c') \<and> receiving c' [] \<and> flowing (io_sock c') \<and> data_of (io_sock c') = rest
    \<and> io_events c' = io_events c @ [Message_event (map Some m) None] \<and> io_requests c' = io_requests c"
proof -
  have lm: "16 \<le> length m" "length m < 2 ^ 32" using m by (auto simp: request_message_def)
  have n: "unat (h_total_len (header_of left)) = length m" using header_of_prefix[OF s(2) l lm(1)] request_message_len[OF m] by simp
  let ?k = "length m - length left" and ?d = "data_of (io_sock c)"
  have c: "m_got_header c" "length left \<le> length m" "m_message c = map Some left @ replicate ?k None" "m_message_ptr c = length left"
    "m_message_remaining c = of_nat ?k" "length (m_message_header c) = 16"
    using r l n by (auto simp: receiving_def Let_def)
  have "length (left @ ?d) = length (m @ rest)" using s(2) by simp
  then have k: "?k \<le> length ?d" using c(2) by simp
  from et_read_enough[OF s(1) k, of "[]"] obtain s' where e: "et_socket_read ?k [] (io_sock c) = (of_nat ?k, take ?k ?d, None, False, s')"
    "flowing s'" "data_of s' = drop ?k ?d" by auto
  have u: "unat (m_message_remaining c) = ?k" using c(5) unat_of_nat_u64[of ?k] lm by simp
  have "take (length m) (left @ ?d) = take (length m) (m @ rest)" "drop (length m) (left @ ?d) = drop (length m) (m @ rest)"
    by (simp_all only: s(2))
  then have mm: "left @ take ?k ?d = m" "drop ?k ?d = rest" using c(2) by simp_all
  have st: "store_at (m_message_ptr c) (map Some (take ?k ?d)) (m_message c) = Inr (map Some m)"
  proof -
    have "map Some m = map Some left @ map Some (take ?k ?d)" using mm(1) map_append by metis
    then show ?thesis using c(2,3,4) k by (simp add: store_at_def)
  qed
  have "map the (take hb_header_length (map Some m)) = take 16 m" by (simp add: take_map comp_def hb_header_length_def)
  moreover have "header_of (take 16 m) = header_of m" using header_of_append[of "take 16 m" "drop 16 m"] lm by simp
  ultimately have f: "h_flags (header_of (map the (take hb_header_length (map Some m)))) AND FLAGS_BIT_REQUEST \<noteq> 0"
    using m by (simp add: request_message_def)
  let ?c = "reset_incoming_message_state (c\<lparr>io_sock := s', m_message := map Some m, io_events := io_events c @ [Message_event (map Some m) None]\<rparr>)"
  have "body_phase err c = Inr (Continue err, ?c)"
    by (rule body_phase_full[where s' = s' and m = "map Some m" and data = "take ?k ?d"])
      (use c(1) e(1) st f u c(5) in \<open>simp_all add: finish_message_def Let_def reset_incoming_message_state_def\<close>)
  moreover have "receiving ?c []" using c(6) by (simp add: receiving_def reset_incoming_message_state_def hb_header_length_def)
  ultimately show ?thesis using e(2,3) mm(2) by (simp add: reset_incoming_message_state_def)
qed

text \<open>Reads that do not complete a message.\<close>

lemma header_phase_short:
  assumes r: "receiving c left" and s: "flowing (io_sock c)" "length (left @ data_of (io_sock c)) < 16"
  shows "\<exists>c'. header_phase err c = Inr (Break False, c') \<and> receiving c' (left @ data_of (io_sock c)) \<and> io_sock c' = []
    \<and> io_events c' = io_events c \<and> io_requests c' = io_requests c"
proof -
  let ?k = "16 - length left" and ?d = "data_of (io_sock c)"
  have c: "\<not> m_got_header c" "m_message_header_remaining c = of_nat ?k" "length (m_message_header c) = 16" "take (length left) (m_message_header c) = left"
    using r s(2) by (auto simp: receiving_def)
  have u: "unat (m_message_header_remaining c) = ?k" unfolding c(2) by (rule unat_of_nat_u64) simp
  have e: "et_socket_read (unat (m_message_header_remaining c)) [] (io_sock c) = (if ?d \<noteq> [] then of_nat (length ?d) else -1, ?d, Some EAGAIN, False, [])"
    using et_read_short[OF s(1), of ?k "[]"] s(2) u by simp
  let ?h = "left @ ?d @ drop (length left + length ?d) (m_message_header c)"
  have h: "store_at (hb_header_length - unat (m_message_header_remaining c)) ?d (m_message_header c) = Inr ?h"
    using c(3,4) s(2) u by (simp add: store_at_def hb_header_length_def)
  show ?thesis
  proof (cases "?d = []")
    case True
    then have "header_phase err c = Inr (Break False, c\<lparr>io_sock := [], m_message_header := ?h\<rparr>)"
      using c(1) e h by (simp add: header_phase_def)
    then show ?thesis using True c s(2) by (simp add: receiving_def)
  next
    case False
    have n: "(of_nat (length ?d) :: u64) \<noteq> -1" by (rule small_not_minus_one) (use s(2) in simp)
    have lt: "(of_nat (length ?d) :: u64) < m_message_header_remaining c"
      unfolding word_less_nat_alt u using unat_of_nat_u64[of "length ?d"] s(2) by simp
    have "m_message_header_remaining c - of_nat (length ?d) = of_nat (16 - length (left @ ?d))"
      unfolding c(2) using s(2) by (simp add: of_nat_diff)
    then have "header_phase err c = Inr (Break False, c\<lparr>io_sock := [], m_message_header := ?h, m_message_header_remaining := of_nat (16 - length (left @ ?d))\<rparr>)"
      using c(1) e h n lt False by (simp add: header_phase_def Let_def)
    then show ?thesis using c s(2) by (simp add: receiving_def)
  qed
qed

lemma body_phase_short:
  assumes r: "receiving c left" and s: "flowing (io_sock c)" "data_of (io_sock c) \<noteq> []"
    and m: "request_message m" "m = left @ data_of (io_sock c) @ x" "x \<noteq> []" and l: "16 \<le> length left"
  shows "\<exists>c'. body_phase err c = Inr (Break False, c') \<and> receiving c' (left @ data_of (io_sock c)) \<and> io_sock c' = []
    \<and> io_events c' = io_events c \<and> io_requests c' = io_requests c"
proof -
  let ?d = "data_of (io_sock c)" and ?k = "length m - length left"
  have lm: "length m < 2 ^ 32" using m(1) by (simp add: request_message_def)
  have n: "unat (h_total_len (header_of left)) = length m"
    using header_of_append[OF l, of "?d @ x"] m(2) request_message_len[OF m(1)] by simp
  have c: "m_got_header c" "m_message c = map Some left @ replicate ?k None" "m_message_ptr c = length left"
    "m_message_remaining c = of_nat ?k" "length (m_message_header c) = 16"
    using r l n by (auto simp: receiving_def Let_def)
  have u: "unat (m_message_remaining c) = ?k" unfolding c(4) by (rule unat_of_nat_u64) (use lm in simp)
  have lk: "length ?d < ?k" using m(2,3) by simp
  have e: "et_socket_read (unat (m_message_remaining c)) [] (io_sock c) = (of_nat (length ?d), ?d, Some EAGAIN, False, [])"
    using et_read_short[OF s(1), of ?k "[]"] s(2) u lk by simp
  let ?m = "map Some (left @ ?d) @ replicate (length m - length (left @ ?d)) None"
  have st: "store_at (m_message_ptr c) (map Some ?d) (m_message c) = Inr ?m" unfolding c(2,3) using lk by (simp add: store_at_def)
  have ud: "unat (of_nat (length ?d) :: u64) = length ?d" by (rule unat_of_nat_u64) (use lm lk in simp)
  have lt: "(of_nat (length ?d) :: u64) < m_message_remaining c" unfolding word_less_nat_alt u ud by (rule lk)
  have "m_message_remaining c - of_nat (length ?d) = of_nat (length m - length (left @ ?d))"
    unfolding c(4) using lk by (simp add: of_nat_diff)
  then have "body_phase err c = Inr (Break False, c\<lparr>io_sock := [], m_message := ?m, m_message_ptr := length (left @ ?d),
      m_message_remaining := of_nat (length m - length (left @ ?d))\<rparr>)"
    using c(1,3) e st lt ud by (simp add: body_phase_def Let_def)
  moreover have "unat (h_total_len (header_of (left @ ?d))) = length m" using header_of_append[OF l, of ?d] n by simp
  ultimately show ?thesis using c(1,5) l lk by (simp add: receiving_def Let_def)
qed

text \<open>The loop delivers the messages that are complete and keeps the rest.\<close>

lemma read_loop_frames:
  assumes "receiving c left" "flowing (io_sock c)" "left @ data_of (io_sock c) = concat ms @ rest" "\<forall>m \<in> set ms. request_message m"
    and "length rest < 16 \<or> 16 < length rest \<and> request_message (rest @ x) \<and> x \<noteq> []"
    and "ms = [] \<Longrightarrow> 16 \<le> length left \<Longrightarrow> data_of (io_sock c) \<noteq> []"
  shows "\<exists>c'. read_loop err c = Inr (Break False, c') \<and> receiving c' rest \<and> io_sock c' = []
    \<and> io_events c' = io_events c @ map (\<lambda>m. Message_event (map Some m) None) ms \<and> io_requests c' = io_requests c"
  using assms
proof (induction ms arbitrary: c left err)
  case Nil
  show ?case
  proof (cases "length rest < 16")
    case True
    then show ?thesis using header_phase_short[OF Nil(1,2), of err] Nil(3) by (subst read_loop.simps) auto
  next
    case False
    then have m: "request_message (rest @ x)" "x \<noteq> []" "16 < length rest" using Nil(5) by auto
    from header_phase_enough[OF Nil(1,2), of rest "[]" "rest @ x" x err] Nil(3) m obtain c1 left1 where
      1: "header_phase err c = Inr (Continue err, c1)" "receiving c1 left1" "flowing (io_sock c1)" "16 \<le> length left1"
        "if length left < 16 then length left1 = 16 else left1 = left" "left1 @ data_of (io_sock c1) = rest"
        "io_events c1 = io_events c" "io_requests c1 = io_requests c" by auto
    have "data_of (io_sock c1) \<noteq> []"
    proof (cases "length left < 16")
      case True
      then show ?thesis using 1(5,6) m(3) by auto
    next
      case F: False
      then have "left @ data_of (io_sock c1) = left @ data_of (io_sock c)" using 1(5,6) Nil(3) by simp
      then show ?thesis using Nil(6) F by simp
    qed
    from body_phase_short[OF 1(2,3) this m(1) _ m(2) 1(4), of err] 1(6) obtain c2 where
      "body_phase err c1 = Inr (Break False, c2)" "receiving c2 rest" "io_sock c2 = []" "io_events c2 = io_events c1" "io_requests c2 = io_requests c1"
      by auto
    then show ?thesis using 1 by (subst read_loop.simps) simp
  qed
next
  case (Cons m ms)
  then have m: "request_message m" "16 \<le> length m" by (auto simp: request_message_def)
  from header_phase_enough[OF Cons.prems(1,2), of m "concat ms @ rest" m "[]" err] Cons.prems(3) m obtain c1 left1 where
    1: "header_phase err c = Inr (Continue err, c1)" "receiving c1 left1" "flowing (io_sock c1)" "16 \<le> length left1"
      "left1 @ data_of (io_sock c1) = m @ concat ms @ rest" "io_events c1 = io_events c" "io_requests c1 = io_requests c" by auto
  from body_phase_enough[OF 1(2,3,5) m(1) 1(4), of err] obtain c2 where
    2: "body_phase err c1 = Inr (Continue err, c2)" "receiving c2 []" "flowing (io_sock c2)" "data_of (io_sock c2) = concat ms @ rest"
      "io_events c2 = io_events c1 @ [Message_event (map Some m) None]" "io_requests c2 = io_requests c1" by auto
  from Cons.IH[OF 2(2,3), of err] 2(4) Cons.prems(4,5) show ?case using 1 2 by (subst read_loop.simps) auto
qed

text \<open>A stream cut right behind the header of a message that has a body.\<close>

definition cut_behind_header :: "bytes list \<Rightarrow> nat \<Rightarrow> bool" where
  "cut_behind_header ms n \<longleftrightarrow> (\<exists>ms1 m ms2. ms = ms1 @ m # ms2 \<and> 16 < length m \<and> n = length (concat ms1) + 16)"

lemma split_stream:
  "p @ y = concat ms \<Longrightarrow> \<forall>m \<in> set ms. m \<noteq> [] \<Longrightarrow>
    \<exists>ms1 ms2 rest. ms = ms1 @ ms2 \<and> p = concat ms1 @ rest \<and> (if ms2 = [] then rest = [] else \<exists>x. x \<noteq> [] \<and> rest @ x = hd ms2)"
proof (induction ms arbitrary: p)
  case Nil
  then show ?case by (intro exI[of _ "[]"]) simp
next
  case (Cons m ms)
  show ?case
  proof (cases "length p < length m")
    case True
    then have "take (length m) (p @ y) = m" using Cons.prems(1) by simp
    then have "p @ take (length m - length p) y = m" using True by simp
    moreover from this have "take (length m - length p) y \<noteq> []" using True by auto
    ultimately show ?thesis using True
      by (intro exI[of _ "[]"] exI[of _ "m # ms"] exI[of _ p]) (auto intro!: exI[of _ "take (length m - length p) y"])
  next
    case False
    then obtain p' where p: "p = m @ p'" using Cons.prems(1) by (metis append_eq_append_conv_if concat.simps(2) append_take_drop_id not_less)
    then have "p' @ y = concat ms" using Cons.prems(1) by simp
    from Cons.IH[OF this] Cons.prems(2) obtain ms1 ms2 rest where
      "ms = ms1 @ ms2" "p' = concat ms1 @ rest" "if ms2 = [] then rest = [] else \<exists>x. x \<noteq> [] \<and> rest @ x = hd ms2" by auto
    then show ?thesis using p by (intro exI[of _ "m # ms1"] exI[of _ ms2] exI[of _ rest]) simp
  qed
qed

lemma receive_frames:
  assumes "receiving c left" "io_sock c = []" "left @ concat (map data_of bs) = concat ms" "\<forall>m \<in> set ms. request_message m"
    and "\<forall>b \<in> set bs. flowing b \<and> data_of b \<noteq> []"
    and "\<forall>i. \<not> cut_behind_header ms (length left + length (concat (map data_of (take i bs))))"
    and "if ms = [] then left = [] else \<exists>x. x \<noteq> [] \<and> left @ x = hd ms"
  shows "\<exists>c'. receive et self bs c = Some (Inr (False, c')) \<and> receiving c' [] \<and> io_requests c' = io_requests c
    \<and> io_events c' = io_events c @ map (\<lambda>m. Message_event (map Some m) None) ms"
  using assms
proof (induction bs arbitrary: c left ms)
  case Nil
  have "ms = []"
  proof (rule ccontr)
    assume "ms \<noteq> []"
    then obtain x where "x \<noteq> []" "left @ x = hd ms" using Nil(7) by auto
    then show False using Nil(3) \<open>ms \<noteq> []\<close> by (cases ms) auto
  qed
  then show ?case using Nil by simp
next
  case (Cons b bs)
  have ne: "\<forall>m \<in> set ms. m \<noteq> []" using Cons.prems(4) by (auto simp: request_message_def)
  have st: "(left @ data_of b) @ concat (map data_of bs) = concat ms" using Cons.prems(3) by simp
  from split_stream[OF this ne] obtain ms1 ms2 rest where sp: "ms = ms1 @ ms2" "left @ data_of b = concat ms1 @ rest"
    "if ms2 = [] then rest = [] else \<exists>x. x \<noteq> [] \<and> rest @ x = hd ms2" by blast
  obtain x where x: "length rest < 16 \<or> 16 < length rest \<and> request_message (rest @ x) \<and> x \<noteq> []"
  proof (cases "ms2 = []")
    case False
    with sp(3) obtain y where y: "y \<noteq> []" "rest @ y = hd ms2" by auto
    obtain ms3 where ms2: "ms2 = (rest @ y) # ms3" using False y(2) by (cases ms2) auto
    have "length rest \<noteq> 16"
    proof
      assume l: "length rest = 16"
      have "length left + length (concat (map data_of (take 1 (b # bs)))) = length (concat ms1) + 16"
        using arg_cong[OF sp(2), of length] l by simp
      moreover have "cut_behind_header ms (length (concat ms1) + 16)"
        unfolding cut_behind_header_def using sp(1) ms2 y(1) l by (intro exI[of _ ms1] exI[of _ "rest @ y"] exI[of _ ms3]) simp
      ultimately show False using Cons.prems(6) by metis
    qed
    moreover have "request_message (rest @ y)" using Cons.prems(4) sp(1) ms2 by simp
    ultimately show ?thesis using that[of y] y(1) by linarith
  qed (use sp(3) that[of "[]"] in simp)
  let ?c = "c\<lparr>io_sock := io_sock c @ b\<rparr>"
  have "receiving ?c left" using Cons.prems(1) by (simp add: receiving_def)
  from read_loop_frames[OF this, of ms1 rest x None] sp(1,2) x Cons.prems(2,4,5) obtain c1 where
    1: "read_loop None ?c = Inr (Break False, c1)" "receiving c1 rest" "io_sock c1 = []" "io_requests c1 = io_requests c"
      "io_events c1 = io_events c @ map (\<lambda>m. Message_event (map Some m) None) ms1" by auto
  have cut: "\<forall>i. \<not> cut_behind_header ms2 (length rest + length (concat (map data_of (take i bs))))"
  proof (intro allI notI)
    fix i assume "cut_behind_header ms2 (length rest + length (concat (map data_of (take i bs))))"
    then have "cut_behind_header ms (length (concat ms1) + (length rest + length (concat (map data_of (take i bs)))))"
      using sp(1) unfolding cut_behind_header_def by (metis append.assoc concat_append length_append group_cancel.add1)
    moreover have "length (concat ms1) + (length rest + length (concat (map data_of (take i bs))))
        = length left + length (concat (map data_of (take (Suc i) (b # bs))))"
      using arg_cong[OF sp(2), of length] by simp
    ultimately show False using Cons.prems(6) by metis
  qed
  have "rest @ concat (map data_of bs) = concat ms2" using st sp(1,2) by simp
  from Cons.IH[OF 1(2,3) this _ _ cut sp(3)] sp(1) Cons.prems(4,5) obtain c' where
    "receive et self bs c1 = Some (Inr (False, c'))" "receiving c' []" "io_requests c' = io_requests c1"
    "io_events c' = io_events c1 @ map (\<lambda>m. Message_event (map Some m) None) ms2" by auto
  then show ?case using 1 sp(1) by (simp add: handle_event_def)
qed

lemma receiving_new: "receiving (io_conn_new rc) []"
  by (simp add: receiving_def io_conn_new_def)

text \<open>A request of two bytes, and the ways it may arrive.\<close>

definition request_w :: bytes where
  "request_w = header_bytes \<lparr>h_version = 1, h_protocol = 1, h_flags = 1, h_header_len = 16, h_id = 7, h_gid = 0, h_total_len = 18\<rparr> @ [1, 2]"

lemma request_w: "request_message request_w" "length request_w = 18"
  by (simp_all add: request_message_def request_w_def header_of_bytes FLAGS_BIT_REQUEST_def)

lemma cut_single: "cut_behind_header [m] n \<longleftrightarrow> 16 < length m \<and> n = 16"
  by (auto simp: cut_behind_header_def Cons_eq_append_conv)

text \<open>C12. Messages are delivered whole and in order however the stream is cut. A new connection receives any sequence of well-formed
  request messages, arriving in any number of readable events, each with at least one byte, in arbitrary pieces and with
  interrupted calls in between. Unless some event ends right behind the header of a message that has a body, every event is handled
  without error, the application gets exactly the messages, every byte of them read from the socket, and no byte is left.\<close>

theorem messages_delivered:
  assumes "\<forall>m \<in> set ms. request_message m" "\<forall>b \<in> set bs. flowing b \<and> data_of b \<noteq> []" "concat (map data_of bs) = concat ms"
    and "\<forall>i. \<not> cut_behind_header ms (length (concat (map data_of (take i bs))))"
  shows "\<exists>c. receive et self bs (io_conn_new rc) = Some (Inr (False, c)) \<and> io_events c = map (\<lambda>m. Message_event (map Some m) None) ms
    \<and> receiving c [] \<and> io_requests c = rc"
proof -
  have "if ms = [] then [] = [] else \<exists>x. x \<noteq> [] \<and> [] @ x = hd ms"
    using assms(1) by (cases ms) (auto simp: request_message_def)
  from receive_frames[OF receiving_new _ _ assms(1,2) _ this, of rc et self] assms(3,4) show ?thesis
    by (auto simp: io_conn_new_def)
qed

theorem messages_delivered_witness:
  "\<exists>c. receive False 0 [[Arrived (take 3 request_w), Failed EINTR, Arrived (take 7 (drop 3 request_w))], [Arrived (drop 10 request_w)]] (io_conn_new rc_new)
    = Some (Inr (False, c)) \<and> io_events c = [Message_event (map Some request_w) None]"
proof -
  let ?bs = "[[Arrived (take 3 request_w), Failed EINTR, Arrived (take 7 (drop 3 request_w))], [Arrived (drop 10 request_w)]]"
  have "\<not> cut_behind_header [request_w] (length (concat (map data_of (take i ?bs))))" for i
  proof -
    consider "i = 0" | "i = 1" | "2 \<le> i" by linarith
    then show ?thesis by cases (simp_all add: cut_single request_w(2))
  qed
  moreover have "take 3 request_w @ take 7 (drop 3 request_w) @ drop 10 request_w = request_w"
    using append_take_drop_id[of 7 "drop 3 request_w"] append_take_drop_id[of 3 request_w] by simp
  moreover have "request_w \<noteq> []" using request_w(2) by auto
  ultimately show ?thesis
    using messages_delivered[of "[request_w]" ?bs False 0 rc_new] request_w
    by (auto simp del: receive.simps)
qed

text \<open>C14. A read that ends right behind a header loses the message. When the first readable event of a connection brings exactly the
  header of a request that has a body, the application is given the message at once, with the header and an uninitialised body, and the
  connection then takes the body for the header of the next message.\<close>

theorem unread_body_delivered:
  assumes "request_message m" "16 < length m"
  shows "\<exists>c. receive et self [[Arrived (take 16 m)]] (io_conn_new rc) = Some (Inr (False, c))
    \<and> io_events c = [Message_event (map Some (take 16 m) @ replicate (length m - 16) None) None] \<and> receiving c []"
proof -
  let ?c = "io_conn_new rc\<lparr>io_sock := [Arrived (take 16 m)]\<rparr>"
  have "receiving ?c []" using receiving_new[of rc] by (simp add: receiving_def)
  moreover have "flowing (io_sock ?c)" "[] @ data_of (io_sock ?c) = take 16 m @ []" "io_events ?c = []" "m = take 16 m @ drop 16 m"
    using assms(2) by (auto simp: io_conn_new_def)
  ultimately have "\<exists>c1 left. header_phase None ?c = Inr (Continue None, c1) \<and> receiving c1 left \<and> flowing (io_sock c1) \<and> length left = 16
    \<and> left @ data_of (io_sock c1) = take 16 m \<and> io_events c1 = []"
    using header_phase_enough[of ?c "[]" "take 16 m" "[]" m "drop 16 m" None] assms by auto
  then obtain c1 left where
    1: "header_phase None ?c = Inr (Continue None, c1)" "receiving c1 left" "flowing (io_sock c1)" "length left = 16"
      "left @ data_of (io_sock c1) = take 16 m" "io_events c1 = []" by blast
  have "length (left @ data_of (io_sock c1)) = length (take 16 m)" by (simp only: 1(5))
  then have "data_of (io_sock c1) = []" using 1(4) assms(2) by simp
  then have left: "left = take 16 m" "data_of (io_sock c1) = []" using 1(5) by simp_all
  have n: "unat (h_total_len (header_of left)) = length m"
    using header_of_append[of "take 16 m" "drop 16 m"] request_message_len(1)[OF assms(1)] assms(2) left(1) by simp
  have c1: "m_got_header c1" "m_message c1 = map Some (take 16 m) @ replicate (length m - 16) None" "m_message_ptr c1 = 16"
    "m_message_remaining c1 = of_nat (length m - 16)" "length (m_message_header c1) = 16"
    using 1(2,4) n left(1) assms(2) by (simp_all add: receiving_def Let_def)
  have u: "unat (m_message_remaining c1) = length m - 16" unfolding c1(4) by (rule unat_of_nat_u64) (use assms in \<open>auto simp: request_message_def\<close>)
  have e: "et_socket_read (unat (m_message_remaining c1)) [] (io_sock c1) = (-1, [], Some EAGAIN, False, [])"
    using et_read_short[OF 1(3), of "length m - 16" "[]"] left(2) u assms(2) by simp
  let ?m = "map Some (take 16 m) @ replicate (length m - 16) None"
  have "header_of (map the (take hb_header_length ?m)) = header_of m"
    using header_of_append[of "take 16 m" "drop 16 m"] assms(2) by (simp add: hb_header_length_def take_map comp_def)
  then have f: "h_flags (header_of (map the (take hb_header_length ?m))) AND FLAGS_BIT_REQUEST \<noteq> 0"
    using assms(1) by (simp add: request_message_def)
  let ?c2 = "reset_incoming_message_state (c1\<lparr>io_sock := [], m_message := ?m, io_events := [Message_event ?m None]\<rparr>)"
  have "store_at (m_message_ptr c1) (map Some []) (m_message c1) = Inr ?m" using c1(2,3) assms(2) by (simp add: store_at_def)
  moreover have "\<not> (-1 :: u64) < m_message_remaining c1" by simp
  ultimately have b: "body_phase None c1 = Inr (Continue (Some EAGAIN), ?c2)"
    using c1(1) e f 1(6) by (simp add: body_phase_def finish_message_def Let_def reset_incoming_message_state_def)
  have r2: "receiving ?c2 []" using c1(5) by (simp add: receiving_def reset_incoming_message_state_def hb_header_length_def)
  from header_phase_short[OF r2, of "Some EAGAIN"] obtain c3 where
    3: "header_phase (Some EAGAIN) ?c2 = Inr (Break False, c3)" "receiving c3 []" "io_events c3 = [Message_event ?m None]"
    by (auto simp: reset_incoming_message_state_def)
  have "read_loop (Some EAGAIN) ?c2 = Inr (Break False, c3)" using 3(1) by (subst read_loop.simps) simp
  then have "read_loop None ?c = Inr (Break False, c3)" using 1(1) b by (subst read_loop.simps) simp
  then show ?thesis using 3(2,3) by (simp add: handle_event_def io_conn_new_def)
qed

theorem unread_body_delivered_witness:
  "request_message request_w \<and> (\<exists>c. receive False 0 [[Arrived (take 16 request_w)]] (io_conn_new rc_new) = Some (Inr (False, c))
    \<and> io_events c = [Message_event (map Some (take 16 request_w) @ [None, None]) None])"
  using unread_body_delivered[OF request_w(1), of False 0 rc_new] request_w by (auto simp: numeral_2_eq_2 simp del: receive.simps)

section \<open>Outgoing messages\<close>

text \<open>What is left to be written of a queued message buffer; the extended part exists or not.\<close>

record send_buf =
  sb_data :: bytes
  sb_ext :: "bytes option"

definition pending :: "send_buf \<Rightarrow> bytes" where
  "pending b = sb_data b @ (case sb_ext b of None \<Rightarrow> [] | Some x \<Rightarrow> x)"

text \<open>The results of the calls of \<^verbatim>\<open>writev\<close>, in order: one more than the given number of bytes is accepted if there are so many, or the
  call fails. When they are exhausted the calls fail with \<^verbatim>\<open>EAGAIN\<close>. A queued buffer is never empty: it begins with a header.\<close>

datatype sock_out = Wrote nat | Write_failed errno

fun flush_send_queue :: "sock_out list \<Rightarrow> send_buf list \<Rightarrow> bytes \<Rightarrow> error option \<times> send_buf list \<times> bytes \<times> sock_out list" where
  "flush_send_queue s [] ws = (None, [], ws, s)"
| "flush_send_queue [] (b # q) ws = (None, b # q, ws, [])"
| "flush_send_queue (Write_failed e # s) (b # q) ws =
     (if e = EINTR then flush_send_queue s (b # q) ws
      else if e = EAGAIN then (None, b # q, ws, s)
      else (Some COMM_BROKEN_CONNECTION, b # q, ws, s))"
| "flush_send_queue (Wrote n # s) (b # q) ws =
     (let towrite = length (pending b); nwritten = min (Suc n) towrite; remaining = length (sb_data b); ws = ws @ take nwritten (pending b) in
      if nwritten < towrite then
        if remaining > 0 \<and> nwritten < remaining then flush_send_queue s (b\<lparr>sb_data := drop nwritten (sb_data b)\<rparr> # q) ws
        else (case sb_ext b of
            Some x \<Rightarrow> flush_send_queue s (b\<lparr>sb_data := [], sb_ext := Some (drop (nwritten - remaining) x)\<rparr> # q) ws
          | None \<Rightarrow> flush_send_queue s q ws)
      else flush_send_queue s q ws)"

record io_out =
  m_send_queue :: "send_buf list"
  m_write_interest :: bool
  io_written :: bytes
  io_pending_requests :: request_cache

definition io_out_new :: "request_cache \<Rightarrow> io_out" where
  "io_out_new rc = \<lparr>m_send_queue = [], m_write_interest = False, io_written = [], io_pending_requests = rc\<rparr>"

text \<open>\<^verbatim>\<open>send_message\<close>: a request with an id and a dispatch handler is remembered first.\<close>

definition send_message :: "nat \<Rightarrow> nat option \<Rightarrow> xtime \<Rightarrow> send_buf \<Rightarrow> sock_out list \<Rightarrow> io_out \<Rightarrow> (error option \<times> io_out) result" where
  "send_message self dh expire cbp s st =
     (let mheader = header_of (sb_data cbp) in
      rbind (case dh of
          Some d \<Rightarrow> if h_id mheader \<noteq> 0 \<and> h_flags mheader AND FLAGS_BIT_REQUEST \<noteq> 0
            then rc_insert (h_id mheader) self d expire (io_pending_requests st) else Inr (io_pending_requests st)
        | None \<Rightarrow> Inr (io_pending_requests st)) (\<lambda>rc.
      let initially_empty = (m_send_queue st = []);
          (err, q, ws, _) = flush_send_queue s (m_send_queue st @ [cbp]) (io_written st);
          st = st\<lparr>m_send_queue := q, io_written := ws, io_pending_requests := rc\<rparr> in
      Inr (err,
        if err \<noteq> None then st
        else if initially_empty \<and> q \<noteq> [] then st\<lparr>m_write_interest := True\<rparr>
        else if \<not> initially_empty \<and> q = [] then st\<lparr>m_write_interest := False\<rparr>
        else st)))"

text \<open>\<^verbatim>\<open>handle_write_readiness\<close> of an established connection.\<close>

definition write_ready :: "sock_out list \<Rightarrow> io_out \<Rightarrow> error option \<times> io_out" where
  "write_ready s st =
     (let (err, q, ws, _) = flush_send_queue s (m_send_queue st) (io_written st);
          st = st\<lparr>m_send_queue := q, io_written := ws\<rparr> in
      (err, if err = None \<and> q = [] then st\<lparr>m_write_interest := False\<rparr> else st))"

text \<open>After a partial write the queue begins with the rest of the buffer.\<close>

definition advance :: "nat \<Rightarrow> send_buf \<Rightarrow> send_buf" where
  "advance w b = (if w < length (sb_data b) then b\<lparr>sb_data := drop w (sb_data b)\<rparr>
     else b\<lparr>sb_data := [], sb_ext := map_option (drop (w - length (sb_data b))) (sb_ext b)\<rparr>)"

lemma pending_advance: "pending (advance w b) = drop w (pending b)"
  by (auto simp: advance_def pending_def split: option.splits)

lemma flush_wrote:
  "flush_send_queue (Wrote n # s) (b # q) ws =
     (let w = min (Suc n) (length (pending b)) in
      if w < length (pending b) then flush_send_queue s (advance w b # q) (ws @ take w (pending b))
      else flush_send_queue s q (ws @ pending b))"
proof (cases "min (Suc n) (length (pending b)) < length (pending b)")
  case True
  then have "\<not> min (Suc n) (length (pending b)) < length (sb_data b) \<Longrightarrow> \<exists>x. sb_ext b = Some x"
    by (cases "sb_ext b") (simp_all add: pending_def)
  then show ?thesis using True by (auto simp: Let_def advance_def)
qed (simp add: Let_def)

lemma flush_wrote_induct [case_names empty blocked failed partial complete]:
  assumes "\<And>s ws. P s [] ws" "\<And>b q ws. P [] (b # q) ws"
    "\<And>e s b q ws. (e = EINTR \<Longrightarrow> P s (b # q) ws) \<Longrightarrow> P (Write_failed e # s) (b # q) ws"
    "\<And>n s b q ws. Suc n < length (pending b) \<Longrightarrow> P s (advance (Suc n) b # q) (ws @ take (Suc n) (pending b)) \<Longrightarrow> P (Wrote n # s) (b # q) ws"
    "\<And>n s b q ws. length (pending b) \<le> Suc n \<Longrightarrow> P s q (ws @ pending b) \<Longrightarrow> P (Wrote n # s) (b # q) ws"
  shows "P s q ws"
proof (induction s arbitrary: q ws)
  case Nil
  show ?case using assms(1,2) by (cases q) auto
next
  case (Cons y s q ws)
  show ?case
  proof (cases q)
    case Nil
    then show ?thesis using assms(1) by simp
  next
    case q: (Cons b q')
    consider (wrote) n where "y = Wrote n" | (fail) e where "y = Write_failed e" by (cases y)
    then show ?thesis
    proof cases
      case wrote
      then show ?thesis using q Cons assms(4)[of n b s q' ws] assms(5)[of b n s q' ws] by (cases "Suc n < length (pending b)") auto
    next
      case fail
      then show ?thesis using q Cons assms(3) by simp
    qed
  qed
qed

lemma flush_conserves:
  "flush_send_queue s q ws = (err, q', ws', s') \<Longrightarrow> ws' @ concat (map pending q') = ws @ concat (map pending q)"
proof (induction s q ws rule: flush_wrote_induct)
  case (partial n s b q ws)
  then have "ws' @ concat (map pending q') = ws @ (take (Suc n) (pending b) @ drop (Suc n) (pending b)) @ concat (map pending q)"
    by (simp add: flush_wrote pending_advance del: flush_send_queue.simps append_take_drop_id)
  then show ?case by simp
qed (auto simp: flush_wrote simp del: flush_send_queue.simps(4) split: if_splits)

datatype io_op = Send "nat option" xtime send_buf "sock_out list" | Write_ready "sock_out list"

text \<open>A connection at work until an exception or an error ends it; the flag says that it is still up.\<close>

fun io_run :: "nat \<Rightarrow> io_op list \<Rightarrow> io_out \<Rightarrow> (bool \<times> io_out) result" where
  "io_run self [] st = Inr (True, st)"
| "io_run self (Send dh expire cbp s # ps) st =
     rbind (send_message self dh expire cbp s st) (\<lambda>(err, st). if err = None then io_run self ps st else Inr (False, st))"
| "io_run self (Write_ready s # ps) st =
     (let (err, st) = write_ready s st in if err = None then io_run self ps st else Inr (False, st))"

fun sent_by :: "io_op list \<Rightarrow> bytes" where
  "sent_by [] = []"
| "sent_by (Send dh expire cbp s # ps) = pending cbp @ sent_by ps"
| "sent_by (Write_ready s # ps) = sent_by ps"

lemma send_message_effect:
  assumes "send_message self dh expire cbp s st = Inr (err, st')"
  shows "\<exists>s'. flush_send_queue s (m_send_queue st @ [cbp]) (io_written st) = (err, m_send_queue st', io_written st', s')"
    and "err = None \<Longrightarrow> m_write_interest st \<longleftrightarrow> m_send_queue st \<noteq> [] \<Longrightarrow> m_write_interest st' \<longleftrightarrow> m_send_queue st' \<noteq> []"
proof -
  obtain err' q ws s' where f: "flush_send_queue s (m_send_queue st @ [cbp]) (io_written st) = (err', q, ws, s')" by (metis prod_cases4)
  have "err = err'" "m_send_queue st' = q" "io_written st' = ws"
    and w: "err = None \<Longrightarrow> m_write_interest st' = (if m_send_queue st = [] \<and> q \<noteq> [] then True else if m_send_queue st \<noteq> [] \<and> q = [] then False else m_write_interest st)"
    using assms(1) f by (cases st; cases st'; auto simp: send_message_def Let_def rbind_eq_Inr_iff split: if_splits)+
  then show "\<exists>s'. flush_send_queue s (m_send_queue st @ [cbp]) (io_written st) = (err, m_send_queue st', io_written st', s')"
    and "err = None \<Longrightarrow> m_write_interest st \<longleftrightarrow> m_send_queue st \<noteq> [] \<Longrightarrow> m_write_interest st' \<longleftrightarrow> m_send_queue st' \<noteq> []"
    using f by auto
qed

lemma write_ready_effect:
  assumes "write_ready s st = (err, st')"
  shows "\<exists>s'. flush_send_queue s (m_send_queue st) (io_written st) = (err, m_send_queue st', io_written st', s')"
    and "err = None \<Longrightarrow> m_write_interest st \<longleftrightarrow> m_send_queue st \<noteq> [] \<Longrightarrow> m_write_interest st' \<longleftrightarrow> m_send_queue st' \<noteq> []"
proof -
  obtain err' q ws s' where f: "flush_send_queue s (m_send_queue st) (io_written st) = (err', q, ws, s')" by (metis prod_cases4)
  have "m_send_queue st = [] \<Longrightarrow> q = []" using f by auto
  then show "\<exists>s'. flush_send_queue s (m_send_queue st) (io_written st) = (err, m_send_queue st', io_written st', s')"
    and "err = None \<Longrightarrow> m_write_interest st \<longleftrightarrow> m_send_queue st \<noteq> [] \<Longrightarrow> m_write_interest st' \<longleftrightarrow> m_send_queue st' \<noteq> []"
    using assms f by (auto simp: write_ready_def Let_def split: if_splits)
qed

lemma io_run_conserves:
  assumes "io_run self ps st = Inr (True, st')" "m_write_interest st \<longleftrightarrow> m_send_queue st \<noteq> []"
  shows "io_written st' @ concat (map pending (m_send_queue st')) = io_written st @ concat (map pending (m_send_queue st)) @ sent_by ps
    \<and> (m_write_interest st' \<longleftrightarrow> m_send_queue st' \<noteq> [])"
  using assms
proof (induction ps arbitrary: st)
  case (Cons p ps)
  show ?case
  proof (cases p)
    case (Send dh expire cbp s)
    then obtain st1 where 1: "send_message self dh expire cbp s st = Inr (None, st1)" "io_run self ps st1 = Inr (True, st')"
      using Cons(2) by (auto simp: rbind_eq_Inr_iff split: if_splits)
    show ?thesis using Cons(1)[OF 1(2)] send_message_effect[OF 1(1)] Cons(3) Send by (auto dest!: flush_conserves)
  next
    case (Write_ready s)
    then obtain st1 where 1: "write_ready s st = (None, st1)" "io_run self ps st1 = Inr (True, st')"
      using Cons(2) by (auto simp: Let_def split: prod.splits if_splits)
    show ?thesis using Cons(1)[OF 1(2)] write_ready_effect[OF 1(1)] Cons(3) Write_ready by (auto dest!: flush_conserves)
  qed
qed simp


text \<open>Each successful call makes progress.\<close>

definition successes :: "sock_out list \<Rightarrow> nat" where
  "successes s = length (filter (\<lambda>x. x \<noteq> Write_failed EINTR) s)"

lemma successes_simps [simp]:
  "successes [] = 0" "successes (Wrote n # s) = Suc (successes s)" "successes (Write_failed EINTR # s) = successes s"
  by (simp_all add: successes_def)

lemma flush_drains:
  "set s \<subseteq> insert (Write_failed EINTR) (range Wrote) \<Longrightarrow> (\<And>b. b \<in> set q \<Longrightarrow> pending b \<noteq> []) \<Longrightarrow>
    length (concat (map pending q)) \<le> successes s \<Longrightarrow>
    \<exists>s'. flush_send_queue s q ws = (None, [], ws @ concat (map pending q), s')"
proof (induction s q ws rule: flush_wrote_induct)
  case (blocked b q ws)
  have "pending b \<noteq> []" using blocked(2) by simp
  then show ?case using blocked(3) by simp
next
  case (failed e s b q ws)
  then have "e = EINTR" by auto
  then show ?case using failed by simp
next
  case (partial n s b q ws)
  have "\<exists>s'. flush_send_queue s (advance (Suc n) b # q) (ws @ take (Suc n) (pending b))
      = (None, [], (ws @ take (Suc n) (pending b)) @ concat (map pending (advance (Suc n) b # q)), s')"
    using partial by (intro partial(2)) (auto simp: pending_advance)
  then show ?case
    using partial(1) append_take_drop_id[of "Suc n" "pending b"]
    by (simp add: flush_wrote pending_advance del: flush_send_queue.simps append_take_drop_id) (metis append.assoc)
next
  case (complete n s b q ws)
  have "0 < length (pending b)" using complete(4) by simp
  moreover have "length (pending b) + length (concat (map pending q)) \<le> Suc (successes s)" using complete(5) by simp
  ultimately have "length (concat (map pending q)) \<le> successes s" by linarith
  then have "\<exists>s'. flush_send_queue s q (ws @ pending b) = (None, [], (ws @ pending b) @ concat (map pending q), s')"
    using complete by (intro complete(2)) auto
  then show ?case using complete(1) by (simp add: flush_wrote min_absorb2 del: flush_send_queue.simps)
qed simp

lemma flush_keeps_nonempty:
  "flush_send_queue s q ws = (err, q', ws', s') \<Longrightarrow> [] \<notin> pending ` set q \<Longrightarrow> [] \<notin> pending ` set q'"
proof (induction s q ws rule: flush_wrote_induct)
  case (partial n s b q ws)
  then show ?case by (auto simp: flush_wrote pending_advance image_iff simp del: flush_send_queue.simps)
qed (auto simp: flush_wrote simp del: flush_send_queue.simps(4) split: if_splits)

fun sends_of :: "io_op \<Rightarrow> send_buf list" where
  "sends_of (Send dh expire cbp s) = [cbp]"
| "sends_of (Write_ready s) = []"

lemma sent_by_eq: "sent_by ps = concat (map pending (concat (map sends_of ps)))"
  by (induction ps rule: sent_by.induct) simp_all

lemma io_run_keeps_nonempty:
  assumes "io_run self ps st = Inr (up, st')" "[] \<notin> pending ` set (m_send_queue st)" "[] \<notin> pending ` set (concat (map sends_of ps))"
  shows "[] \<notin> pending ` set (m_send_queue st')"
  using assms
proof (induction ps arbitrary: st)
  case (Cons p ps)
  show ?case
  proof (cases p)
    case (Send dh expire cbp s)
    then obtain err st1 where 1: "send_message self dh expire cbp s st = Inr (err, st1)"
        "if err = None then io_run self ps st1 = Inr (up, st') else st' = st1"
      using Cons(2) by (auto simp: rbind_eq_Inr_iff split: if_splits)
    have "[] \<notin> pending ` set (m_send_queue st1)"
      using send_message_effect(1)[OF 1(1)] Cons(3,4) Send by (auto dest!: flush_keeps_nonempty)
    then show ?thesis using Cons(1)[of st1] Cons(4) 1(2) by (auto split: if_splits)
  next
    case (Write_ready s)
    then obtain err st1 where 1: "write_ready s st = (err, st1)"
        "if err = None then io_run self ps st1 = Inr (up, st') else st' = st1"
      using Cons(2) by (auto simp: Let_def split: prod.splits if_splits)
    have "[] \<notin> pending ` set (m_send_queue st1)"
      using write_ready_effect(1)[OF 1(1)] Cons(3) by (auto dest!: flush_keeps_nonempty)
    then show ?thesis using Cons(1)[of st1] Cons(4) 1(2) by (auto split: if_splits)
  qed
qed simp

text \<open>Queued data is sent as soon as the peer accepts it. After any sequence of sends and write-ready events that has not broken the
  connection, a write-ready event in which the socket makes as many successful calls as bytes were ever sent, interrupted or not,
  empties the queue: every byte of every message has then been written, in order, and interest in writability is withdrawn.\<close>

lemma queued_data_sent:
  assumes "io_run self ps (io_out_new rc) = Inr (True, st)" "[] \<notin> pending ` set (concat (map sends_of ps))"
    and "set s \<subseteq> insert (Write_failed EINTR) (range Wrote)" "length (sent_by ps) \<le> successes s"
  shows "\<exists>st'. write_ready s st = (None, st') \<and> m_send_queue st' = [] \<and> io_written st' = sent_by ps \<and> \<not> m_write_interest st'"
proof -
  have inv: "io_written st @ concat (map pending (m_send_queue st)) = sent_by ps"
    using io_run_conserves[OF assms(1)] by (simp add: io_out_new_def)
  have "[] \<notin> pending ` set (m_send_queue st)" using io_run_keeps_nonempty[OF assms(1)] assms(2) by (simp add: io_out_new_def)
  then have "\<And>b. b \<in> set (m_send_queue st) \<Longrightarrow> pending b \<noteq> []" by (metis image_eqI)
  moreover have "length (concat (map pending (m_send_queue st))) \<le> successes s" using assms(4) arg_cong[OF inv, of length] by simp
  ultimately obtain s' where "flush_send_queue s (m_send_queue st) (io_written st) = (None, [], sent_by ps, s')"
    using flush_drains[OF assms(3), of "m_send_queue st" "io_written st"] inv by auto
  then show ?thesis by (simp add: write_ready_def)
qed

definition send_w :: "io_op list" where
  "send_w = [Send None (5, 0) \<lparr>sb_data = request_w, sb_ext = Some [9]\<rparr> [Wrote 0, Write_failed EINTR, Write_failed EAGAIN],
     Send None (6, 0) \<lparr>sb_data = request_w, sb_ext = None\<rparr> [Wrote 19]]"

definition sent_w :: io_out where
  "sent_w = \<lparr>m_send_queue = [\<lparr>sb_data = request_w, sb_ext = None\<rparr>], m_write_interest = True, io_written = request_w @ [9], io_pending_requests = rc_new\<rparr>"

lemma send_w: "io_run 0 send_w (io_out_new rc_new) = Inr (True, sent_w)"
proof -
  have "take (Suc 0) request_w @ drop (Suc 0) request_w @ [9] = request_w @ [9]" using append_take_drop_id[of 1 request_w] by simp
  then show ?thesis
    using request_w(2) by (simp add: send_w_def sent_w_def io_out_new_def send_message_def pending_def Let_def)
qed


end
