(* ===== verification/ApplicationQueues.thy ===== *)
theory ApplicationQueues
  imports CommMessages
begin

text \<open>
  The work queue of the servers (\<^verbatim>\<open>AsyncComm/ApplicationQueue.h\<close>): threads that add requests, worker threads that take requests off
  the queue and carry them out one at a time per thread group, and the shutdown. A state holds the shared data and where every
  thread is; a step is one critical section of one thread, with going to sleep on the condition a step of its own, because
  \<^verbatim>\<open>shutdown\<close> takes no mutex and may come between the test of the flag and the wait. Shown for every interleaving: usage records
  are never used after they are deleted, requests of a group run one at a time and in the order they were queued, worker activity
  always ends, and it ends with an empty queue; but a shutdown may leave a worker asleep forever.
\<close>

section \<open>State and steps\<close>

record usage_rec =
  u_thread_group :: u64
  u_running :: bool
  u_outstanding :: int

record work_rec =
  w_handler :: nat
  w_group :: u64
  w_usage :: "nat option"

text \<open>Where a worker is: before it locks the queue mutex; inside the first wait of its loop (about to sleep and holding the mutex,
  asleep, woken and about to lock again); likewise inside the second wait; carrying out a request; or its thread has returned.\<close>

datatype worker = Ready | Empty_wait | Empty_asleep | Empty_woken | Blocked_wait | Blocked_asleep | Blocked_woken
  | Running work_rec | Exited

text \<open>Usage records live at addresses; \<^term>\<open>None\<close> is a deleted record. Requests whose \<^verbatim>\<open>add\<close> has left its first critical section
  wait in \<open>aq_adding\<close>; \<open>aq_notifying\<close> says that a shutdown has set the flag but not notified yet. The last three fields record the
  history: requests in the order they were queued and started, and whether one was queued after the shutdown flag was set.\<close>

record app_queue =
  aq_queue :: "work_rec list"
  aq_usage_map :: "u64 \<rightharpoonup> nat"
  aq_usage :: "usage_rec option list"
  aq_shutdown :: bool
  aq_workers :: "worker list"
  aq_adding :: "work_rec list"
  aq_notifying :: bool
  aq_pushed :: "work_rec list"
  aq_started :: "work_rec list"
  aq_late :: bool

definition aq_new :: "nat \<Rightarrow> app_queue" where
  "aq_new n = \<lparr>aq_queue = [], aq_usage_map = Map.empty, aq_usage = [], aq_shutdown = False, aq_workers = replicate n Ready,
     aq_adding = [], aq_notifying = False, aq_pushed = [], aq_started = [], aq_late = False\<rparr>"

definition deref :: "usage_rec option list \<Rightarrow> nat \<Rightarrow> usage_rec result" where
  "deref us a = (if a < length us then (case us ! a of None \<Rightarrow> Inl UNDEFINED_BEHAVIOUR | Some u \<Rightarrow> Inr u) else Inl UNDEFINED_BEHAVIOUR)"

text \<open>\<^verbatim>\<open>add\<close>: the critical section of the usage records, then that of the queue.\<close>

definition add_usage :: "nat \<Rightarrow> u64 \<Rightarrow> app_queue \<Rightarrow> app_queue result" where
  "add_usage h g s =
     (if g = 0 then Inr (s\<lparr>aq_adding := aq_adding s @ [\<lparr>w_handler = h, w_group = g, w_usage = None\<rparr>]\<rparr>)
      else case aq_usage_map s g of
        Some a \<Rightarrow> rbind (deref (aq_usage s) a) (\<lambda>u.
          Inr (s\<lparr>aq_usage := (aq_usage s)[a := Some (u\<lparr>u_outstanding := u_outstanding u + 1\<rparr>)],
            aq_adding := aq_adding s @ [\<lparr>w_handler = h, w_group = g, w_usage = Some a\<rparr>]\<rparr>))
      | None \<Rightarrow> let a = length (aq_usage s) in
          Inr (s\<lparr>aq_usage := aq_usage s @ [Some \<lparr>u_thread_group = g, u_running = False, u_outstanding = 1\<rparr>],
            aq_usage_map := (aq_usage_map s)(g \<mapsto> a),
            aq_adding := aq_adding s @ [\<lparr>w_handler = h, w_group = g, w_usage = Some a\<rparr>]\<rparr>))"

definition asleep :: "worker \<Rightarrow> bool" where
  "asleep w \<longleftrightarrow> w = Empty_asleep \<or> w = Blocked_asleep"

fun wake :: "worker \<Rightarrow> worker" where
  "wake Empty_asleep = Empty_woken"
| "wake Blocked_asleep = Blocked_woken"
| "wake w = w"

definition holds_mutex :: "worker \<Rightarrow> bool" where
  "holds_mutex w \<longleftrightarrow> w = Empty_wait \<or> w = Blocked_wait"

definition mutex_free :: "app_queue \<Rightarrow> bool" where
  "mutex_free s \<longleftrightarrow> list_all (\<lambda>w. \<not> holds_mutex w) (aq_workers s)"

definition set_worker :: "nat \<Rightarrow> worker \<Rightarrow> app_queue \<Rightarrow> app_queue" where
  "set_worker w x s = s\<lparr>aq_workers := (aq_workers s)[w := x]\<rparr>"

text \<open>\<^verbatim>\<open>notify_one\<close> wakes one sleeping worker, if there is one.\<close>

definition push_work :: "nat \<Rightarrow> nat option \<Rightarrow> app_queue \<Rightarrow> app_queue option" where
  "push_work i k s =
     (if mutex_free s \<and> i < length (aq_adding s)
         \<and> (case k of None \<Rightarrow> list_all (\<lambda>w. \<not> asleep w) (aq_workers s) | Some w \<Rightarrow> w < length (aq_workers s) \<and> asleep (aq_workers s ! w)) then
        let s = s\<lparr>aq_queue := aq_queue s @ [aq_adding s ! i], aq_pushed := aq_pushed s @ [aq_adding s ! i],
              aq_adding := take i (aq_adding s) @ drop (Suc i) (aq_adding s), aq_late := (aq_late s \<or> aq_shutdown s)\<rparr> in
        Some (case k of None \<Rightarrow> s | Some w \<Rightarrow> set_worker w (wake (aq_workers s ! w)) s)
      else None)"

text \<open>The search of a worker for the first request whose group is not running: that request and the remaining queue.\<close>

fun find_work :: "usage_rec option list \<Rightarrow> work_rec list \<Rightarrow> (work_rec \<times> work_rec list) option result" where
  "find_work us [] = Inr None"
| "find_work us (r # rs) =
     (case w_usage r of
        None \<Rightarrow> Inr (Some (r, rs))
      | Some a \<Rightarrow> rbind (deref us a) (\<lambda>u.
          if u_running u then rbind (find_work us rs) (\<lambda>x. Inr (map_option (\<lambda>(r', rs'). (r', r # rs')) x))
          else Inr (Some (r, rs))))"

definition start_work :: "nat \<Rightarrow> work_rec \<Rightarrow> work_rec list \<Rightarrow> app_queue \<Rightarrow> app_queue result" where
  "start_work w r rs s =
     rbind (case w_usage r of None \<Rightarrow> Inr (aq_usage s)
       | Some a \<Rightarrow> rbind (deref (aq_usage s) a) (\<lambda>u. Inr ((aq_usage s)[a := Some (u\<lparr>u_running := True\<rparr>)]))) (\<lambda>us.
     Inr (set_worker w (Running r) (s\<lparr>aq_usage := us, aq_queue := rs, aq_started := aq_started s @ [r]\<rparr>)))"

definition take_work :: "nat \<Rightarrow> app_queue \<Rightarrow> app_queue result" where
  "take_work w s =
     (if aq_queue s = [] then Inr (set_worker w (if aq_shutdown s then Exited else Empty_wait) s)
      else rbind (find_work (aq_usage s) (aq_queue s)) (\<lambda>x. case x of
          Some (r, rs) \<Rightarrow> start_work w r rs s
        | None \<Rightarrow> Inr (set_worker w (if aq_shutdown s then Exited else Blocked_wait) s)))"

definition finish_work :: "nat \<Rightarrow> work_rec \<Rightarrow> app_queue \<Rightarrow> app_queue result" where
  "finish_work w r s =
     rbind (case w_usage r of None \<Rightarrow> Inr s
       | Some a \<Rightarrow> rbind (deref (aq_usage s) a) (\<lambda>u.
           let u = u\<lparr>u_running := False, u_outstanding := u_outstanding u - 1\<rparr> in
           Inr (if u_outstanding u = 0
             then s\<lparr>aq_usage_map := (aq_usage_map s)(u_thread_group u := None), aq_usage := (aq_usage s)[a := None]\<rparr>
             else s\<lparr>aq_usage := (aq_usage s)[a := Some u]\<rparr>))) (\<lambda>s.
     Inr (set_worker w Ready s))"

definition aq_set_shutdown :: "app_queue \<Rightarrow> app_queue" where
  "aq_set_shutdown s = s\<lparr>aq_shutdown := True, aq_notifying := True\<rparr>"

definition aq_notify_all :: "app_queue \<Rightarrow> app_queue" where
  "aq_notify_all s = s\<lparr>aq_workers := map wake (aq_workers s), aq_notifying := False\<rparr>"

text \<open>A step of a worker: it locks the queue mutex, goes to sleep, or completes its request. A step that is not possible is
  \<^term>\<open>None\<close>.\<close>

definition worker_step :: "nat \<Rightarrow> app_queue \<Rightarrow> app_queue result option" where
  "worker_step w s =
     (if w < length (aq_workers s) then
        (case aq_workers s ! w of
           Ready \<Rightarrow> if mutex_free s then Some (take_work w s) else None
         | Empty_wait \<Rightarrow> Some (Inr (set_worker w Empty_asleep s))
         | Empty_woken \<Rightarrow> if mutex_free s then Some (take_work w s) else None
         | Blocked_wait \<Rightarrow> Some (Inr (set_worker w Blocked_asleep s))
         | Blocked_woken \<Rightarrow> if mutex_free s then Some (Inr (set_worker w (if aq_shutdown s then Exited else Ready) s)) else None
         | Running r \<Rightarrow> Some (finish_work w r s)
         | _ \<Rightarrow> None)
      else None)"

text \<open>A wakeup of the condition without a notification is allowed.\<close>

datatype aq_action = Add nat u64 | Push nat "nat option" | Work nat | Spurious nat | Shutdown | Notify_all

definition aq_step :: "aq_action \<Rightarrow> app_queue \<Rightarrow> app_queue result option" where
  "aq_step a s = (case a of
       Add h g \<Rightarrow> Some (add_usage h g s)
     | Push i k \<Rightarrow> map_option Inr (push_work i k s)
     | Work w \<Rightarrow> worker_step w s
     | Spurious w \<Rightarrow> if w < length (aq_workers s) \<and> asleep (aq_workers s ! w) then Some (Inr (set_worker w (wake (aq_workers s ! w)) s)) else None
     | Shutdown \<Rightarrow> Some (Inr (aq_set_shutdown s))
     | Notify_all \<Rightarrow> if aq_notifying s then Some (Inr (aq_notify_all s)) else None)"

text \<open>The states an application queue of \<open>n\<close> workers can reach.\<close>

inductive aq_reach :: "nat \<Rightarrow> app_queue \<Rightarrow> bool" for n where
  start: "0 < n \<Longrightarrow> aq_reach n (aq_new n)"
| step: "aq_reach n s \<Longrightarrow> aq_step a s = Some (Inr s') \<Longrightarrow> aq_reach n s'"

section \<open>Usage records\<close>

definition live :: "usage_rec option list \<Rightarrow> nat \<Rightarrow> usage_rec \<Rightarrow> bool" where
  "live us a u \<longleftrightarrow> a < length us \<and> us ! a = Some u"

lemma deref_eq: "deref us a = Inr u \<longleftrightarrow> live us a u"
  by (auto simp: deref_def live_def split: option.splits)

lemma live_update: "a < length us \<Longrightarrow> live (us[a := x]) b v \<longleftrightarrow> (if b = a then x = Some v else live us b v)"
  by (auto simp: live_def)

lemma live_append: "live (us @ [Some u]) b v \<longleftrightarrow> (if b = length us then v = u else live us b v)"
  by (auto simp: live_def nth_append)

lemma live_unique: "live us a u \<Longrightarrow> live us a v \<Longrightarrow> v = u" and live_bound: "live us a u \<Longrightarrow> a < length us"
  by (auto simp: live_def)

definition users :: "nat \<Rightarrow> work_rec multiset \<Rightarrow> nat" where
  "users a M = size {#r \<in># M. w_usage r = Some a#}"

lemma users_simps [simp]: "users a {#} = 0" "users a (M + N) = users a M + users a N"
  "users a (add_mset r M) = (if w_usage r = Some a then Suc (users a M) else users a M)"
  by (simp_all add: users_def)

lemma users_zero: "users a M = 0 \<longleftrightarrow> (\<forall>r \<in># M. w_usage r \<noteq> Some a)"
  by (induction M) auto

lemma users_mono: "M \<subseteq># N \<Longrightarrow> users a M \<le> users a N"
  by (auto simp: mset_subset_eq_exists_conv)

definition in_group :: "usage_rec option list \<Rightarrow> nat \<Rightarrow> u64 \<Rightarrow> bool" where
  "in_group us a g \<longleftrightarrow> (\<exists>u. live us a u \<and> u_thread_group u = g)"

lemma in_group_update:
  assumes "live us a u" "u_thread_group v = u_thread_group u"
  shows "in_group (us[a := Some v]) = in_group us"
proof (intro ext)
  fix b g
  show "in_group (us[a := Some v]) b g = in_group us b g"
  proof (cases "b = a")
    case True
    have "in_group us a g \<longleftrightarrow> u_thread_group u = g" using assms(1) live_unique[OF assms(1)] unfolding in_group_def by blast
    then show ?thesis using True assms(2) by (simp add: in_group_def live_update[OF live_bound[OF assms(1)]])
  qed (simp add: in_group_def live_update[OF live_bound[OF assms(1)]])
qed

lemma in_group_bound: "in_group us a g \<Longrightarrow> a < length us"
  by (auto simp: in_group_def dest: live_bound)

text \<open>What holds of the usage records \<open>us\<close> and the map \<open>m\<close> when the requests \<open>H\<close> exist and \<open>R\<close> of them are being carried out: every request
  of a group points to the record of its group, which counts the requests that point to it and is marked running when one of
  them is carried out - then exactly one is.\<close>

definition usage_inv :: "work_rec multiset \<Rightarrow> work_rec multiset \<Rightarrow> usage_rec option list \<Rightarrow> (u64 \<rightharpoonup> nat) \<Rightarrow> bool" where
  "usage_inv H R us m \<longleftrightarrow>
     (\<forall>r \<in># H. case w_usage r of None \<Rightarrow> w_group r = 0 | Some a \<Rightarrow> w_group r \<noteq> 0 \<and> in_group us a (w_group r)) \<and>
     (\<forall>a u. live us a u \<longrightarrow> m (u_thread_group u) = Some a \<and> u_thread_group u \<noteq> 0 \<and> u_outstanding u = int (users a H) \<and> 0 < users a H
        \<and> users a R = (if u_running u then 1 else 0)) \<and>
     (\<forall>g a. m g = Some a \<longrightarrow> in_group us a g) \<and> R \<subseteq># H"

lemma usage_inv_rec: "usage_inv H R us m \<Longrightarrow> r \<in># H \<Longrightarrow> w_usage r = Some a \<Longrightarrow> in_group us a (w_group r) \<and> w_group r \<noteq> 0"
  and usage_inv_none: "usage_inv H R us m \<Longrightarrow> r \<in># H \<Longrightarrow> w_usage r = None \<Longrightarrow> w_group r = 0"
  by (auto simp: usage_inv_def dest!: bspec[where x = r])

lemma usage_inv_live:
  assumes "usage_inv H R us m" "live us a u"
  shows "m (u_thread_group u) = Some a" "u_thread_group u \<noteq> 0" "u_outstanding u = int (users a H)" "0 < users a H"
    "users a R = (if u_running u then 1 else 0)"
  using assms unfolding usage_inv_def by blast+

lemma usage_inv_map: "usage_inv H R us m \<Longrightarrow> m g = Some a \<Longrightarrow> in_group us a g" and usage_inv_sub: "usage_inv H R us m \<Longrightarrow> R \<subseteq># H"
  by (auto simp: usage_inv_def)

text \<open>Requests without a group.\<close>

lemma usage_inv_ungrouped:
  assumes "usage_inv H R us m" "\<And>r. r \<in># H' \<Longrightarrow> r \<in># H \<or> w_usage r = None \<and> w_group r = 0"
    "\<And>a. users a H' = users a H" "\<And>a. users a R' = users a R" "R' \<subseteq># H'"
  shows "usage_inv H' R' us m"
  unfolding usage_inv_def assms(3,4)
proof (intro conjI)
  show "\<forall>r \<in># H'. case w_usage r of None \<Rightarrow> w_group r = 0 | Some a \<Rightarrow> w_group r \<noteq> 0 \<and> in_group us a (w_group r)"
    using assms(2) usage_inv_rec[OF assms(1)] usage_inv_none[OF assms(1)] by (fastforce split: option.splits)
qed (use assms(1,5) in \<open>auto simp: usage_inv_def\<close>)

text \<open>A record changes and so do the requests that point to it.\<close>

lemma usage_inv_update:
  assumes inv: "usage_inv H R us m" and l: "live us a u" and g: "u_thread_group v = u_thread_group u"
    and recs: "\<And>r. r \<in># H' \<Longrightarrow> r \<in># H \<or> w_usage r = Some a \<and> w_group r = u_thread_group u"
    and others: "\<And>b. b \<noteq> a \<Longrightarrow> users b H' = users b H \<and> users b R' = users b R"
    and v: "u_outstanding v = int (users a H')" "0 < users a H'" "users a R' = (if u_running v then 1 else 0)" and sub: "R' \<subseteq># H'"
  shows "usage_inv H' R' (us[a := Some v]) m"
  unfolding usage_inv_def in_group_update[OF l g]
proof (intro conjI)
  have u: "u_thread_group u \<noteq> 0" "in_group us a (u_thread_group u)" using usage_inv_live[OF inv l] l by (auto simp: in_group_def)
  show "\<forall>r \<in># H'. case w_usage r of None \<Rightarrow> w_group r = 0 | Some a \<Rightarrow> w_group r \<noteq> 0 \<and> in_group us a (w_group r)"
    using recs usage_inv_rec[OF inv] usage_inv_none[OF inv] u by (fastforce split: option.splits)
  show "\<forall>b w. live (us[a := Some v]) b w \<longrightarrow> m (u_thread_group w) = Some b \<and> u_thread_group w \<noteq> 0 \<and> u_outstanding w = int (users b H')
      \<and> 0 < users b H' \<and> users b R' = (if u_running w then 1 else 0)"
    using usage_inv_live[OF inv] l others v g by (auto simp: live_update[OF live_bound[OF l]])
qed (use inv sub in \<open>auto simp: usage_inv_def\<close>)

text \<open>A record is created for the first request of a group, and deleted with the last.\<close>

lemma usage_inv_new:
  assumes inv: "usage_inv H R us m" and g: "m g = None" "g \<noteq> 0" and r: "w_usage r = Some (length us)" "w_group r = g"
  shows "usage_inv (add_mset r H) R (us @ [Some \<lparr>u_thread_group = g, u_running = False, u_outstanding = 1\<rparr>]) (m(g \<mapsto> length us))"
proof -
  have H: "w_usage r' \<noteq> Some (length us)" if "r' \<in># H" for r'
    using usage_inv_rec[OF inv that] by (auto simp: in_group_def dest: live_bound)
  then have z: "users (length us) H = 0" "users (length us) R = 0"
    using usage_inv_sub[OF inv] by (auto simp: users_zero dest: mset_subset_eqD)
  have ig: "in_group (us @ [Some \<lparr>u_thread_group = g, u_running = False, u_outstanding = 1\<rparr>]) a k
      \<longleftrightarrow> (if a = length us then k = g else in_group us a k)" for a k
    by (auto simp: in_group_def live_append)
  have "live us a u \<Longrightarrow> u_thread_group u \<noteq> g" for a u using usage_inv_live(1)[OF inv] g(1) by force
  moreover have "m k \<noteq> Some (length us)" for k using usage_inv_map[OF inv, of k "length us"] in_group_bound[of us "length us" k] by auto
  ultimately show ?thesis unfolding usage_inv_def ig
    using inv H z r g usage_inv_live[OF inv] usage_inv_rec[OF inv] usage_inv_none[OF inv] usage_inv_map[OF inv]
      subset_mset.order_trans[OF usage_inv_sub[OF inv], of "add_mset r H"]
    by (auto simp: live_append split: option.splits if_splits)
qed

lemma usage_inv_delete:
  assumes inv: "usage_inv (add_mset r H) (add_mset r R) us m" and r: "w_usage r = Some a" and l: "live us a u" "u_outstanding u = 1"
  shows "usage_inv H R (us[a := None]) (m(u_thread_group u := None))"
proof -
  have z: "users a H = 0" "users a R = 0" using usage_inv_live[OF inv l(1)] r l(2) usage_inv_sub[OF inv] by (auto split: if_splits)
  have ig: "in_group (us[a := None]) b k \<longleftrightarrow> b \<noteq> a \<and> in_group us b k" for b k
    by (auto simp: in_group_def live_update[OF live_bound[OF l(1)]])
  have H: "w_usage r' \<noteq> Some a" if "r' \<in># H" for r' using z(1) that by (auto simp: users_zero)
  have "u_thread_group v = u_thread_group u \<Longrightarrow> live us b v \<Longrightarrow> b = a" for b v
    using usage_inv_live(1)[OF inv l(1)] usage_inv_live(1)[OF inv, of b v] by auto
  then have lv: "live (us[a := None]) b v \<Longrightarrow> live us b v \<and> b \<noteq> a \<and> u_thread_group v \<noteq> u_thread_group u" for b v
    by (auto simp: live_update[OF live_bound[OF l(1)]] split: if_splits)
  show ?thesis unfolding usage_inv_def ig
  proof (intro conjI)
    show "\<forall>r \<in># H. case w_usage r of None \<Rightarrow> w_group r = 0 | Some b \<Rightarrow> w_group r \<noteq> 0 \<and> b \<noteq> a \<and> in_group us b (w_group r)"
    proof
      fix r' assume r': "r' \<in># H"
      then show "case w_usage r' of None \<Rightarrow> w_group r' = 0 | Some b \<Rightarrow> w_group r' \<noteq> 0 \<and> b \<noteq> a \<and> in_group us b (w_group r')"
        using H[OF r'] usage_inv_rec[OF inv, of r'] usage_inv_none[OF inv, of r'] by (cases "w_usage r'") auto
    qed
    show "\<forall>b v. live (us[a := None]) b v \<longrightarrow> (m(u_thread_group u := None)) (u_thread_group v) = Some b \<and> u_thread_group v \<noteq> 0
        \<and> u_outstanding v = int (users b H) \<and> 0 < users b H \<and> users b R = (if u_running v then 1 else 0)"
    proof (intro allI impI)
      fix b v assume "live (us[a := None]) b v"
      from lv[OF this] usage_inv_live[OF inv, of b v] r
      show "(m(u_thread_group u := None)) (u_thread_group v) = Some b \<and> u_thread_group v \<noteq> 0
        \<and> u_outstanding v = int (users b H) \<and> 0 < users b H \<and> users b R = (if u_running v then 1 else 0)" by auto
    qed
    show "\<forall>k b. (m(u_thread_group u := None)) k = Some b \<longrightarrow> b \<noteq> a \<and> in_group us b k"
    proof (intro allI impI)
      fix k b assume k: "(m(u_thread_group u := None)) k = Some b"
      then have b: "in_group us b k" "k \<noteq> u_thread_group u" using usage_inv_map[OF inv] by (auto split: if_splits)
      then show "b \<noteq> a \<and> in_group us b k" using live_unique[OF l(1)] by (auto simp: in_group_def)
    qed
    show "R \<subseteq># H" using usage_inv_sub[OF inv] by simp
  qed
qed

section \<open>Steps\<close>

fun run_of :: "worker \<Rightarrow> work_rec list" where
  "run_of (Running r) = [r]"
| "run_of w = []"

definition runs :: "app_queue \<Rightarrow> work_rec multiset" where
  "runs s = mset (concat (map run_of (aq_workers s)))"

definition held :: "app_queue \<Rightarrow> work_rec multiset" where
  "held s = mset (aq_queue s) + mset (aq_adding s) + runs s"

definition aq_ok :: "app_queue \<Rightarrow> bool" where
  "aq_ok s \<longleftrightarrow> usage_inv (held s) (runs s) (aq_usage s) (aq_usage_map s)"

lemma run_of_update:
  "w < length ws \<Longrightarrow> mset (concat (map run_of (ws[w := x]))) + mset (run_of (ws ! w)) = mset (concat (map run_of ws)) + mset (run_of x)"
proof (induction ws arbitrary: w)
  case (Cons y ws)
  then show ?case by (cases w) (auto simp: ac_simps)
qed simp

lemma runs_set_worker: "w < length (aq_workers s) \<Longrightarrow> runs (set_worker w x s) + mset (run_of (aq_workers s ! w)) = runs s + mset (run_of x)"
  by (simp add: runs_def set_worker_def run_of_update)

lemma run_of_empty: "run_of w = [] \<longleftrightarrow> (\<forall>r. w \<noteq> Running r)"
  by (cases w) simp_all

lemma run_of_wake [simp]: "run_of (wake w) = run_of w"
  by (cases w) simp_all

lemma runs_simps [simp]:
  "runs (s\<lparr>aq_queue := q\<rparr>) = runs s" "runs (s\<lparr>aq_usage := us\<rparr>) = runs s" "runs (s\<lparr>aq_usage_map := m\<rparr>) = runs s"
  "runs (s\<lparr>aq_adding := rs\<rparr>) = runs s" "runs (s\<lparr>aq_pushed := rs\<rparr>) = runs s" "runs (s\<lparr>aq_started := rs\<rparr>) = runs s"
  "runs (s\<lparr>aq_late := b\<rparr>) = runs s" "runs (s\<lparr>aq_shutdown := b\<rparr>) = runs s" "runs (s\<lparr>aq_notifying := b\<rparr>) = runs s"
  by (simp_all add: runs_def)

lemma set_worker_simps [simp]:
  "aq_queue (set_worker w x s) = aq_queue s" "aq_usage (set_worker w x s) = aq_usage s" "aq_usage_map (set_worker w x s) = aq_usage_map s"
  "aq_adding (set_worker w x s) = aq_adding s" "aq_pushed (set_worker w x s) = aq_pushed s" "aq_started (set_worker w x s) = aq_started s"
  "aq_late (set_worker w x s) = aq_late s" "aq_shutdown (set_worker w x s) = aq_shutdown s" "aq_notifying (set_worker w x s) = aq_notifying s"
  "aq_workers (set_worker w x s) = (aq_workers s)[w := x]"
  by (simp_all add: set_worker_def)

lemma runs_idle:
  assumes "w < length (aq_workers s)" "run_of (aq_workers s ! w) = []"
  shows "runs (set_worker w x s) = runs s + mset (run_of x)"
  using runs_set_worker[OF assms(1), of x] assms(2) by simp

lemma runs_finish:
  assumes "w < length (aq_workers s)" "aq_workers s ! w = Running r" "run_of x = []"
  shows "runs s = add_mset r (runs (set_worker w x s))"
  using runs_set_worker[OF assms(1), of x] assms(2,3) by simp

definition blocked :: "app_queue \<Rightarrow> work_rec \<Rightarrow> bool" where
  "blocked s r \<longleftrightarrow> (\<exists>a u. w_usage r = Some a \<and> live (aq_usage s) a u \<and> u_running u)"

lemma find_work_ok:
  assumes "\<And>r a. r \<in> set q \<Longrightarrow> w_usage r = Some a \<Longrightarrow> \<exists>u. live (aq_usage s) a u"
  shows "find_work (aq_usage s) q = Inr None \<and> (\<forall>r \<in> set q. blocked s r) \<or>
    (\<exists>q1 r q2. find_work (aq_usage s) q = Inr (Some (r, q1 @ q2)) \<and> q = q1 @ r # q2 \<and> (\<forall>r' \<in> set q1. blocked s r') \<and> \<not> blocked s r)"
  using assms
proof (induction q)
  case (Cons r q)
  show ?case
  proof (cases "w_usage r")
    case None
    then have "find_work (aq_usage s) (r # q) = Inr (Some (r, [] @ q)) \<and> r # q = [] @ r # q \<and> \<not> blocked s r" by (simp add: blocked_def)
    then show ?thesis by (metis empty_iff list.set(1))
  next
    case (Some a)
    then obtain u where l: "live (aq_usage s) a u" using Cons(2) by (meson list.set_intros(1))
    then have d: "deref (aq_usage s) a = Inr u" by (simp add: deref_eq)
    have b: "blocked s r \<longleftrightarrow> u_running u" using Some l by (auto simp: blocked_def dest: live_unique[OF l])
    show ?thesis
    proof (cases "u_running u")
      case True
      consider (none) "find_work (aq_usage s) q = Inr None" "\<forall>r \<in> set q. blocked s r"
        | (found) q1 r' q2 where "find_work (aq_usage s) q = Inr (Some (r', q1 @ q2))" "q = q1 @ r' # q2" "\<forall>r' \<in> set q1. blocked s r'" "\<not> blocked s r'"
        using Cons(1) Cons(2) by (metis list.set_intros(2))
      then show ?thesis
      proof cases
        case none
        then show ?thesis using Some d True b by simp
      next
        case found
        then have "find_work (aq_usage s) (r # q) = Inr (Some (r', (r # q1) @ q2)) \<and> r # q = (r # q1) @ r' # q2
            \<and> (\<forall>r' \<in> set (r # q1). blocked s r') \<and> \<not> blocked s r'" using Some d True b by simp
        then show ?thesis by metis
      qed
    next
      case False
      then have "find_work (aq_usage s) (r # q) = Inr (Some (r, [] @ q)) \<and> r # q = [] @ r # q \<and> \<not> blocked s r" using Some d b by simp
      then show ?thesis by (metis empty_iff list.set(1))
    qed
  qed
qed simp

text \<open>The moves of a worker that change nothing else.\<close>

inductive moves :: "app_queue \<Rightarrow> worker \<Rightarrow> worker \<Rightarrow> bool" for s where
  find_empty: "x = Ready \<or> x = Empty_woken \<Longrightarrow> mutex_free s \<Longrightarrow> aq_queue s = [] \<Longrightarrow> y = (if aq_shutdown s then Exited else Empty_wait) \<Longrightarrow> moves s x y"
| find_blocked: "x = Ready \<or> x = Empty_woken \<Longrightarrow> mutex_free s \<Longrightarrow> aq_queue s \<noteq> [] \<Longrightarrow> \<forall>r \<in> set (aq_queue s). blocked s r \<Longrightarrow>
    y = (if aq_shutdown s then Exited else Blocked_wait) \<Longrightarrow> moves s x y"
| sleep_empty: "moves s Empty_wait Empty_asleep"
| sleep_blocked: "moves s Blocked_wait Blocked_asleep"
| resume: "mutex_free s \<Longrightarrow> y = (if aq_shutdown s then Exited else Ready) \<Longrightarrow> moves s Blocked_woken y"

lemma moves_idle: "moves s x y \<Longrightarrow> run_of x = [] \<and> run_of y = []"
  by (auto elim!: moves.cases)

lemma start_work_eq:
  assumes "w_usage r = Some a" "live (aq_usage s) a u"
  shows "start_work w r rs s = Inr (set_worker w (Running r) (s\<lparr>aq_usage := (aq_usage s)[a := Some (u\<lparr>u_running := True\<rparr>)], aq_queue := rs,
    aq_started := aq_started s @ [r]\<rparr>))"
  using assms by (simp add: start_work_def flip: deref_eq)

lemma usage_live: "aq_ok s \<Longrightarrow> r \<in># held s \<Longrightarrow> w_usage r = Some a \<Longrightarrow> \<exists>u. live (aq_usage s) a u \<and> u_thread_group u = w_group r"
  unfolding aq_ok_def by (drule (2) usage_inv_rec) (auto simp: in_group_def)

lemma aq_ok_same:
  assumes "aq_ok s" "held t = held s" "runs t = runs s" "aq_usage t = aq_usage s" "aq_usage_map t = aq_usage_map s"
  shows "aq_ok t"
  using assms by (simp add: aq_ok_def)

text \<open>What a step of a worker, and any step, does to everything but the usage records.\<close>

inductive works :: "app_queue \<Rightarrow> app_queue \<Rightarrow> bool" for s where
  started: "w < length (aq_workers s) \<Longrightarrow> aq_workers s ! w = Ready \<or> aq_workers s ! w = Empty_woken \<Longrightarrow> mutex_free s \<Longrightarrow>
    aq_queue s = q1 @ r # q2 \<Longrightarrow> \<forall>r' \<in> set q1. blocked s r' \<Longrightarrow> \<not> blocked s r \<Longrightarrow>
    t = set_worker w (Running r) (s\<lparr>aq_usage := us, aq_queue := q1 @ q2, aq_started := aq_started s @ [r]\<rparr>) \<Longrightarrow> works s t"
| moved: "w < length (aq_workers s) \<Longrightarrow> moves s (aq_workers s ! w) y \<Longrightarrow> t = set_worker w y s \<Longrightarrow> works s t"
| finished: "w < length (aq_workers s) \<Longrightarrow> aq_workers s ! w = Running r \<Longrightarrow>
    t = set_worker w Ready (s\<lparr>aq_usage := us, aq_usage_map := m\<rparr>) \<Longrightarrow> works s t"

inductive effect :: "app_queue \<Rightarrow> app_queue \<Rightarrow> bool" for s where
  added: "t = s\<lparr>aq_usage := us, aq_usage_map := m, aq_adding := aq_adding s @ [r]\<rparr> \<Longrightarrow> effect s t"
| queued: "mutex_free s \<Longrightarrow> aq_adding s = l @ r # l' \<Longrightarrow>
    t0 = s\<lparr>aq_queue := aq_queue s @ [r], aq_pushed := aq_pushed s @ [r], aq_adding := l @ l', aq_late := (aq_late s \<or> aq_shutdown s)\<rparr> \<Longrightarrow>
    (\<forall>w \<in> set (aq_workers s). \<not> asleep w) \<and> t = t0 \<or>
      w < length (aq_workers s) \<and> asleep (aq_workers s ! w) \<and> t = set_worker w (wake (aq_workers s ! w)) t0 \<Longrightarrow> effect s t"
| worked: "works s t \<Longrightarrow> effect s t"
| awakened: "w < length (aq_workers s) \<Longrightarrow> asleep (aq_workers s ! w) \<Longrightarrow> t = set_worker w (wake (aq_workers s ! w)) s \<Longrightarrow> effect s t"
| shut: "t = aq_set_shutdown s \<Longrightarrow> effect s t"
| notified: "aq_notifying s \<Longrightarrow> t = aq_notify_all s \<Longrightarrow> effect s t"

lemma held_simps [simp]:
  "held (s\<lparr>aq_usage := us\<rparr>) = held s" "held (s\<lparr>aq_usage_map := m\<rparr>) = held s" "held (s\<lparr>aq_pushed := rs\<rparr>) = held s"
  "held (s\<lparr>aq_started := rs\<rparr>) = held s" "held (s\<lparr>aq_late := b\<rparr>) = held s" "held (s\<lparr>aq_shutdown := b\<rparr>) = held s"
  "held (s\<lparr>aq_notifying := b\<rparr>) = held s"
  by (simp_all add: held_def)

lemma moved_ok:
  assumes "aq_ok s" "w < length (aq_workers s)" "run_of (aq_workers s ! w) = []" "run_of y = []"
  shows "aq_ok (set_worker w y s)"
  by (rule aq_ok_same[OF assms(1)]) (simp_all add: held_def runs_idle[OF assms(2,3)] assms(4))

lemma add_usage_ok:
  assumes "aq_ok s"
  shows "\<exists>t. add_usage h g s = Inr t \<and> effect s t \<and> aq_ok t"
proof -
  let ?r = "\<lambda>a. \<lparr>w_handler = h, w_group = g, w_usage = a\<rparr>"
  note inv = assms[unfolded aq_ok_def]
  have H: "held (s\<lparr>aq_adding := aq_adding s @ [r]\<rparr>) = add_mset r (held s)" for r by (simp add: held_def)
  consider "g = 0" | a where "g \<noteq> 0" "aq_usage_map s g = Some a" | "g \<noteq> 0" "aq_usage_map s g = None" by fastforce
  then show ?thesis
  proof cases
    case 1
    have "effect s (s\<lparr>aq_adding := aq_adding s @ [?r None]\<rparr>)" by (rule added[where us = "aq_usage s" and m = "aq_usage_map s"]) simp
    moreover have "aq_ok (s\<lparr>aq_adding := aq_adding s @ [?r None]\<rparr>)"
      unfolding aq_ok_def H by (simp, rule usage_inv_ungrouped[OF inv]) (use 1 usage_inv_sub[OF inv] in \<open>auto intro: subset_mset.order_trans\<close>)
    ultimately show ?thesis using 1 by (simp add: add_usage_def)
  next
    case (2 a)
    then obtain u where u: "live (aq_usage s) a u" "u_thread_group u = g" using usage_inv_map[OF inv 2(2)] by (auto simp: in_group_def)
    let ?u = "u\<lparr>u_outstanding := u_outstanding u + 1\<rparr>"
    let ?t = "s\<lparr>aq_usage := (aq_usage s)[a := Some ?u], aq_adding := aq_adding s @ [?r (Some a)]\<rparr>"
    have "usage_inv (add_mset (?r (Some a)) (held s)) (runs s) ((aq_usage s)[a := Some ?u]) (aq_usage_map s)"
      by (rule usage_inv_update[OF inv u(1)]) (use u usage_inv_live[OF inv u(1)] usage_inv_sub[OF inv] in \<open>auto intro: subset_mset.order_trans\<close>)
    then have "aq_ok ?t" using H[of "?r (Some a)"] by (simp add: aq_ok_def held_def)
    moreover have "effect s ?t" by (rule added[where m = "aq_usage_map s"]) simp
    ultimately show ?thesis using 2 u by (simp add: add_usage_def deref_eq[THEN iffD2])
  next
    case 3
    let ?a = "length (aq_usage s)"
    let ?t = "s\<lparr>aq_usage := aq_usage s @ [Some \<lparr>u_thread_group = g, u_running = False, u_outstanding = 1\<rparr>],
      aq_usage_map := (aq_usage_map s)(g \<mapsto> ?a), aq_adding := aq_adding s @ [?r (Some ?a)]\<rparr>"
    have "aq_ok ?t" using usage_inv_new[OF inv 3(2,1), of "?r (Some ?a)"] H[of "?r (Some ?a)"] by (simp add: aq_ok_def held_def)
    moreover have "effect s ?t" by (rule added) simp
    ultimately show ?thesis using 3 by (simp add: add_usage_def Let_def)
  qed
qed

lemma push_work_ok:
  assumes "aq_ok s" "push_work i k s = Some t"
  shows "effect s t \<and> aq_ok t"
proof -
  let ?l = "take i (aq_adding s)" and ?l' = "drop (Suc i) (aq_adding s)" and ?r = "aq_adding s ! i"
  let ?t = "s\<lparr>aq_queue := aq_queue s @ [?r], aq_pushed := aq_pushed s @ [?r], aq_adding := ?l @ ?l', aq_late := (aq_late s \<or> aq_shutdown s)\<rparr>"
  have g: "mutex_free s" "i < length (aq_adding s)" using assms(2) by (auto simp: push_work_def split: if_splits)
  have a: "aq_adding s = ?l @ ?r # ?l'" by (rule id_take_nth_drop[OF g(2)])
  have "mset (aq_adding s) = add_mset ?r (mset (?l @ ?l'))" using arg_cong[OF a, of mset] by (simp add: ac_simps)
  then have H: "held ?t = held s" by (simp add: held_def)
  have ok: "aq_ok ?t" by (rule aq_ok_same[OF assms(1) H]) simp_all
  have "(\<forall>w \<in> set (aq_workers s). \<not> asleep w) \<and> t = ?t \<or>
      (\<exists>w. w < length (aq_workers s) \<and> asleep (aq_workers s ! w) \<and> t = set_worker w (wake (aq_workers s ! w)) ?t)"
    using assms(2) by (auto simp: push_work_def Let_def list_all_iff split: if_splits option.splits)
  then consider "\<forall>w \<in> set (aq_workers s). \<not> asleep w" "t = ?t"
    | w where "w < length (aq_workers s)" "asleep (aq_workers s ! w)" "t = set_worker w (wake (aq_workers s ! w)) ?t" by blast
  then show ?thesis
  proof cases
    case 1
    then show ?thesis using ok queued[OF g(1) a refl] by blast
  next
    case (2 w)
    have "aq_ok t" unfolding 2(3) by (rule moved_ok[OF ok]) (use 2 in \<open>auto simp: asleep_def\<close>)
    then show ?thesis using 2 queued[OF g(1) a refl] by blast
  qed
qed

lemma start_work_ok:
  assumes ok: "aq_ok s" and w: "w < length (aq_workers s)" "aq_workers s ! w = Ready \<or> aq_workers s ! w = Empty_woken" "mutex_free s"
    and q: "aq_queue s = q1 @ r # q2" "\<forall>r' \<in> set q1. blocked s r'" "\<not> blocked s r"
  shows "\<exists>t. start_work w r (q1 @ q2) s = Inr t \<and> works s t \<and> aq_ok t"
proof -
  note inv = ok[unfolded aq_ok_def]
  let ?t = "\<lambda>us. set_worker w (Running r) (s\<lparr>aq_usage := us, aq_queue := q1 @ q2, aq_started := aq_started s @ [r]\<rparr>)"
  have idle: "run_of (aq_workers s ! w) = []" using w(2) by auto
  have R: "runs (?t us) = add_mset r (runs s)" for us using runs_idle[of w "s\<lparr>aq_usage := us, aq_queue := q1 @ q2, aq_started := aq_started s @ [r]\<rparr>"] w(1) idle by simp
  have H: "held (?t us) = held s" for us using R[of us] q(1) by (simp add: held_def)
  have e: "works s (?t us)" for us by (rule started[OF w q refl])
  have r: "r \<in># held s" "add_mset r (runs s) \<subseteq># held s" using q(1) by (simp_all add: held_def)
  show ?thesis
  proof (cases "w_usage r")
    case None
    have "usage_inv (held s) (add_mset r (runs s)) (aq_usage s) (aq_usage_map s)"
      by (rule usage_inv_ungrouped[OF inv]) (use None r in auto)
    then have "aq_ok (?t (aq_usage s))" unfolding aq_ok_def R H by simp
    moreover have "start_work w r (q1 @ q2) s = Inr (?t (aq_usage s))" using None by (simp add: start_work_def)
    ultimately show ?thesis using e by blast
  next
    case (Some a)
    then obtain u where u: "live (aq_usage s) a u" "u_thread_group u = w_group r" using usage_live[OF ok r(1)] by blast
    have nr: "\<not> u_running u" using q(3) Some u(1) by (auto simp: blocked_def)
    let ?us = "(aq_usage s)[a := Some (u\<lparr>u_running := True\<rparr>)]"
    have "usage_inv (held s) (add_mset r (runs s)) ?us (aq_usage_map s)"
      by (rule usage_inv_update[OF inv u(1)]) (use Some r nr usage_inv_live[OF inv u(1)] in auto)
    then have "aq_ok (?t ?us)" unfolding aq_ok_def R H by simp
    then show ?thesis using e start_work_eq[OF Some u(1)] by blast
  qed
qed

lemma take_work_ok:
  assumes ok: "aq_ok s" and w: "w < length (aq_workers s)" "aq_workers s ! w = Ready \<or> aq_workers s ! w = Empty_woken" "mutex_free s"
  shows "\<exists>t. take_work w s = Inr t \<and> works s t \<and> aq_ok t"
proof -
  have move: "works s (set_worker w y s) \<and> aq_ok (set_worker w y s)" if "moves s (aq_workers s ! w) y" for y
    using moved[OF w(1) that refl] moved_ok[OF ok w(1)] moves_idle[OF that] by blast
  have f: "\<exists>u. live (aq_usage s) a u" if "r \<in> set (aq_queue s)" "w_usage r = Some a" for r a
    using usage_live[OF ok, of r a] that by (auto simp: held_def)
  consider "aq_queue s = []"
    | "aq_queue s \<noteq> []" "find_work (aq_usage s) (aq_queue s) = Inr None" "\<forall>r \<in> set (aq_queue s). blocked s r"
    | q1 r q2 where "find_work (aq_usage s) (aq_queue s) = Inr (Some (r, q1 @ q2))" "aq_queue s = q1 @ r # q2" "\<forall>r' \<in> set q1. blocked s r'" "\<not> blocked s r"
    using find_work_ok[of "aq_queue s" s] f by (cases "aq_queue s = []") blast+
  then show ?thesis
  proof cases
    case 1
    then show ?thesis using move[OF find_empty[OF w(2,3) 1 refl]] by (auto simp: take_work_def)
  next
    case 2
    then show ?thesis using move[OF find_blocked[OF w(2,3) 2(1,3) refl]] by (auto simp: take_work_def)
  next
    case (3 q1 r q2)
    then show ?thesis using start_work_ok[OF ok w 3(2,3,4)] by (simp add: take_work_def)
  qed
qed

lemma finish_work_ok:
  assumes ok: "aq_ok s" and w: "w < length (aq_workers s)" "aq_workers s ! w = Running r"
  shows "\<exists>t. finish_work w r s = Inr t \<and> works s t \<and> aq_ok t"
proof -
  note inv = ok[unfolded aq_ok_def]
  let ?t = "\<lambda>us m. set_worker w Ready (s\<lparr>aq_usage := us, aq_usage_map := m\<rparr>)"
  define R' H' where "R' = runs (set_worker w Ready s)" and "H' = mset (aq_queue s) + mset (aq_adding s) + R'"
  have R: "runs s = add_mset r R'" using runs_finish[OF w, of Ready] by (simp add: R'_def)
  then have H: "held s = add_mset r H'" by (simp add: held_def H'_def)
  have t: "runs (?t us m) = R'" "held (?t us m) = H'" for us m
    by (simp_all add: R'_def H'_def held_def runs_def)
  have e: "works s (?t us m)" for us m by (rule finished[OF w refl])
  have sub: "R' \<subseteq># H'" by (simp add: H'_def)
  show ?thesis
  proof (cases "w_usage r")
    case None
    have "usage_inv H' R' (aq_usage s) (aq_usage_map s)"
      by (rule usage_inv_ungrouped[OF inv]) (use None sub in \<open>auto simp: R H\<close>)
    then have "aq_ok (?t (aq_usage s) (aq_usage_map s))" unfolding aq_ok_def t by simp
    moreover have "finish_work w r s = Inr (?t (aq_usage s) (aq_usage_map s))" using None by (simp add: finish_work_def)
    ultimately show ?thesis using e by blast
  next
    case (Some a)
    then obtain u where u: "live (aq_usage s) a u" using usage_live[OF ok, of r a] H by auto
    let ?u = "u\<lparr>u_running := False, u_outstanding := u_outstanding u - 1\<rparr>"
    have d: "deref (aq_usage s) a = Inr u" using u by (simp add: deref_eq)
    have z: "users a R' = 0" using usage_inv_live(5)[OF inv u] Some by (simp add: R split: if_splits)
    show ?thesis
    proof (cases "u_outstanding u = 1")
      case True
      have "aq_ok (?t ((aq_usage s)[a := None]) ((aq_usage_map s)(u_thread_group u := None)))"
        using usage_inv_delete[OF inv[unfolded R H] Some u True] unfolding aq_ok_def t by simp
      moreover have "finish_work w r s = Inr (?t ((aq_usage s)[a := None]) ((aq_usage_map s)(u_thread_group u := None)))"
        using Some d True by (cases s) (simp add: finish_work_def Let_def)
      ultimately show ?thesis using e by blast
    next
      case False
      have "usage_inv H' R' ((aq_usage s)[a := Some ?u]) (aq_usage_map s)"
      proof (rule usage_inv_update[OF inv u])
        have "u_outstanding u = int (Suc (users a H'))" using usage_inv_live(3)[OF inv u] Some by (simp add: H)
        then show "u_outstanding ?u = int (users a H')" "0 < users a H'" using False by simp_all
      qed (use Some z sub in \<open>auto simp: R H\<close>)
      then have "aq_ok (?t ((aq_usage s)[a := Some ?u]) (aq_usage_map s))" unfolding aq_ok_def t by simp
      moreover have "finish_work w r s = Inr (?t ((aq_usage s)[a := Some ?u]) (aq_usage_map s))"
        using Some d False by (simp add: finish_work_def Let_def)
      ultimately show ?thesis using e by blast
    qed
  qed
qed

lemma worker_step_ok:
  assumes ok: "aq_ok s" and x: "worker_step w s = Some x"
  shows "\<exists>t. x = Inr t \<and> works s t \<and> aq_ok t"
proof -
  have w: "w < length (aq_workers s)" using x by (auto simp: worker_step_def split: if_splits)
  have "works s (set_worker w y s) \<and> aq_ok (set_worker w y s)" if "moves s (aq_workers s ! w) y" for y
    using moved[OF w that refl] moved_ok[OF ok w] moves_idle[OF that] by blast
  then show ?thesis
    using x w take_work_ok[OF ok w] finish_work_ok[OF ok w] moves.intros(3,4)[of s] resume[of s, OF _ refl]
    by (auto simp: worker_step_def split: worker.splits if_splits)
qed

lemma aq_step_ok:
  assumes ok: "aq_ok s" and st: "aq_step a s = Some x"
  shows "\<exists>t. x = Inr t \<and> effect s t \<and> aq_ok t"
proof (cases a)
  case (Add h g)
  then show ?thesis using st add_usage_ok[OF ok, of h g] by (simp add: aq_step_def)
next
  case (Push i k)
  then show ?thesis using st push_work_ok[OF ok] by (auto simp: aq_step_def)
next
  case (Work w)
  then show ?thesis using st worker_step_ok[OF ok, of w x] worked[of s] by (auto simp: aq_step_def)
next
  case (Spurious w)
  then have w: "w < length (aq_workers s)" "asleep (aq_workers s ! w)" "x = Inr (set_worker w (wake (aq_workers s ! w)) s)"
    using st by (auto simp: aq_step_def split: if_splits)
  have "aq_ok (set_worker w (wake (aq_workers s ! w)) s)" by (rule moved_ok[OF ok w(1)]) (use w(2) in \<open>auto simp: asleep_def\<close>)
  then show ?thesis using w awakened[OF w(1,2) refl] by blast
next
  case Shutdown
  then show ?thesis using st shut[OF refl, of s] aq_ok_same[OF ok, of "aq_set_shutdown s"] by (auto simp: aq_step_def aq_set_shutdown_def)
next
  case Notify_all
  have "concat (map (run_of \<circ> wake) (aq_workers s)) = concat (map run_of (aq_workers s))" by (simp add: comp_def)
  then have "runs (aq_notify_all s) = runs s" by (simp add: runs_def aq_notify_all_def)
  then have "aq_ok (aq_notify_all s)" by (intro aq_ok_same[OF ok]) (simp_all add: held_def aq_notify_all_def)
  then show ?thesis using st notified[OF _ refl, of s] Notify_all by (auto simp: aq_step_def split: if_splits)
qed

lemma aq_reach_ok: "aq_reach n s \<Longrightarrow> aq_ok s"
proof (induction rule: aq_reach.induct)
  case start
  have "concat (map run_of (replicate n Ready)) = []" by (induction n) simp_all
  then show ?case by (simp add: aq_ok_def aq_new_def held_def runs_def usage_inv_def live_def)
next
  case (step s a s')
  then show ?case using aq_step_ok[OF step(3,2)] by simp
qed

section \<open>One at a time and in order\<close>

lemma same_record:
  assumes ok: "aq_ok s" and r: "r \<in># held s" "r' \<in># held s" "w_group r = w_group r'" "w_group r \<noteq> 0"
  shows "\<exists>a. w_usage r = Some a \<and> w_usage r' = Some a"
proof -
  note inv = ok[unfolded aq_ok_def]
  have "w_usage r'' = aq_usage_map s (w_group r) \<and> w_usage r'' \<noteq> None" if h: "r'' \<in># held s" "w_group r'' = w_group r" for r''
  proof (cases "w_usage r''")
    case None
    then show ?thesis using usage_inv_none[OF inv h(1)] h(2) r(4) by simp
  next
    case (Some a)
    then obtain u where "live (aq_usage s) a u" "u_thread_group u = w_group r''" using usage_live[OF ok h(1)] by blast
    then show ?thesis using usage_inv_live(1)[OF inv, of a u] Some h(2) by simp
  qed
  from this[OF r(1)] this[OF r(2)] r(3) show ?thesis by (metis option.exhaust)
qed

lemma blocked_group:
  assumes "aq_ok s" "r \<in># held s" "r' \<in># held s" "w_group r = w_group r'" "w_group r \<noteq> 0"
  shows "blocked s r = blocked s r'"
  using same_record[OF assms] by (auto simp: blocked_def)

lemma two_running:
  assumes "i < length (aq_workers s)" "j < length (aq_workers s)" "i \<noteq> j" "aq_workers s ! i = Running r" "aq_workers s ! j = Running r'"
  shows "{#r, r'#} \<subseteq># runs s"
proof -
  let ?t = "set_worker i Ready s"
  have "runs s = add_mset r (runs ?t)" using runs_finish[OF assms(1,4), of Ready] by simp
  moreover have "runs ?t = add_mset r' (runs (set_worker j Ready ?t))" using runs_finish[of j ?t r' Ready] assms by simp
  ultimately show ?thesis by simp
qed

text \<open>C7. Whatever the interleaving of the threads - requests being added, workers taking and finishing them, sleeping, waking, spurious
  wakeups, shutdowns - no usage record is used after its deletion, two workers never carry out requests of the same thread group
  at the same time, and there is a usage record for exactly the groups that have requests.\<close>

theorem app_queue_serializes:
  assumes "aq_reach n s"
  shows "(\<forall>a x. aq_step a s = Some x \<longrightarrow> (\<exists>t. x = Inr t)) \<and>
    (\<forall>i j r r'. i < length (aq_workers s) \<longrightarrow> j < length (aq_workers s) \<longrightarrow> aq_workers s ! i = Running r \<longrightarrow> aq_workers s ! j = Running r' \<longrightarrow>
      w_group r = w_group r' \<longrightarrow> w_group r \<noteq> 0 \<longrightarrow> i = j) \<and>
    dom (aq_usage_map s) = w_group ` set_mset (held s) - {0}"
proof (intro conjI allI impI)
  note ok = aq_reach_ok[OF assms]
  note inv = ok[unfolded aq_ok_def]
  show "\<exists>t. x = Inr t" if "aq_step a s = Some x" for a x using aq_step_ok[OF ok that] by blast
  show "i = j" if w: "i < length (aq_workers s)" "j < length (aq_workers s)" "aq_workers s ! i = Running r" "aq_workers s ! j = Running r'"
    and g: "w_group r = w_group r'" "w_group r \<noteq> 0" for i j r r'
  proof (rule ccontr)
    assume "i \<noteq> j"
    then have sub: "{#r, r'#} \<subseteq># runs s" using two_running w by blast
    then have h: "r \<in># held s" "r' \<in># held s" using usage_inv_sub[OF inv] by (auto dest: mset_subset_eqD subset_mset.order_trans)
    obtain a where a: "w_usage r = Some a" "w_usage r' = Some a" using same_record[OF ok h g] by blast
    then obtain u where "live (aq_usage s) a u" using usage_live[OF ok h(1)] by blast
    then have "users a (runs s) \<le> 1" using usage_inv_live(5)[OF inv] by auto
    moreover have "users a {#r, r'#} \<le> users a (runs s)" by (rule users_mono[OF sub])
    ultimately show False using a by simp
  qed
  show "dom (aq_usage_map s) = w_group ` set_mset (held s) - {0}"
  proof (intro equalityI subsetI)
    fix g assume "g \<in> dom (aq_usage_map s)"
    then obtain a where "aq_usage_map s g = Some a" by blast
    then obtain u where u: "live (aq_usage s) a u" "u_thread_group u = g" using usage_inv_map[OF inv] by (auto simp: in_group_def)
    then have "users a (held s) \<noteq> 0" "g \<noteq> 0" using usage_inv_live[OF inv u(1)] by auto
    then obtain r where r: "r \<in># held s" "w_usage r = Some a" by (auto simp: users_zero)
    then show "g \<in> w_group ` set_mset (held s) - {0}" using usage_live[OF ok r] u(2) \<open>g \<noteq> 0\<close> by (auto dest: live_unique[OF u(1)])
  next
    fix g assume "g \<in> w_group ` set_mset (held s) - {0}"
    then obtain r where r: "r \<in># held s" "w_group r = g" "g \<noteq> 0" by auto
    then obtain a where a: "w_usage r = Some a" using usage_inv_none[OF inv r(1)] by fastforce
    then obtain u where "live (aq_usage s) a u" "u_thread_group u = g" using usage_live[OF ok r(1)] r(2) by auto
    then show "g \<in> dom (aq_usage_map s)" using usage_inv_live(1)[OF inv] by blast
  qed
qed

definition of_group :: "u64 \<Rightarrow> work_rec list \<Rightarrow> work_rec list" where
  "of_group g rs = filter (\<lambda>r. w_group r = g) rs"

lemma of_group_append [simp]: "of_group g (xs @ ys) = of_group g xs @ of_group g ys"
  by (simp add: of_group_def)

lemma started_order:
  assumes ok: "aq_ok s" and q: "aq_queue s = q1 @ r # q2" "\<forall>r' \<in> set q1. blocked s r'" "\<not> blocked s r" and g: "g \<noteq> 0"
  shows "of_group g ([r] @ q1 @ q2) = of_group g (aq_queue s)"
proof (cases "w_group r = g")
  case True
  have "w_group r' \<noteq> g" if "r' \<in> set q1" for r'
    using blocked_group[OF ok, of r r'] q that True g by (auto simp: held_def)
  then have "of_group g q1 = []" by (simp add: of_group_def filter_empty_conv)
  then show ?thesis using q(1) by (simp add: of_group_def)
qed (simp add: q(1) of_group_def)

lemma works_order:
  assumes "aq_ok s" "works s t"
  shows "mset (aq_started t) + mset (aq_queue t) = mset (aq_started s) + mset (aq_queue s)" "aq_pushed t = aq_pushed s"
    "g \<noteq> 0 \<Longrightarrow> of_group g (aq_started t @ aq_queue t) = of_group g (aq_started s @ aq_queue s)"
    "aq_late t = aq_late s" "aq_notifying t = aq_notifying s" "length (aq_workers t) = length (aq_workers s)"
  using assms(2) by (cases; use started_order[OF assms(1)] in simp; fail)+

lemma effect_order:
  assumes "aq_ok s" "effect s t"
    and "mset (aq_started s) + mset (aq_queue s) = mset (aq_pushed s)" "\<And>g. g \<noteq> 0 \<Longrightarrow> of_group g (aq_started s @ aq_queue s) = of_group g (aq_pushed s)"
  shows "mset (aq_started t) + mset (aq_queue t) = mset (aq_pushed t)" "g \<noteq> 0 \<Longrightarrow> of_group g (aq_started t @ aq_queue t) = of_group g (aq_pushed t)"
  using assms(2) by (cases; use assms(3,4) works_order[OF assms(1), of t] in \<open>auto simp: aq_set_shutdown_def aq_notify_all_def\<close>; fail)+

lemma aq_reach_order:
  assumes "aq_reach n s"
  shows "mset (aq_started s) + mset (aq_queue s) = mset (aq_pushed s)" "g \<noteq> 0 \<Longrightarrow> of_group g (aq_started s @ aq_queue s) = of_group g (aq_pushed s)"
proof -
  have "mset (aq_started s) + mset (aq_queue s) = mset (aq_pushed s) \<and> (\<forall>g. g \<noteq> 0 \<longrightarrow> of_group g (aq_started s @ aq_queue s) = of_group g (aq_pushed s))"
    using assms
  proof (induction rule: aq_reach.induct)
    case (step s a s')
    have ok: "aq_ok s" using aq_reach_ok[OF step(1)] .
    have e: "effect s s'" using aq_step_ok[OF ok step(2)] by auto
    show ?case using effect_order[OF ok e] step(3) by blast
  qed (simp add: aq_new_def)
  then show "mset (aq_started s) + mset (aq_queue s) = mset (aq_pushed s)" "g \<noteq> 0 \<Longrightarrow> of_group g (aq_started s @ aq_queue s) = of_group g (aq_pushed s)"
    by auto
qed

text \<open>C8. No request is lost or carried out twice, and the requests of a thread group are carried out in the order they were queued:
  in every reachable state the requests started and those still queued are together the requests queued so far, and for each
  thread group the started requests followed by the queued ones are exactly the sequence in which they were queued.\<close>

theorem app_queue_order:
  assumes "aq_reach n s"
  shows "mset (aq_started s) + mset (aq_queue s) = mset (aq_pushed s) \<and>
    (\<forall>g. g \<noteq> 0 \<longrightarrow> of_group g (aq_started s) @ of_group g (aq_queue s) = of_group g (aq_pushed s))"
  using aq_reach_order[OF assms] by simp

section \<open>Nothing stays behind\<close>

definition active :: "worker \<Rightarrow> bool" where
  "active w \<longleftrightarrow> w = Ready \<or> w = Empty_woken \<or> run_of w \<noteq> []"

text \<open>What keeps the queue from being forgotten. A worker goes to the first wait only when the queue is empty. Before a shutdown some
  worker is under way whenever something is queued, and some worker is not in the second wait. After the shutdown, unless more is
  queued, whatever is queued keeps a worker busy that will not give up.\<close>

definition watched :: "app_queue \<Rightarrow> bool" where
  "watched s \<longleftrightarrow>
     (Empty_wait \<in> set (aq_workers s) \<longrightarrow> aq_queue s = []) \<and> (Exited \<in> set (aq_workers s) \<longrightarrow> aq_shutdown s) \<and> aq_workers s \<noteq> [] \<and>
     (\<not> aq_shutdown s \<longrightarrow> aq_queue s \<noteq> [] \<longrightarrow> (\<exists>w \<in> set (aq_workers s). active w \<or> w = Blocked_woken)) \<and>
     (\<not> aq_late s \<longrightarrow> aq_queue s \<noteq> [] \<or> \<not> aq_shutdown s \<longrightarrow> (\<exists>w \<in> set (aq_workers s). active w \<or> w = Empty_wait \<or> w = Empty_asleep)) \<and>
     (\<not> aq_late s \<longrightarrow> aq_shutdown s \<longrightarrow> \<not> aq_notifying s \<longrightarrow> aq_queue s \<noteq> [] \<longrightarrow> (\<exists>w \<in> set (aq_workers s). active w))"

lemma ex_update:
  assumes "w < length ws" "P (ws ! w) \<Longrightarrow> P y"
  shows "\<exists>x \<in> set ws. P x \<Longrightarrow> \<exists>x \<in> set (ws[w := y]). P x" "P y \<Longrightarrow> \<exists>x \<in> set (ws[w := y]). P x"
proof -
  show "P y \<Longrightarrow> \<exists>x \<in> set (ws[w := y]). P x" using set_update_memI[OF assms(1)] by blast
  assume "\<exists>x \<in> set ws. P x"
  then obtain i where i: "i < length ws" "P (ws ! i)" by (auto simp: in_set_conv_nth)
  then have "P (ws[w := y] ! i)" using assms by (cases "i = w") auto
  then show "\<exists>x \<in> set (ws[w := y]). P x" using i(1) by (metis length_list_update nth_mem)
qed

lemma blocked_running:
  assumes "aq_ok s" "r \<in> set (aq_queue s)" "blocked s r"
  shows "\<exists>w \<in> set (aq_workers s). run_of w \<noteq> []"
proof -
  obtain a u where "live (aq_usage s) a u" "u_running u" using assms(3) by (auto simp: blocked_def)
  then have "users a (runs s) = 1" using usage_inv_live(5)[OF assms(1)[unfolded aq_ok_def]] by auto
  then have "runs s \<noteq> {#}" by auto
  then show ?thesis by (auto simp: runs_def)
qed

lemma blocked_watched:
  assumes w: "watched s" and w': "i < length (aq_workers s)" "aq_workers s ! i = Ready \<or> aq_workers s ! i = Empty_woken"
    and r: "\<exists>x \<in> set (aq_workers s). run_of x \<noteq> []" and y: "y = Exited \<and> aq_shutdown s \<or> y = Blocked_wait"
  shows "watched (set_worker i y s)"
proof -
  have "\<exists>x \<in> set ((aq_workers s)[i := y]). run_of x \<noteq> []" by (rule ex_update(1)[OF w'(1) _ r]) (use w'(2) in auto)
  then have a: "\<exists>x \<in> set ((aq_workers s)[i := y]). active x" by (auto simp: active_def)
  have "set ((aq_workers s)[i := y]) \<subseteq> insert y (set (aq_workers s))" by (rule set_update_subset_insert)
  then show ?thesis using w a y unfolding watched_def by (auto split del: if_split)
qed

lemma active_watched:
  assumes w: "watched s" and i: "i < length (aq_workers s)" "active y"
    and t: "aq_workers t = (aq_workers s)[i := y]" "aq_shutdown t = aq_shutdown s" "Empty_wait \<in> set (aq_workers s) \<Longrightarrow> aq_queue t = []"
  shows "watched t"
proof -
  have a: "\<exists>x \<in> set (aq_workers t). active x" unfolding t(1) using ex_update(2)[OF i(1), of active y] i(2) by blast
  have "set (aq_workers t) \<subseteq> insert y (set (aq_workers s))" unfolding t(1) by (rule set_update_subset_insert)
  moreover have "y \<noteq> Empty_wait" "y \<noteq> Exited" "aq_workers t \<noteq> []" using i t(1) by (auto simp: active_def)
  ultimately show ?thesis using w a t(2,3) unfolding watched_def by (intro conjI impI) blast+
qed

lemma mutex_free_simps: "mutex_free s \<longleftrightarrow> Empty_wait \<notin> set (aq_workers s) \<and> Blocked_wait \<notin> set (aq_workers s)"
  by (auto simp: mutex_free_def holds_mutex_def list_all_iff)

text \<open>A worker that falls asleep, or is woken, in one of the waits.\<close>

lemma step_watched:
  assumes w: "watched s" and i: "i < length (aq_workers s)"
    and y: "(aq_workers s ! i, y) \<in> {(Empty_wait, Empty_asleep), (Blocked_wait, Blocked_asleep), (Empty_asleep, Empty_woken), (Blocked_asleep, Blocked_woken)}"
  shows "watched (set_worker i y s)"
proof -
  note ex = ex_update(1)[OF i(1), of _ y]
  have "set ((aq_workers s)[i := y]) \<subseteq> insert y (set (aq_workers s))" by (rule set_update_subset_insert)
  moreover have "y \<noteq> Empty_wait" "y \<noteq> Exited" "(aq_workers s)[i := y] \<noteq> []" using y i by auto
  moreover have "\<exists>x \<in> set (aq_workers s). active x \<or> x = Blocked_woken \<Longrightarrow> \<exists>x \<in> set ((aq_workers s)[i := y]). active x \<or> x = Blocked_woken"
    "\<exists>x \<in> set (aq_workers s). active x \<or> x = Empty_wait \<or> x = Empty_asleep \<Longrightarrow> \<exists>x \<in> set ((aq_workers s)[i := y]). active x \<or> x = Empty_wait \<or> x = Empty_asleep"
    "\<exists>x \<in> set (aq_workers s). active x \<Longrightarrow> \<exists>x \<in> set ((aq_workers s)[i := y]). active x"
    by (rule ex; use y in \<open>auto simp: active_def\<close>)+
  ultimately show ?thesis using w unfolding watched_def by (auto split del: if_split)
qed

lemma works_watched:
  assumes "aq_ok s" "watched s" "works s t"
  shows "watched t"
  using assms(3)
proof cases
  case (started w q1 r q2 us)
  then show ?thesis by (intro active_watched[OF assms(2) started(1), of "Running r"]) (auto simp: active_def mutex_free_simps)
next
  case (finished w r us m)
  then show ?thesis using assms(2) by (intro active_watched[OF assms(2) finished(1), of Ready]) (auto simp: active_def watched_def)
next
  case (moved w y)
  from moved(2) show ?thesis
  proof cases
    case find_empty
    then show ?thesis
    proof (cases "aq_shutdown s")
      case True
      have "set ((aq_workers s)[w := Exited]) \<subseteq> insert Exited (set (aq_workers s))" by (rule set_update_subset_insert)
      then show ?thesis using assms(2) True find_empty moved unfolding watched_def by (auto split del: if_split)
    next
      case False
      have "set ((aq_workers s)[w := Empty_wait]) \<subseteq> insert Empty_wait (set (aq_workers s))" by (rule set_update_subset_insert)
      moreover have "Empty_wait \<in> set ((aq_workers s)[w := Empty_wait])" by (rule set_update_memI[OF moved(1)])
      ultimately show ?thesis using assms(2) False find_empty moved unfolding watched_def by (auto split del: if_split)
    qed
  next
    case find_blocked
    then have "\<exists>x \<in> set (aq_workers s). run_of x \<noteq> []" using blocked_running[OF assms(1)] by (metis list.set_sel(1))
    then show ?thesis using blocked_watched[OF assms(2) moved(1) find_blocked(1)] find_blocked(5) moved(3) by auto
  next
    case sleep_empty
    then show ?thesis using step_watched[OF assms(2) moved(1), of y] moved(3) by auto
  next
    case sleep_blocked
    then show ?thesis using step_watched[OF assms(2) moved(1), of y] moved(3) by auto
  next
    case resume
    show ?thesis
    proof (cases "aq_shutdown s")
      case True
      note ex = ex_update(1)[OF moved(1), of _ Exited]
      have "set ((aq_workers s)[w := Exited]) \<subseteq> insert Exited (set (aq_workers s))" by (rule set_update_subset_insert)
      moreover have "\<exists>x \<in> set (aq_workers s). active x \<or> x = Empty_wait \<or> x = Empty_asleep \<Longrightarrow> \<exists>x \<in> set ((aq_workers s)[w := Exited]). active x \<or> x = Empty_wait \<or> x = Empty_asleep"
        "\<exists>x \<in> set (aq_workers s). active x \<Longrightarrow> \<exists>x \<in> set ((aq_workers s)[w := Exited]). active x"
        by (rule ex; use resume in \<open>auto simp: active_def\<close>)+
      ultimately show ?thesis using assms(2) True resume moved(3) unfolding watched_def by (auto split del: if_split)
    next
      case False
      then show ?thesis using assms(2) resume moved by (intro active_watched[OF assms(2) moved(1), of Ready]) (auto simp: active_def mutex_free_simps)
    qed
  qed
qed

lemma wake_active: "active w \<Longrightarrow> active (wake w)" "w = Empty_asleep \<Longrightarrow> active (wake w)" "w = Blocked_woken \<Longrightarrow> wake w = Blocked_woken"
  "wake w = Empty_wait \<longleftrightarrow> w = Empty_wait" "wake w = Exited \<longleftrightarrow> w = Exited" "wake w \<noteq> Empty_asleep"
  by (cases w; simp add: active_def)+

lemma queued_watched:
  assumes w: "watched s" and e: "mutex_free s"
    "t0 = s\<lparr>aq_queue := aq_queue s @ [r], aq_pushed := aq_pushed s @ [r], aq_adding := l, aq_late := (aq_late s \<or> aq_shutdown s)\<rparr>"
    "(\<forall>w \<in> set (aq_workers s). \<not> asleep w) \<and> t = t0 \<or> w < length (aq_workers s) \<and> asleep (aq_workers s ! w) \<and> t = set_worker w (wake (aq_workers s ! w)) t0"
  shows "watched t"
  using e(3)
proof (elim disjE conjE)
  assume n: "\<forall>w \<in> set (aq_workers s). \<not> asleep w" and t: "t = t0"
  have ne: "aq_workers s \<noteq> []" and ex: "Exited \<in> set (aq_workers s) \<Longrightarrow> aq_shutdown s" using w by (simp_all add: watched_def)
  have "active x \<or> x = Blocked_woken" if "x \<in> set (aq_workers s)" "\<not> aq_shutdown s" for x
    by (cases x; use that n e(1) ex in \<open>auto simp: asleep_def mutex_free_simps active_def\<close>)
  then have "\<not> aq_shutdown s \<Longrightarrow> \<exists>x \<in> set (aq_workers s). active x \<or> x = Blocked_woken" using hd_in_set[OF ne] by blast
  then show ?thesis using w e(1) unfolding t e(2) watched_def mutex_free_simps by simp
next
  assume i: "w < length (aq_workers s)" "asleep (aq_workers s ! w)" and t: "t = set_worker w (wake (aq_workers s ! w)) t0"
  show ?thesis
  proof (cases "aq_workers s ! w = Empty_asleep")
    case True
    then show ?thesis using e(1) i by (intro active_watched[OF w i(1), of Empty_woken]) (auto simp: t e(2) active_def mutex_free_simps)
  next
    case False
    then have b: "aq_workers s ! w = Blocked_asleep" using i(2) by (simp add: asleep_def)
    have "set ((aq_workers s)[w := Blocked_woken]) \<subseteq> insert Blocked_woken (set (aq_workers s))" by (rule set_update_subset_insert)
    moreover have "Blocked_woken \<in> set ((aq_workers s)[w := Blocked_woken])" by (rule set_update_memI[OF i(1)])
    moreover have "\<exists>x \<in> set (aq_workers s). active x \<or> x = Empty_wait \<or> x = Empty_asleep \<Longrightarrow> \<exists>x \<in> set ((aq_workers s)[w := Blocked_woken]). active x \<or> x = Empty_wait \<or> x = Empty_asleep"
      by (rule ex_update(1)[OF i(1)]) (use b in \<open>auto simp: active_def\<close>)
    ultimately show ?thesis using w e(1) b unfolding t e(2) watched_def mutex_free_simps by (auto split del: if_split)
  qed
qed

lemma effect_watched:
  assumes "aq_ok s" "watched s" "effect s t"
  shows "watched t"
  using assms(3)
proof cases
  case (queued l r l' t0 w)
  then show ?thesis using queued_watched[OF assms(2) queued(1,3,4)] by blast
next
  case worked
  then show ?thesis using works_watched[OF assms(1,2)] by blast
next
  case (awakened w)
  then show ?thesis using step_watched[OF assms(2) awakened(1), of "wake (aq_workers s ! w)"] by (auto simp: asleep_def)
next
  case notified
  have W: "\<exists>w \<in> set (map wake (aq_workers s)). P w" if "\<exists>w \<in> set (aq_workers s). Q w" "\<And>w. Q w \<Longrightarrow> P (wake w)" for P Q :: "worker \<Rightarrow> bool"
    using that by auto
  have "\<exists>x \<in> set (aq_workers s). active x \<or> x = Blocked_woken \<Longrightarrow> \<exists>x \<in> set (map wake (aq_workers s)). active x \<or> x = Blocked_woken"
    and 3: "\<exists>x \<in> set (aq_workers s). active x \<or> x = Empty_wait \<or> x = Empty_asleep \<Longrightarrow> \<exists>x \<in> set (map wake (aq_workers s)). active x \<or> x = Empty_wait \<or> x = Empty_asleep"
    by (erule W; use wake_active in blast)+
  moreover have "x \<noteq> Empty_asleep" if "x \<in> set (map wake (aq_workers s))" for x using that wake_active(6) by auto
  moreover have "Empty_wait \<in> set (map wake (aq_workers s)) \<longrightarrow> aq_queue s = []" "Exited \<in> set (map wake (aq_workers s)) \<longrightarrow> aq_shutdown s"
    using assms(2) wake_active(4,5) unfolding watched_def by (metis (no_types, lifting) imageE list.set_map)+
  moreover have "map wake (aq_workers s) \<noteq> []" using assms(2) by (simp add: watched_def)
  ultimately show ?thesis using assms(2) unfolding notified(2) watched_def aq_notify_all_def
    by (intro conjI impI; simp del: set_map map_is_Nil_conv; blast)
qed (use assms(2) in \<open>auto simp: watched_def aq_set_shutdown_def\<close>)

lemma aq_reach_watched: "aq_reach n s \<Longrightarrow> watched s"
proof (induction rule: aq_reach.induct)
  case start
  then show ?case by (auto simp: watched_def aq_new_def active_def)
next
  case (step s a s')
  note ok = aq_reach_ok[OF step(1)]
  have "effect s s'" using aq_step_ok[OF ok step(2)] by auto
  then show ?case by (rule effect_watched[OF ok step(3)])
qed

text \<open>Worker activity ends: every step of a worker uses up weight.\<close>

fun weight :: "worker \<Rightarrow> nat" where
  "weight Ready = 2"
| "weight Empty_woken = 2"
| "weight Blocked_woken = 3"
| "weight (Running r) = 3"
| "weight Empty_wait = 1"
| "weight Blocked_wait = 1"
| "weight w = 0"

definition total_weight :: "app_queue \<Rightarrow> nat" where
  "total_weight s = sum_list (map weight (aq_workers s)) + 2 * length (aq_queue s)"

lemma weight_update: "i < length ws \<Longrightarrow> sum_list (map weight (ws[i := y])) + weight (ws ! i) = sum_list (map weight ws) + weight y"
proof (induction ws arbitrary: i)
  case (Cons w ws)
  then show ?case by (cases i) auto
qed simp

lemma works_weight: "works s t \<Longrightarrow> total_weight t < total_weight s"
proof (induction rule: works.induct)
  case (started w q1 r q2 t us)
  then show ?case using weight_update[OF started(1), of "Running r"] by (auto simp: total_weight_def)
next
  case (moved w y t)
  have "weight y < weight (aq_workers s ! w)" using moved(2) by cases (auto split: if_splits)
  then show ?case using weight_update[OF moved(1), of y] moved(3) by (simp add: total_weight_def)
next
  case (finished w r t us m)
  then show ?case using weight_update[OF finished(1), of Ready] by (auto simp: total_weight_def)
qed

fun worker_steps :: "nat list \<Rightarrow> app_queue \<Rightarrow> app_queue result option" where
  "worker_steps [] s = Some (Inr s)"
| "worker_steps (w # ws) s = (case worker_step w s of None \<Rightarrow> None | Some (Inl e) \<Rightarrow> Some (Inl e) | Some (Inr t) \<Rightarrow> worker_steps ws t)"

lemma worker_steps_reach:
  "aq_reach n s \<Longrightarrow> worker_steps ws s = Some (Inr t) \<Longrightarrow>
    aq_reach n t \<and> length ws + total_weight t \<le> total_weight s \<and> aq_pushed t = aq_pushed s \<and> aq_late t = aq_late s \<and> aq_notifying t = aq_notifying s"
proof (induction ws arbitrary: s)
  case (Cons w ws)
  note ok = aq_reach_ok[OF Cons(2)]
  obtain s1 where 1: "worker_step w s = Some (Inr s1)" "worker_steps ws s1 = Some (Inr t)"
    using Cons(3) by (auto split: option.splits sum.splits)
  have wk: "works s s1" using worker_step_ok[OF ok 1(1)] by auto
  have "aq_reach n s1" by (rule aq_reach.step[OF Cons(2), of "Work w"]) (simp add: aq_step_def 1(1))
  from Cons(1)[OF this 1(2)] works_order[OF ok wk] works_weight[OF wk] show ?case by auto
qed simp

lemma quiescent:
  assumes "aq_reach n s" "\<forall>w. worker_step w s = None" "\<not> aq_late s" "\<not> aq_notifying s"
  shows "aq_queue s = [] \<and> (\<forall>x \<in> set (aq_workers s). asleep x \<or> x = Exited)"
proof -
  have no: "aq_workers s ! w \<noteq> Empty_wait \<and> aq_workers s ! w \<noteq> Blocked_wait \<and> run_of (aq_workers s ! w) = []" if "w < length (aq_workers s)" for w
    using assms(2)[rule_format, of w] that by (cases "aq_workers s ! w") (auto simp: worker_step_def)
  then have m: "mutex_free s" by (force simp: mutex_free_simps in_set_conv_nth)
  have "asleep (aq_workers s ! w) \<or> aq_workers s ! w = Exited" if "w < length (aq_workers s)" for w
    using assms(2)[rule_format, of w] no[OF that] m that by (cases "aq_workers s ! w") (auto simp: worker_step_def asleep_def)
  then have a: "\<forall>x \<in> set (aq_workers s). asleep x \<or> x = Exited" by (metis in_set_conv_nth)
  then have "\<not> (\<exists>x \<in> set (aq_workers s). active x \<or> x = Blocked_woken)" by (auto simp: asleep_def active_def)
  then have "aq_queue s = []" using aq_reach_watched[OF assms(1)] assms(3,4) unfolding watched_def by blast
  then show ?thesis using a by simp
qed


section \<open>Shutting down\<close>

lemma worker_step_asleep:
  assumes "aq_ok s" "worker_step w s = Some (Inr t)" "i < length (aq_workers s)" "asleep (aq_workers s ! i)"
  shows "i < length (aq_workers t) \<and> aq_workers t ! i = aq_workers s ! i"
proof -
  have "works s t" using worker_step_ok[OF assms(1,2)] by auto
  then show ?thesis
  proof cases
    case (started v q1 r q2 us)
    then show ?thesis using assms(3,4) by (cases "i = v") (auto simp: asleep_def)
  next
    case (moved v y)
    have "i \<noteq> v" using moved(2) assms(4) by (auto simp: asleep_def elim: moves.cases)
    then show ?thesis using moved(3) assms(3) by simp
  next
    case (finished v r us m)
    then show ?thesis using assms(3,4) by (cases "i = v") (auto simp: asleep_def)
  qed
qed

lemma worker_steps_asleep:
  "aq_reach n s \<Longrightarrow> worker_steps ws s = Some (Inr t) \<Longrightarrow> i < length (aq_workers s) \<Longrightarrow> asleep (aq_workers s ! i) \<Longrightarrow>
    aq_workers t ! i = aq_workers s ! i"
proof (induction ws arbitrary: s)
  case (Cons w ws)
  note ok = aq_reach_ok[OF Cons(2)]
  obtain s1 where 1: "worker_step w s = Some (Inr s1)" "worker_steps ws s1 = Some (Inr t)"
    using Cons(3) by (auto split: option.splits sum.splits)
  have "aq_reach n s1" by (rule aq_reach.step[OF Cons(2), of "Work w"]) (simp add: aq_step_def 1(1))
  from Cons(1)[OF this 1(2)] worker_step_asleep[OF ok 1(1) Cons(4,5)] Cons(5) show ?case by simp
qed simp

fun aq_run :: "aq_action list \<Rightarrow> app_queue \<Rightarrow> app_queue result option" where
  "aq_run [] s = Some (Inr s)"
| "aq_run (a # as) s = (case aq_step a s of None \<Rightarrow> None | Some (Inl e) \<Rightarrow> Some (Inl e) | Some (Inr t) \<Rightarrow> aq_run as t)"

lemma aq_run_reach: "aq_run as s = Some (Inr t) \<Longrightarrow> aq_reach n s \<Longrightarrow> aq_reach n t"
  by (induction as arbitrary: s) (auto split: option.splits sum.splits intro: aq_reach.step)

lemmas aq_run_defs = aq_step_def worker_step_def take_work_def start_work_def finish_work_def add_usage_def push_work_def set_worker_def
  mutex_free_def holds_mutex_def asleep_def aq_set_shutdown_def aq_notify_all_def deref_def Let_def

text \<open>C10. A shutdown may hang. With any number of workers, a worker that has seen the flag unset and is about to wait when the flag is set
  and all waiting workers are notified goes to sleep afterwards: the shutdown is complete and nothing is queued, but however the
  workers go on, this one never returns, so that a join waits forever.\<close>

theorem shutdown_misses_worker:
  "\<exists>s. aq_reach (Suc m) s \<and> aq_shutdown s \<and> \<not> aq_notifying s \<and> aq_queue s = [] \<and> aq_adding s = [] \<and>
    (\<forall>ws t. worker_steps ws s = Some (Inr t) \<longrightarrow> aq_workers t ! 0 = Empty_asleep)"
proof -
  let ?s = "(aq_new (Suc m))\<lparr>aq_shutdown := True, aq_workers := Empty_asleep # map wake (replicate m Ready)\<rparr>"
  have m: "list_all (\<lambda>w. \<not> (w = Empty_wait \<or> w = Blocked_wait)) (replicate m Ready)" by (simp add: list_all_iff)
  have "aq_run [Work 0, Shutdown, Notify_all, Work 0] (aq_new (Suc m)) = Some (Inr ?s)"
    using m by (simp add: aq_run_defs aq_new_def)
  then have r: "aq_reach (Suc m) ?s" by (rule aq_run_reach) (simp add: aq_reach.start)
  then show ?thesis using worker_steps_asleep[OF r, of _ _ 0]
    by (intro exI[of _ ?s]) (simp add: aq_new_def asleep_def)
qed

theorem shutdown_misses_worker_witness:
  "\<exists>s. aq_reach 2 s \<and> aq_shutdown s \<and> (\<forall>ws t. worker_steps ws s = Some (Inr t) \<longrightarrow> aq_workers t ! 0 \<noteq> Exited)"
proof -
  obtain s where "aq_reach (Suc 1) s" "aq_shutdown s" "\<forall>ws t. worker_steps ws s = Some (Inr t) \<longrightarrow> aq_workers t ! 0 = Empty_asleep"
    using shutdown_misses_worker[of 1] by blast
  then show ?thesis by (intro exI[of _ s]) (auto simp: numeral_2_eq_2)
qed

section \<open>A run\<close>

text \<open>Two requests of one group and one of no group, two workers; the second worker overtakes the blocked request.\<close>

definition group_w :: "nat \<Rightarrow> work_rec" where
  "group_w h = \<lparr>w_handler = h, w_group = 5, w_usage = Some 0\<rparr>"

definition single_w :: work_rec where
  "single_w = \<lparr>w_handler = 3, w_group = 0, w_usage = None\<rparr>"

definition queue_w :: app_queue where
  "queue_w = \<lparr>aq_queue = [group_w 2], aq_usage_map = [5 \<mapsto> 0], aq_usage = [Some \<lparr>u_thread_group = 5, u_running = True, u_outstanding = 2\<rparr>],
     aq_shutdown = False, aq_workers = [Running (group_w 1), Running single_w], aq_adding = [], aq_notifying = False,
     aq_pushed = [group_w 1, group_w 2, single_w], aq_started = [group_w 1, single_w], aq_late = False\<rparr>"

lemma queue_w: "aq_reach 2 queue_w"
proof (rule aq_run_reach)
  have r: "replicate 2 Ready = [Ready, Ready]" by (simp add: numeral_2_eq_2)
  show "aq_run [Add 1 5, Add 2 5, Add 3 0, Push 0 None, Push 0 None, Push 0 None, Work 0, Work 1] (aq_new 2) = Some (Inr queue_w)"
    by (simp add: aq_run_defs aq_new_def queue_w_def group_w_def single_w_def r)
qed (simp add: aq_reach.start)

theorem app_queue_serializes_witness:
  "aq_reach 2 queue_w \<and> dom (aq_usage_map queue_w) = w_group ` set_mset (held queue_w) - {0} \<and> dom (aq_usage_map queue_w) = {5}"
  using app_queue_serializes[OF queue_w] queue_w by (simp add: queue_w_def)

theorem app_queue_order_witness:
  "aq_reach 2 queue_w \<and> of_group 5 (aq_started queue_w) @ of_group 5 (aq_queue queue_w) = [group_w 1, group_w 2]"
proof -
  have "of_group 5 (aq_started queue_w) @ of_group 5 (aq_queue queue_w) = of_group 5 (aq_pushed queue_w)"
    using app_queue_order[OF queue_w] by simp
  then show ?thesis using queue_w by (simp add: queue_w_def of_group_def group_w_def single_w_def)
qed

text \<open>The workers finish what they do, the first goes on with the blocked request, and both fall asleep.\<close>

definition drained_w :: app_queue where
  "drained_w = queue_w\<lparr>aq_queue := [], aq_usage_map := Map.empty, aq_usage := [None], aq_workers := [Empty_asleep, Empty_asleep],
     aq_started := [group_w 1, single_w, group_w 2]\<rparr>"

lemma drained_w: "worker_steps [0, 1, 0, 1, 1, 0, 0, 0] queue_w = Some (Inr drained_w)"
  by (simp add: aq_run_defs queue_w_def drained_w_def group_w_def single_w_def)


end
