(* ===== verification/Spec2Isabelle.thy ===== *)
theory Spec2Isabelle
  imports Errors Serialization Checksum WireTypes DynamicBuffers BlockCompression Keys Cells CellCaches MergeScan CellStores DfsProtocol RangeProtocol MasterProtocol HyperspaceProtocol RequestCaches LocationCaches IOHandlers ApplicationQueues
begin

text \<open>
  A verification library of Hypertable, a distributed store of sorted, versioned cells written in C++ (\<^verbatim>\<open>src/src/cc\<close>).

  \<^bold>\<open>The program.\<close> Clients (\<^verbatim>\<open>Hypertable/Lib\<close>) find the range server of a row through a cache of range locations and send it
  requests over the asynchronous communication layer (\<^verbatim>\<open>AsyncComm\<close>). A range server (\<^verbatim>\<open>Hypertable/RangeServer\<close>) keeps recent
  cells in sorted cell caches and merges caches and cell stores when it scans or compacts; it stores files through a broker
  process for the distributed file system (\<^verbatim>\<open>DfsBroker\<close>). All messages and files are written with the routines of \<^verbatim>\<open>Common\<close>.

  \<^bold>\<open>Theories and sources.\<close>
  \<^item> \<^verbatim>\<open>Prelude\<close>: machine integers as words of their width, buffers as byte lists, results as sums with the error on the left; lemmas
    shared by the components. \<^verbatim>\<open>LinkedLists\<close>: doubly linked lists in a heap of nodes, used for the two hand-linked caches.
  \<^item> \<^verbatim>\<open>Errors\<close> (\<^verbatim>\<open>Common/Error\<close>): the error codes and their texts.
  \<^item> \<^verbatim>\<open>Serialization\<close> (\<^verbatim>\<open>Common/Serialization.h\<close>, \<^verbatim>\<open>serialization-c.h\<close>): every encoder and decoder; round trips, and which decoders are
    safe on hostile input and which are not. The locales \<^verbatim>\<open>codec\<close>, \<^verbatim>\<open>checked_decoder\<close> and \<^verbatim>\<open>wire_format\<close> are their contracts.
  \<^item> \<^verbatim>\<open>Checksum\<close> (\<^verbatim>\<open>Common/Checksum.cc\<close>): the unrolled checksums equal the textbook sums (locale \<^verbatim>\<open>delayed_reduction\<close>).
  \<^item> \<^verbatim>\<open>WireTypes\<close> (\<^verbatim>\<open>Types\<close>, \<^verbatim>\<open>RangeState\<close>, \<^verbatim>\<open>ScanSpec\<close>, \<^verbatim>\<open>Timestamp\<close> in \<^verbatim>\<open>Hypertable/Lib\<close>): the structures of the client protocol.
  \<^item> \<^verbatim>\<open>DynamicBuffers\<close> (\<^verbatim>\<open>Common/DynamicBuffer.h\<close>), \<^verbatim>\<open>BlockCompression\<close> (block headers and the identity codec), \<^verbatim>\<open>Keys\<close>
    (\<^verbatim>\<open>ByteString.h\<close>, \<^verbatim>\<open>Key.cc\<close>): buffers, framed blocks, packed keys and their order.
  \<^item> \<^verbatim>\<open>Cells\<close>, \<^verbatim>\<open>CellCaches\<close>, \<^verbatim>\<open>MergeScan\<close> (\<^verbatim>\<open>CellCache.cc\<close>, \<^verbatim>\<open>CellCacheScanner.cc\<close>, \<^verbatim>\<open>MergeScanner.cc\<close>): delete tracking, the cell
    cache and its scanner, and the merging scanner with deletes, version limits and row limits; the locale \<^verbatim>\<open>cell_list_scanner\<close> is
    the contract of scanners.
  \<^item> \<^verbatim>\<open>CellStores\<close> (\<^verbatim>\<open>CellStoreV0.cc\<close>, \<^verbatim>\<open>CellStoreTrailerV0.cc\<close>, \<^verbatim>\<open>CellStoreScannerV0.cc\<close>): the files of sorted cells - writing with
    the outstanding appends, the two indexes and the trailer, opening, loading the index, and the block-wise scanner; the locale
    \<^verbatim>\<open>lawful_codec\<close> is what the store relies on of its codec, interpreted on the identity codec.
  \<^item> \<^verbatim>\<open>CommMessages\<close>, \<^verbatim>\<open>DfsProtocol\<close> (\<^verbatim>\<open>AsyncComm\<close>, \<^verbatim>\<open>DfsBroker/Lib\<close>): message headers and buffers, replies, and all requests of the
    broker from the client function to the dispatched operation (locale \<^verbatim>\<open>request_protocol\<close>).
  \<^item> \<^verbatim>\<open>RangeProtocol\<close>, \<^verbatim>\<open>MasterProtocol\<close>, \<^verbatim>\<open>HyperspaceProtocol\<close> (\<^verbatim>\<open>RangeServerProtocol.cc\<close>, \<^verbatim>\<open>MasterProtocol.cc\<close>, \<^verbatim>\<open>Hyperspace/Protocol.cc\<close>, the
    \<^verbatim>\<open>ConnectionHandler\<close> and \<^verbatim>\<open>RequestHandler*\<close> classes of the three servers): the other protocols, as further interpretations of
    \<^verbatim>\<open>request_protocol\<close>, and which messages can make a server read outside them.
  \<^item> \<^verbatim>\<open>RequestCaches\<close> (\<^verbatim>\<open>RequestCache.cc\<close>), \<^verbatim>\<open>LocationCaches\<close> (\<^verbatim>\<open>LocationCache.cc\<close>): the linked structures refine lists.
  \<^item> \<^verbatim>\<open>IOHandlers\<close> (\<^verbatim>\<open>IOHandlerData.cc\<close>): the read state machine and the send queue of a connection.
  \<^item> \<^verbatim>\<open>ApplicationQueues\<close> (\<^verbatim>\<open>ApplicationQueue.h\<close>): the threads of a server as interleaved critical sections.
\<close>

end
